(* ===== verification/JS_Prelude.thy ===== *)
theory JS_Prelude
  imports Main "HOL-Library.Word" "HOL-Library.Multiset"
begin

text \<open>
  Shared prelude of the JetStream development: the error values of the C++
  program, the result type with its sequencing combinator, checked signed
  32-bit arithmetic, checked vector access, and the generic list, option and
  word lemmas the component theories use.

  A C++ operation that may abort (a failed assert, a LOG(FATAL)), throw, or run
  into undefined behaviour returns a value of type \<^verbatim>\<open>'a res\<close>:
  \<^verbatim>\<open>Inl\<close> carries the reason and \<^verbatim>\<open>Inr\<close> the result.
\<close>

section \<open>Errors and results\<close>

datatype cxx_error =
    AssertFail
  | LogFatal
  | OutOfBounds
  | IntOverflow
  | NullDeref
  | UndefShift
  | BadConvert
  | Thrown string

type_synonym 'a res = "cxx_error + 'a"

type_synonym u8 = "8 word"
type_synonym u32 = "32 word"
type_synonym u64 = "64 word"
type_synonym size_t = "64 word"
type_synonym msec_t = "64 word"
type_synonym usec_t = "64 word"

named_theorems res_simps \<open>evaluation of the result combinators\<close>
named_theorems word_bounds \<open>bounds of machine words\<close>

fun bindE :: "'a res \<Rightarrow> ('a \<Rightarrow> 'b res) \<Rightarrow> 'b res" where
  "bindE (Inl e) f = Inl e"
| "bindE (Inr x) f = f x"

definition checkE :: "bool \<Rightarrow> cxx_error \<Rightarrow> 'a res \<Rightarrow> 'a res" where
  "checkE b e r = (if b then r else Inl e)"

text \<open>The C \<^verbatim>\<open>assert\<close>: the build files never define NDEBUG, so it is active.\<close>

abbreviation assertE :: "bool \<Rightarrow> 'a res \<Rightarrow> 'a res" where
  "assertE b r \<equiv> checkE b AssertFail r"

fun foldE :: "('a \<Rightarrow> 's \<Rightarrow> 's res) \<Rightarrow> 'a list \<Rightarrow> 's \<Rightarrow> 's res" where
  "foldE f [] s = Inr s"
| "foldE f (x # xs) s = bindE (f x s) (foldE f xs)"

fun mapE :: "('a \<Rightarrow> 'b res) \<Rightarrow> 'a list \<Rightarrow> 'b list res" where
  "mapE f [] = Inr []"
| "mapE f (x # xs) = bindE (f x) (\<lambda>y. bindE (mapE f xs) (\<lambda>ys. Inr (y # ys)))"

definition is_ok :: "'a res \<Rightarrow> bool" where
  "is_ok r = (case r of Inl e \<Rightarrow> False | Inr x \<Rightarrow> True)"

definition the_ok :: "'a res \<Rightarrow> 'a" where
  "the_ok r = (case r of Inr x \<Rightarrow> x)"

lemma the_ok_Inr [simp]: "the_ok (Inr x) = x"
  by (simp add: the_ok_def)

lemma is_ok_simps [simp]:
  "is_ok (Inl e) = False"
  "is_ok (Inr x) = True"
  by (simp_all add: is_ok_def)

lemma is_ok_iff: "is_ok r \<longleftrightarrow> (\<exists>x. r = Inr x)"
  by (cases r) auto

lemma bindE_Inr [simp]: "bindE r Inr = r"
  by (cases r) auto

lemma bindE_assoc: "bindE (bindE r f) g = bindE r (\<lambda>x. bindE (f x) g)"
  by (cases r) auto

lemma bindE_eq_Inr: "bindE r f = Inr y \<longleftrightarrow> (\<exists>x. r = Inr x \<and> f x = Inr y)"
  by (cases r) auto

lemma bindE_cong [fundef_cong]:
  "r = r' \<Longrightarrow> (\<And>x. r' = Inr x \<Longrightarrow> f x = g x) \<Longrightarrow> bindE r f = bindE r' g"
  by (cases r') auto

lemma checkE_eq_Inr: "checkE b e r = Inr y \<longleftrightarrow> b \<and> r = Inr y"
  by (simp add: checkE_def)

lemma checkE_simps [simp]:
  "checkE True e r = r"
  "checkE False e r = Inl e"
  by (simp_all add: checkE_def)

lemmas [res_simps] = bindE_eq_Inr checkE_eq_Inr

lemma foldE_Nil_fun [simp]: "foldE f [] = Inr"
  by (simp add: fun_eq_iff)

lemma foldE_append: "foldE f (xs @ ys) s = bindE (foldE f xs s) (foldE f ys)"
proof (induction xs arbitrary: s)
  case (Cons x xs)
  then show ?case by (cases "f x s") auto
qed simp

lemma foldE_map: "foldE f (map g xs) s = foldE (\<lambda>x. f (g x)) xs s"
  by (induction xs arbitrary: s) (auto intro: bindE_cong)

lemma foldE_total:
  assumes "\<And>x s. x \<in> set xs \<Longrightarrow> I s \<Longrightarrow> f x s = Inr (g x s) \<and> I (g x s)"
    and "I s"
  shows "foldE f xs s = Inr (fold g xs s) \<and> I (fold g xs s)"
  using assms by (induction xs arbitrary: s) auto

lemma foldE_invariant:
  assumes "foldE f xs s = Inr s'" and "I s"
    and "\<And>x s s'. x \<in> set xs \<Longrightarrow> I s \<Longrightarrow> f x s = Inr s' \<Longrightarrow> I s'"
  shows "I s'"
  using assms
proof (induction xs arbitrary: s)
  case Nil
  then show ?case by simp
next
  case (Cons x xs)
  from Cons.prems(1) obtain t where t: "f x s = Inr t" "foldE f xs t = Inr s'"
    by (auto simp: res_simps)
  have "I t" using Cons.prems(2,3) t(1) by auto
  then show ?case using Cons.IH t(2) Cons.prems(3) by auto
qed

lemma mapE_Inr: "(\<And>x. x \<in> set xs \<Longrightarrow> f x = Inr (g x)) \<Longrightarrow> mapE f xs = Inr (map g xs)"
  by (induction xs) auto

lemma mapE_length: "mapE f xs = Inr ys \<Longrightarrow> length ys = length xs"
  by (induction xs arbitrary: ys) (auto simp: res_simps)

section \<open>Checked access to vectors and checked signed arithmetic\<close>

definition nthE :: "'a list \<Rightarrow> nat \<Rightarrow> 'a res" where
  "nthE xs i = (if i < length xs then Inr (xs ! i) else Inl OutOfBounds)"

definition updE :: "'a list \<Rightarrow> nat \<Rightarrow> 'a \<Rightarrow> 'a list res" where
  "updE xs i v = (if i < length xs then Inr (xs[i := v]) else Inl OutOfBounds)"

lemma nthE_Inr [simp]: "i < length xs \<Longrightarrow> nthE xs i = Inr (xs ! i)"
  by (simp add: nthE_def)

lemma nthE_Inl [simp]: "length xs \<le> i \<Longrightarrow> nthE xs i = Inl OutOfBounds"
  by (simp add: nthE_def)

lemma nthE_eq_Inr [res_simps]: "nthE xs i = Inr y \<longleftrightarrow> i < length xs \<and> y = xs ! i"
  by (auto simp: nthE_def)

lemma updE_Inr [simp]: "i < length xs \<Longrightarrow> updE xs i v = Inr (xs[i := v])"
  by (simp add: updE_def)

lemma updE_eq_Inr [res_simps]: "updE xs i v = Inr ys \<longleftrightarrow> i < length xs \<and> ys = xs[i := v]"
  by (auto simp: updE_def)

definition INT_MAX :: int where "INT_MAX = 2147483647"
definition INT_MIN :: int where "INT_MIN = - 2147483648"

definition in_int :: "int \<Rightarrow> bool" where
  "in_int x \<longleftrightarrow> INT_MIN \<le> x \<and> x \<le> INT_MAX"

text \<open>Signed overflow is undefined behaviour in C++: a checked operation reports it.\<close>

definition intE :: "int \<Rightarrow> int res" where
  "intE x = (if in_int x then Inr x else Inl IntOverflow)"

lemma intE_Inr [simp]: "in_int x \<Longrightarrow> intE x = Inr x"
  by (simp add: intE_def)

lemma intE_eq_Inr [res_simps]: "intE x = Inr y \<longleftrightarrow> in_int x \<and> y = x"
  by (auto simp: intE_def)

text \<open>Conversion of an integer of any width to a signed 32-bit one (modulo, as gcc does).\<close>

definition to_int32 :: "int \<Rightarrow> int" where
  "to_int32 x = sint (word_of_int x :: u32)"

lemma to_int32_range: "in_int (to_int32 x)"
  using sint_range_size [of "word_of_int x :: u32"]
  by (simp add: to_int32_def in_int_def INT_MAX_def INT_MIN_def wsst_TYs(3) word_size)

lemma to_int32_id: "in_int x \<Longrightarrow> to_int32 x = x"
  by (simp add: to_int32_def in_int_def INT_MAX_def INT_MIN_def sint_sbintrunc'
      signed_take_bit_int_eq_self)

section \<open>Machine words\<close>

lemma unat_u32_bound [word_bounds]: "unat (w :: u32) < 4294967296"
  using unsigned_less [of w] by simp

lemma unat_u64_bound [word_bounds]: "unat (w :: u64) < 18446744073709551616"
  using unsigned_less [of w] by simp

lemma unat_add_noov32:
  "unat (a :: u32) + unat b < 4294967296 \<Longrightarrow> unat (a + b) = unat a + unat b"
  using unat_add_lem [of a b] by simp

lemma unat_add_noov64:
  "unat (a :: u64) + unat b < 18446744073709551616 \<Longrightarrow> unat (a + b) = unat a + unat b"
  using unat_add_lem [of a b] by simp

lemma sint_le_uint: "sint w \<le> uint (w :: 'a :: len word)"
proof -
  have "take_bit LENGTH('a) (uint w) = uint w"
    using uint_lt2p [of w] by (intro take_bit_int_eq_self) auto
  then show ?thesis by (simp add: sint_uint signed_take_bit_eq_take_bit_minus)
qed

lemma sum_list_unat32:
  "sum_list (map unat ws) < 4294967296 \<Longrightarrow> unat (sum_list ws :: u32) = sum_list (map unat ws)"
  by (induction ws) (auto simp: unat_add_noov32)

lemma sint_small32: "unat (w :: u32) < 2147483648 \<Longrightarrow> sint w = int (unat w)"
proof -
  assume "unat w < 2147483648"
  moreover have u: "uint w = int (unat w)" by simp
  ultimately have "- 2147483648 \<le> uint w" "uint w < 2147483648" by linarith+
  then have "sint w = uint w" unfolding sint_uint
    by (intro signed_take_bit_int_eq_self) simp_all
  then show ?thesis by simp
qed

lemma unat_of_nat32: "n < 4294967296 \<Longrightarrow> unat (of_nat n :: u32) = n"
  by (simp add: unat_of_nat take_bit_nat_eq_self)

lemma unat_of_nat64: "n < 18446744073709551616 \<Longrightarrow> unat (of_nat n :: u64) = n"
  by (simp add: unat_of_nat take_bit_nat_eq_self)

section \<open>Lists\<close>

lemma sum_list_update_nat:
  "i < length xs \<Longrightarrow> sum_list (xs[i := v]) + xs ! i = sum_list xs + (v :: nat)"
  by (induction xs arbitrary: i) (auto split: nat.splits)

lemma sum_list_map_update:
  fixes f :: "'a \<Rightarrow> nat"
  shows "i < length xs \<Longrightarrow> sum_list (map f (xs[i := v])) + f (xs ! i) = sum_list (map f xs) + f v"
  using sum_list_update_nat [of i "map f xs" "f v"] by (simp add: map_update)

lemma set_update_subset: "set (xs[i := v]) \<subseteq> insert v (set xs)"
  by (rule set_update_subset_insert)

lemma in_set_update: "y \<in> set (xs[i := v]) \<Longrightarrow> y = v \<or> y \<in> set xs"
  using set_update_subset_insert [of xs i v] by auto

lemma last_index_induct:
  assumes "P 0" and "\<And>i. i < n \<Longrightarrow> P i \<Longrightarrow> P (Suc i)"
  shows "P n"
proof -
  have "k \<le> n \<Longrightarrow> P k" for k
    using assms by (induction k) auto
  then show ?thesis by simp
qed

end
