(* ===== verification/JS_Double.thy ===== *)
theory JS_Double
  imports JS_Prelude Complex_Main "HOL-Library.Log_Nat"
begin

text \<open>
  IEEE 754 binary64 as the program's \<^verbatim>\<open>double\<close>: a value is a rational, an
  infinity or NaN, and every operation rounds its exact result to the nearest
  double, ties to even, with gradual underflow and overflow to infinity.  The
  sign of zero is not represented: the program never divides by a zero that
  is the result of a negative product.  The lemmas give what the components
  need of rounding: it is monotone, keeps signs, and is exact on integers of
  at most 53 bits.
\<close>

section \<open>Rounding a rational to a double\<close>

definition flog2 :: "rat \<Rightarrow> int" where
  "flog2 x = (case quotient_of x of (n, d) \<Rightarrow>
     let e = int (nat (bitlen n)) - int (nat (bitlen d)) in
     if 2 powi e \<le> x then e else e - 1)"

definition round_even :: "rat \<Rightarrow> int" where
  "round_even x = (let f = \<lfloor>x\<rfloor>; r = x - of_int f in
     if r < 1/2 then f else if 1/2 < r then f + 1 else if even f then f else f + 1)"

definition ulp_exp :: "rat \<Rightarrow> int" where
  "ulp_exp x = max (flog2 x) (- 1022) - 52"

definition rnd_pos :: "rat \<Rightarrow> rat" where
  "rnd_pos x = of_int (round_even (x / 2 powi (ulp_exp x))) * 2 powi (ulp_exp x)"

definition rnd :: "rat \<Rightarrow> rat" where
  "rnd x = (if x = 0 then 0 else if 0 < x then rnd_pos x else - rnd_pos (- x))"

datatype double = Fin rat | PInf | NInf | NaN

definition mk_double :: "rat \<Rightarrow> double" where
  "mk_double x = (let r = rnd x in
     if r \<noteq> 0 \<and> 1024 \<le> flog2 \<bar>r\<bar> then (if 0 < r then PInf else NInf) else Fin r)"

lemma round_even_ge_floor: "\<lfloor>x\<rfloor> \<le> round_even x"
  by (simp add: round_even_def Let_def)

lemma round_even_le: "round_even x \<le> \<lfloor>x\<rfloor> + 1"
  by (simp add: round_even_def Let_def)

lemma round_even_of_int [simp]: "round_even (of_int n) = n"
  by (simp add: round_even_def Let_def)

lemma round_even_mono: assumes "x \<le> y" shows "round_even x \<le> round_even y"
proof (cases "\<lfloor>x\<rfloor> = \<lfloor>y\<rfloor>")
  case True
  then show ?thesis using assms by (simp add: round_even_def Let_def)
next
  case False
  then have "\<lfloor>x\<rfloor> + 1 \<le> \<lfloor>y\<rfloor>" using floor_mono [OF assms] by simp
  then show ?thesis using round_even_le [of x] round_even_ge_floor [of y] by linarith
qed

lemma round_even_ge_int: "of_int n \<le> x \<Longrightarrow> n \<le> round_even x"
  using round_even_mono [of "of_int n" x] by simp

lemma round_even_le_int: "x \<le> of_int n \<Longrightarrow> round_even x \<le> n"
  using round_even_mono [of x "of_int n"] by simp

lemma powi_bitlen_bounds:
  assumes "0 < (n::int)"
  shows "(2::rat) powi (bitlen n - 1) \<le> of_int n" and "of_int n < (2::rat) powi (bitlen n)"
proof -
  have b: "2 ^ nat (bitlen n - 1) \<le> n" "n < 2 ^ nat (bitlen n)"
    using bitlen_bounds [OF assms] by auto
  have p: "0 < bitlen n" using b(2) assms by (cases "0 < bitlen n") auto
  have "(2::rat) powi (bitlen n - 1) = of_int (2 ^ nat (bitlen n - 1))"
    using p by (simp add: power_int_def)
  also have "\<dots> \<le> of_int n" using b(1) by (simp only: of_int_le_iff)
  finally show "(2::rat) powi (bitlen n - 1) \<le> of_int n" .
  have "(of_int n :: rat) < of_int (2 ^ nat (bitlen n))"
    using b(2) by (simp only: of_int_less_iff)
  also have "\<dots> = (2::rat) powi (bitlen n)" using p by (simp add: power_int_def)
  finally show "of_int n < (2::rat) powi (bitlen n)" .
qed

lemma flog2_bounds:
  assumes "0 < x"
  shows "2 powi (flog2 x) \<le> x" and "x < 2 powi (flog2 x + 1)"
proof -
  obtain n d where q: "quotient_of x = (n, d)" by (cases "quotient_of x")
  have d: "0 < d" using q by (rule quotient_of_denom_pos)
  have x: "x = of_int n / of_int d" using q by (rule quotient_of_div)
  have n: "0 < n" using assms x d by (simp add: zero_less_divide_iff)
  define e where "e = bitlen n - bitlen d"
  note bn = powi_bitlen_bounds [OF n] and bd = powi_bitlen_bounds [OF d]
  have ub: "x < 2 powi (e + 1)"
  proof -
    have "of_int n < (2::rat) powi (e + 1) * 2 powi (bitlen d - 1)"
      using bn(2) by (simp add: power_int_add [symmetric] e_def)
    also have "\<dots> \<le> 2 powi (e + 1) * of_int d"
      using bd(1) by (intro mult_left_mono) auto
    finally show ?thesis using d by (simp add: x divide_less_eq)
  qed
  have lb: "2 powi (e - 1) \<le> x"
  proof -
    have "(2::rat) powi (e - 1) * of_int d \<le> 2 powi (e - 1) * 2 powi (bitlen d)"
      using bd(2) by (intro mult_left_mono) auto
    also have "\<dots> = 2 powi (bitlen n - 1)"
      by (simp add: power_int_add [symmetric] e_def)
    also have "\<dots> \<le> of_int n" by (rule bn(1))
    finally show ?thesis using d by (simp add: x le_divide_eq)
  qed
  have f: "flog2 x = (if 2 powi e \<le> x then e else e - 1)"
    using bitlen_nonneg by (simp add: flog2_def q e_def Let_def)
  show "2 powi (flog2 x) \<le> x" using lb f by simp
  show "x < 2 powi (flog2 x + 1)" using ub f by auto
qed

lemma powi_less_imp: "(2::rat) powi a < 2 powi b \<Longrightarrow> a < b"
  by (metis not_less power_int_increasing one_le_numeral)

lemma flog2_mono: assumes "0 < x" and "x \<le> y" shows "flog2 x \<le> flog2 y"
proof -
  have "2 powi (flog2 x) < (2::rat) powi (flog2 y + 1)"
    using flog2_bounds(1) [of x] flog2_bounds(2) [of y] assms by linarith
  then show ?thesis using powi_less_imp by fastforce
qed

lemma rnd_pos_nonneg: "0 < x \<Longrightarrow> 0 \<le> rnd_pos x"
  by (simp add: rnd_pos_def round_even_ge_int)

lemma rnd_pos_mono: assumes "0 < x" and "x \<le> y" shows "rnd_pos x \<le> rnd_pos y"
proof (cases "ulp_exp x = ulp_exp y")
  case True
  have "x / 2 powi (ulp_exp y) \<le> y / 2 powi (ulp_exp y)"
    using assms(2) by (intro divide_right_mono) auto
  then have "round_even (x / 2 powi (ulp_exp y)) \<le> round_even (y / 2 powi (ulp_exp y))"
    by (rule round_even_mono)
  then show ?thesis unfolding rnd_pos_def True by (intro mult_right_mono) auto
next
  case False
  have lt: "ulp_exp x < ulp_exp y"
    using False flog2_mono [OF assms] unfolding ulp_exp_def by linarith
  then have ey: "flog2 y = ulp_exp y + 52" unfolding ulp_exp_def by linarith
  have xl: "x < 2 powi (ulp_exp x + 53)"
  proof -
    have "flog2 x + 1 \<le> ulp_exp x + 53" unfolding ulp_exp_def by linarith
    then have "(2::rat) powi (flog2 x + 1) \<le> 2 powi (ulp_exp x + 53)"
      by (intro power_int_increasing) auto
    then show ?thesis using flog2_bounds(2) [OF assms(1)] by linarith
  qed
  have "x / 2 powi (ulp_exp x) \<le> of_int (2 ^ 53)"
    using xl by (simp add: divide_le_eq power_int_add mult.commute)
  then have "round_even (x / 2 powi (ulp_exp x)) \<le> 2 ^ 53" by (rule round_even_le_int)
  then have "(of_int (round_even (x / 2 powi (ulp_exp x))) :: rat) \<le> of_int (2 ^ 53)"
    by (simp only: of_int_le_iff)
  then have "rnd_pos x \<le> of_int (2 ^ 53) * 2 powi (ulp_exp x)"
    unfolding rnd_pos_def by (intro mult_right_mono) auto
  also have "\<dots> = 2 powi (ulp_exp x + 53)" by (simp add: power_int_add)
  also have "\<dots> \<le> 2 powi (ulp_exp y + 52)" using lt by (intro power_int_increasing) auto
  also have "\<dots> \<le> rnd_pos y"
  proof -
    have "2 powi (ulp_exp y + 52) \<le> y" using flog2_bounds(1) [of y] ey assms by simp
    then have "of_int (2 ^ 52) \<le> y / 2 powi (ulp_exp y)"
      by (simp add: le_divide_eq power_int_add mult.commute)
    then have "2 ^ 52 \<le> round_even (y / 2 powi (ulp_exp y))" by (rule round_even_ge_int)
    then have "(of_int (2 ^ 52) :: rat) \<le> of_int (round_even (y / 2 powi (ulp_exp y)))"
      by (simp only: of_int_le_iff)
    then have "of_int (2 ^ 52) * 2 powi (ulp_exp y) \<le> rnd_pos y"
      unfolding rnd_pos_def by (intro mult_right_mono) auto
    then show ?thesis by (simp add: power_int_add mult.commute)
  qed
  finally show ?thesis .
qed

lemma rnd_0 [simp]: "rnd 0 = 0"
  by (simp add: rnd_def)

lemma rnd_minus: "rnd (- x) = - rnd x"
  by (simp add: rnd_def)

lemma rnd_nonneg: "0 \<le> x \<Longrightarrow> 0 \<le> rnd x"
  using rnd_pos_nonneg [of x] by (simp add: rnd_def)

lemma rnd_mono: assumes "x \<le> y" shows "rnd x \<le> rnd y"
proof -
  consider "0 < x" | "x \<le> 0" "0 \<le> y" | "y < 0" by linarith
  then show ?thesis
  proof cases
    case 1
    then show ?thesis using assms rnd_pos_mono by (simp add: rnd_def)
  next
    case 2
    then have "0 \<le> rnd (- x)" "0 \<le> rnd y" by (simp_all add: rnd_nonneg)
    then show ?thesis by (simp add: rnd_minus)
  next
    case 3
    then show ?thesis using assms rnd_pos_mono [of "- y" "- x"] by (simp add: rnd_def)
  qed
qed

lemma rnd_pos_int:
  assumes "0 < n" and "n \<le> 2 ^ 53"
  shows "rnd_pos (of_int n) = of_int n"
proof -
  let ?e = "ulp_exp (of_int n)"
  have pos: "(0::rat) < of_int n" using assms(1) by simp
  have le1: "flog2 (of_int n) \<le> 53"
  proof -
    have "2 powi (flog2 (of_int n)) \<le> (of_int n :: rat)" by (rule flog2_bounds(1) [OF pos])
    also have "\<dots> \<le> of_int (2 ^ 53)" using assms(2) by (simp only: of_int_le_iff)
    also have "\<dots> < 2 powi (54::int)" by simp
    finally show ?thesis using powi_less_imp by fastforce
  qed
  show ?thesis
  proof (cases "n = 2 ^ 53")
    case True
    have "flog2 (of_int n) = 53"
      using flog2_bounds(2) [OF pos] le1 powi_less_imp [of 53 "flog2 (of_int n) + 1"] True by simp
    then show ?thesis unfolding rnd_pos_def ulp_exp_def
      using True round_even_of_int [of "2 ^ 52"] by simp
  next
    case False
    have "2 powi (flog2 (of_int n)) \<le> (of_int n :: rat)" by (rule flog2_bounds(1) [OF pos])
    also have "\<dots> < of_int (2 ^ 53)" using assms(2) False by (simp only: of_int_less_iff)
    also have "\<dots> = 2 powi (53::int)" by simp
    finally have "flog2 (of_int n) < 53" by (rule powi_less_imp)
    then have e: "?e \<le> 0" unfolding ulp_exp_def by linarith
    have "(of_int n :: rat) / 2 powi ?e = of_int (n * 2 ^ nat (- ?e))"
      using e by (simp add: power_int_def field_simps)
    then have "rnd_pos (of_int n) = of_int (n * 2 ^ nat (- ?e)) * 2 powi ?e"
      unfolding rnd_pos_def by (simp only: round_even_of_int)
    also have "\<dots> = of_int n" using e by (simp add: power_int_def field_simps)
    finally show ?thesis .
  qed
qed

lemma rnd_int: assumes "\<bar>n\<bar> \<le> 2 ^ 53" shows "rnd (of_int n) = of_int n"
proof -
  consider "n = 0" | "0 < n" | "n < 0" by linarith
  then show ?thesis
  proof cases
    case 2
    then show ?thesis using rnd_pos_int [of n] assms by (simp add: rnd_def)
  next
    case 3
    then show ?thesis using rnd_pos_int [of "- n"] assms by (simp add: rnd_def)
  qed simp
qed

lemma rnd_ge_int: "\<bar>n\<bar> \<le> 2 ^ 53 \<Longrightarrow> of_int n \<le> x \<Longrightarrow> of_int n \<le> rnd x"
  using rnd_mono [of "of_int n" x] rnd_int [of n] by simp

lemma rnd_le_int: "\<bar>n\<bar> \<le> 2 ^ 53 \<Longrightarrow> x \<le> of_int n \<Longrightarrow> rnd x \<le> of_int n"
  using rnd_mono [of x "of_int n"] rnd_int [of n] by simp

section \<open>The operations of the C++ type\<close>

fun dneg :: "double \<Rightarrow> double" where
  "dneg (Fin x) = Fin (- x)"
| "dneg PInf = NInf"
| "dneg NInf = PInf"
| "dneg NaN = NaN"

fun dadd :: "double \<Rightarrow> double \<Rightarrow> double" where
  "dadd (Fin x) (Fin y) = mk_double (x + y)"
| "dadd NaN y = NaN"
| "dadd x NaN = NaN"
| "dadd PInf NInf = NaN"
| "dadd NInf PInf = NaN"
| "dadd PInf y = PInf"
| "dadd NInf y = NInf"
| "dadd x y = y"

definition dsub :: "double \<Rightarrow> double \<Rightarrow> double" where
  "dsub x y = dadd x (dneg y)"

fun dsgn :: "double \<Rightarrow> int" where
  "dsgn (Fin x) = (if 0 < x then 1 else if x < 0 then - 1 else 0)"
| "dsgn PInf = 1"
| "dsgn NInf = - 1"
| "dsgn NaN = 0"

definition dinf :: "int \<Rightarrow> double" where
  "dinf s = (if 0 < s then PInf else if s < 0 then NInf else NaN)"

fun dmul :: "double \<Rightarrow> double \<Rightarrow> double" where
  "dmul (Fin x) (Fin y) = mk_double (x * y)"
| "dmul NaN y = NaN"
| "dmul x NaN = NaN"
| "dmul x y = dinf (dsgn x * dsgn y)"

text \<open>A finite value divided by zero is an infinity of its sign, and NaN for zero itself.\<close>

fun ddiv :: "double \<Rightarrow> double \<Rightarrow> double" where
  "ddiv (Fin x) (Fin y) = (if y = 0 then dinf (dsgn (Fin x)) else mk_double (x / y))"
| "ddiv NaN y = NaN"
| "ddiv x NaN = NaN"
| "ddiv (Fin x) y = Fin 0"
| "ddiv x (Fin y) = dinf (dsgn x * (if y < 0 then - 1 else 1))"
| "ddiv x y = NaN"

fun dlt :: "double \<Rightarrow> double \<Rightarrow> bool" where
  "dlt (Fin x) (Fin y) = (x < y)"
| "dlt NaN y = False"
| "dlt x NaN = False"
| "dlt PInf y = False"
| "dlt x NInf = False"
| "dlt x y = True"

definition dle :: "double \<Rightarrow> double \<Rightarrow> bool" where
  "dle x y \<longleftrightarrow> dlt x y \<or> (x = y \<and> x \<noteq> NaN)"

text \<open>
  The two minimum functions the program uses: C's \<^verbatim>\<open>fmin\<close> ignores a NaN argument,
  \<^verbatim>\<open>std::min(a, b)\<close> is \<^verbatim>\<open>(b < a) ? b : a\<close>.
\<close>

definition fmin :: "double \<Rightarrow> double \<Rightarrow> double" where
  "fmin x y = (if x = NaN then y else if y = NaN then x else if dlt y x then y else x)"

definition std_min :: "double \<Rightarrow> double \<Rightarrow> double" where
  "std_min x y = (if dlt y x then y else x)"

definition dof_int :: "int \<Rightarrow> double" where
  "dof_int n = mk_double (of_int n)"

abbreviation dof_u32 :: "u32 \<Rightarrow> double" where
  "dof_u32 w \<equiv> dof_int (uint w)"

abbreviation dof_u64 :: "u64 \<Rightarrow> double" where
  "dof_u64 w \<equiv> dof_int (uint w)"

text \<open>Conversion to an integer truncates; it is undefined unless the result fits.\<close>

fun dtrunc :: "int \<Rightarrow> int \<Rightarrow> double \<Rightarrow> int res" where
  "dtrunc lo hi (Fin x) = (let t = (if 0 \<le> x then \<lfloor>x\<rfloor> else \<lceil>x\<rceil>) in
     if lo \<le> t \<and> t \<le> hi then Inr t else Inl BadConvert)"
| "dtrunc lo hi d = Inl BadConvert"

abbreviation d_to_int :: "double \<Rightarrow> int res" where
  "d_to_int \<equiv> dtrunc INT_MIN INT_MAX"

abbreviation d_to_u64 :: "double \<Rightarrow> int res" where
  "d_to_u64 \<equiv> dtrunc 0 18446744073709551615"

text \<open>The literals 0.95 and 1.1 of the source.\<close>

definition d0_95 :: double where "d0_95 = mk_double (95/100)"
definition d1_1 :: double where "d1_1 = mk_double (11/10)"

section \<open>Laws of the operations\<close>

fun dnonneg :: "double \<Rightarrow> bool" where
  "dnonneg (Fin x) = (0 \<le> x)"
| "dnonneg PInf = True"
| "dnonneg NInf = False"
| "dnonneg NaN = False"

named_theorems double_simps \<open>evaluation of double operations\<close>

lemma mk_double_cases:
  "mk_double x = (if rnd x \<noteq> 0 \<and> 1024 \<le> flog2 \<bar>rnd x\<bar> then (if 0 < rnd x then PInf else NInf)
     else Fin (rnd x))"
  by (simp add: mk_double_def Let_def)

lemma mk_double_not_NaN [simp]: "mk_double x \<noteq> NaN"
  by (simp add: mk_double_cases)

lemma mk_double_nonneg: assumes "0 \<le> x" shows "dnonneg (mk_double x)"
proof -
  have "0 \<le> rnd x" using assms by (rule rnd_nonneg)
  then show ?thesis by (simp add: mk_double_cases)
qed

lemma dof_int_exact:
  assumes "\<bar>n\<bar> \<le> 2 ^ 53"
  shows "dof_int n = Fin (of_int n)"
proof -
  have r: "rnd (of_int n) = of_int n" using assms by (rule rnd_int)
  have "flog2 \<bar>of_int n\<bar> < 1024" if "n \<noteq> 0"
  proof -
    have pos: "(0::rat) < \<bar>of_int n\<bar>" using that by simp
    have "2 powi (flog2 \<bar>of_int n\<bar>) \<le> \<bar>of_int n :: rat\<bar>" by (rule flog2_bounds(1) [OF pos])
    also have "\<dots> = of_int \<bar>n\<bar>" by simp
    also have "\<dots> \<le> of_int (2 ^ 53)" using assms by (simp only: of_int_le_iff)
    also have "\<dots> < 2 powi (54::int)" by simp
    finally show ?thesis using powi_less_imp by fastforce
  qed
  then show ?thesis by (auto simp: dof_int_def mk_double_cases r)
qed

lemma dof_u32_exact: "dof_u32 w = Fin (of_int (uint w))"
proof -
  have "uint w < 4294967296" using uint_lt2p [of w] by simp
  then show ?thesis by (intro dof_int_exact) simp
qed

lemma dof_int32_exact: "in_int n \<Longrightarrow> dof_int n = Fin (of_int n)"
  by (intro dof_int_exact) (auto simp: in_int_def INT_MAX_def INT_MIN_def abs_le_iff)

lemma dof_int_nonneg: "0 \<le> n \<Longrightarrow> dnonneg (dof_int n)"
  unfolding dof_int_def by (intro mk_double_nonneg) simp

lemma dadd_nonneg: "dnonneg x \<Longrightarrow> dnonneg y \<Longrightarrow> dnonneg (dadd x y)"
  by (cases x; cases y) (auto intro: mk_double_nonneg)

lemma ddiv_nonneg:
  assumes "dnonneg x" and "dnonneg y" and "dlt (Fin 0) x \<or> dlt (Fin 0) y" and "\<not> (x = PInf \<and> y = PInf)"
  shows "dnonneg (ddiv x y)"
  using assms by (cases x; cases y) (auto simp: dinf_def intro: mk_double_nonneg)

lemma dmul_nonneg:
  assumes "dnonneg x" and "dnonneg y" and "x \<noteq> PInf" and "y \<noteq> PInf"
  shows "dnonneg (dmul x y)"
  using assms by (cases x; cases y) (auto intro: mk_double_nonneg)

lemma fmin_nonneg: "dnonneg x \<or> x = NaN \<Longrightarrow> dnonneg y \<or> y = NaN \<Longrightarrow> x \<noteq> NaN \<or> y \<noteq> NaN \<Longrightarrow> dnonneg (fmin x y)"
  by (auto simp: fmin_def)

lemma dlt_irrefl [simp]: "\<not> dlt x x"
  by (cases x) auto

lemma dlt_trans: "dlt x y \<Longrightarrow> dlt y z \<Longrightarrow> dlt x z"
  by (cases x; cases y; cases z) auto

lemma dle_refl [simp]: "dle x x \<longleftrightarrow> x \<noteq> NaN"
  by (simp add: dle_def)

lemma dle_trans: "dle x y \<Longrightarrow> dle y z \<Longrightarrow> dle x z"
  unfolding dle_def using dlt_trans by metis

lemma dle_Fin [simp]: "dle (Fin x) (Fin y) \<longleftrightarrow> x \<le> y"
  by (auto simp: dle_def)

lemma dlt_imp_dle: "dlt x y \<Longrightarrow> dle x y"
  by (simp add: dle_def)

lemma dnonneg_not_neg: "dnonneg x \<Longrightarrow> \<not> dlt x (Fin 0)"
  by (cases x) auto

lemma fmin_le:
  shows "fmin x y \<noteq> NaN \<Longrightarrow> x \<noteq> NaN \<Longrightarrow> dle (fmin x y) x"
    and "fmin x y \<noteq> NaN \<Longrightarrow> y \<noteq> NaN \<Longrightarrow> dle (fmin x y) y"
  by (cases x; cases y; auto simp: fmin_def dle_def)+

lemma flog2_powi: "flog2 (2 powi k) = k"
proof -
  have "(2::rat) powi k < 2 powi (flog2 (2 powi k) + 1)" "2 powi (flog2 (2 powi k)) \<le> (2::rat) powi k"
    using flog2_bounds [of "2 powi k"] by auto
  moreover have "flog2 (2 powi k) \<le> k"
    using calculation(2) by (metis linorder_not_le power_int_strict_increasing numeral_One one_less_numeral_iff semiring_norm(76))
  ultimately show ?thesis using powi_less_imp [of k "flog2 (2 powi k) + 1"] by simp
qed

lemma rnd_powi: assumes "- 1022 \<le> k" shows "rnd (2 powi k) = 2 powi k"
proof -
  have u: "ulp_exp (2 powi k) = k - 52" using assms by (simp add: ulp_exp_def flog2_powi)
  have "(2::rat) powi k / 2 powi (k - 52) = of_int (2 ^ 52)" by (simp add: power_int_diff)
  then have "rnd_pos (2 powi k) = of_int (2 ^ 52) * 2 powi (k - 52)"
    unfolding rnd_pos_def u by (simp only: round_even_of_int)
  then show ?thesis by (simp add: rnd_def power_int_diff)
qed

lemma rnd_abs: "\<bar>rnd x\<bar> = rnd \<bar>x\<bar>"
  using rnd_nonneg [of x] rnd_nonneg [of "- x"] by (cases "0 \<le> x") (auto simp: rnd_minus)

lemma mk_double_fin:
  assumes "\<bar>x\<bar> \<le> 2 powi k" and "- 1022 \<le> k" and "k < 1024"
  shows "mk_double x = Fin (rnd x)" and "\<bar>rnd x\<bar> \<le> 2 powi k"
proof -
  show b: "\<bar>rnd x\<bar> \<le> 2 powi k"
    using rnd_mono [OF assms(1)] rnd_powi [OF assms(2)] by (simp add: rnd_abs)
  have "flog2 \<bar>rnd x\<bar> < 1024" if "rnd x \<noteq> 0"
    using flog2_mono [of "\<bar>rnd x\<bar>" "2 powi k"] that b assms(3) by (simp add: flog2_powi)
  then show "mk_double x = Fin (rnd x)" by (auto simp: mk_double_cases)
qed

lemma mk_double_fin_int:
  assumes "of_int lo \<le> x" and "x \<le> of_int hi" and "\<bar>lo\<bar> \<le> 2 ^ 53" and "\<bar>hi\<bar> \<le> 2 ^ 53"
  shows "mk_double x = Fin (rnd x)" and "of_int lo \<le> rnd x" and "rnd x \<le> of_int hi"
proof -
  have "(of_int \<bar>lo\<bar> :: rat) \<le> of_int (2 ^ 53)" "(of_int \<bar>hi\<bar> :: rat) \<le> of_int (2 ^ 53)"
    using assms(3,4) by (simp_all only: of_int_le_iff)
  then have "\<bar>x\<bar> \<le> 2 powi 53" using assms(1,2) by (auto simp: abs_le_iff)
  then show "mk_double x = Fin (rnd x)" by (rule mk_double_fin) auto
  show "of_int lo \<le> rnd x" by (rule rnd_ge_int [OF assms(3) assms(1)])
  show "rnd x \<le> of_int hi" by (rule rnd_le_int [OF assms(4) assms(2)])
qed

lemma dadd_Fin_NaN [simp]: "dadd (Fin a) x = NaN \<longleftrightarrow> x = NaN"
  by (cases x) auto

lemma ddiv_pos_cases: "dlt (Fin 0) mx \<Longrightarrow> dnonneg y \<or> y = NaN \<Longrightarrow> dnonneg (ddiv mx y) \<or> ddiv mx y = NaN"
  by (cases mx; cases y) (auto simp: dinf_def intro: mk_double_nonneg)

lemma dmul_Fin_nonneg: "dnonneg x \<Longrightarrow> 0 < k \<Longrightarrow> dnonneg (dmul x (Fin k))"
  by (cases x) (auto simp: dinf_def intro: mk_double_nonneg)

lemma ddiv_nonneg_or_NaN: "dnonneg x \<Longrightarrow> dnonneg y \<Longrightarrow> dnonneg (ddiv x y) \<or> ddiv x y = NaN"
  by (cases x; cases y) (auto simp: dinf_def intro: mk_double_nonneg)

lemma dtrunc_range: "dtrunc lo hi d = Inr y \<Longrightarrow> lo \<le> y \<and> y \<le> hi"
  by (cases d) (auto simp: Let_def split: if_splits)

lemma d0_95_val: "d0_95 = Fin (4278419646001971/4503599627370496)"
  by code_simp

lemma d1_1_val: "d1_1 = Fin (2476979795053773/2251799813685248)"
  by code_simp

end
