(* ===== verification/JS_Types.thy ===== *)
theory JS_Types
  imports JS_Double
begin

text \<open>
  The data that flows through JetStream: operator identifiers
  (\<^verbatim>\<open>utils/js_utils.h\<close>), the protobuf messages of
  \<^verbatim>\<open>proto/jetstream_types.proto\<close> as records (an optional field is an option, a
  repeated field a list, an unset scalar reads as its default), and the helper
  functions of \<^verbatim>\<open>utils/js_utils.h\<close> and \<^verbatim>\<open>utils/js_utils.cc\<close> that read and build
  them.  Signed integer fields hold HOL integers, the code that computes with
  them checks the range.
\<close>

section \<open>Operator identifiers\<close>

datatype operator_id_t = OpId (computation_id: int) (task_id: int)

definition default_operator_id :: operator_id_t where
  "default_operator_id = OpId 0 0"

text \<open>The order of \<^verbatim>\<open>operator_id_t::operator<\<close> is a linear order, as std::map requires.\<close>

definition operator_id_less :: "operator_id_t \<Rightarrow> operator_id_t \<Rightarrow> bool" where
  "operator_id_less a b \<longleftrightarrow> computation_id a < computation_id b
     \<or> (computation_id a = computation_id b \<and> task_id a < task_id b)"

instantiation operator_id_t :: linorder
begin

definition less_operator_id_t :: "operator_id_t \<Rightarrow> operator_id_t \<Rightarrow> bool" where
  "less_operator_id_t a b \<longleftrightarrow> operator_id_less a b"

definition less_eq_operator_id_t :: "operator_id_t \<Rightarrow> operator_id_t \<Rightarrow> bool" where
  "less_eq_operator_id_t a b \<longleftrightarrow> a < b \<or> a = b"

lemmas operator_id_order = less_operator_id_t_def less_eq_operator_id_t_def operator_id_less_def

instance
proof
  fix x y z :: operator_id_t
  show "(x < y) = (x \<le> y \<and> \<not> y \<le> x)"
    by (cases x; cases y) (auto simp: operator_id_order)
  show "x \<le> x" by (simp add: less_eq_operator_id_t_def)
  show "x \<le> y \<Longrightarrow> y \<le> z \<Longrightarrow> x \<le> z"
    by (cases x; cases y; cases z) (auto simp: operator_id_order)
  show "x \<le> y \<Longrightarrow> y \<le> x \<Longrightarrow> x = y"
    by (cases x; cases y) (auto simp: operator_id_order)
  show "x \<le> y \<or> y \<le> x"
    by (cases x; cases y) (auto simp: operator_id_order)
qed

end

section \<open>Printing integers\<close>

definition digit_char :: "nat \<Rightarrow> char" where
  "digit_char d = char_of (48 + d)"

fun show_nat :: "nat \<Rightarrow> string" where
  "show_nat n = (if n < 10 then [digit_char n] else show_nat (n div 10) @ [digit_char (n mod 10)])"

declare show_nat.simps [simp del]

definition show_int :: "int \<Rightarrow> string" where
  "show_int i = (if i < 0 then CHR ''-'' # show_nat (nat (- i)) else show_nat (nat i))"

definition digit_val :: "char \<Rightarrow> nat" where
  "digit_val c = of_char c - 48"

definition read_nat :: "string \<Rightarrow> nat" where
  "read_nat s = fold (\<lambda>c n. n * 10 + digit_val c) s 0"

definition is_digit :: "char \<Rightarrow> bool" where
  "is_digit c \<longleftrightarrow> (48::nat) \<le> of_char c \<and> (of_char c::nat) \<le> 57"

lemma of_digit_char: "d < 10 \<Longrightarrow> (of_char (digit_char d) :: nat) = 48 + d"
  by (simp add: digit_char_def)

lemma digit_val_char [simp]: "d < 10 \<Longrightarrow> digit_val (digit_char d) = d"
  by (simp add: digit_val_def of_digit_char)

lemma is_digit_char [simp]: "d < 10 \<Longrightarrow> is_digit (digit_char d)"
  by (simp add: is_digit_def of_digit_char)

lemma read_show_nat: "read_nat (show_nat n) = n"
proof (induction n rule: show_nat.induct)
  case (1 n)
  show ?case
  proof (cases "n < 10")
    case True
    then show ?thesis by (simp add: show_nat.simps [of n] read_nat_def)
  next
    case False
    then have "read_nat (show_nat (n div 10)) = n div 10" using 1 by simp
    then show ?thesis using False by (simp add: show_nat.simps [of n] read_nat_def)
  qed
qed

lemma show_nat_digits: "list_all is_digit (show_nat n)"
proof (induction n rule: show_nat.induct)
  case (1 n)
  then show ?case by (cases "n < 10") (simp_all add: show_nat.simps [of n])
qed

lemma show_nat_nonempty: "show_nat n \<noteq> []"
  by (simp add: show_nat.simps [of n])

lemma show_nat_inj: "show_nat m = show_nat n \<longleftrightarrow> m = n"
  using read_show_nat by metis

lemma not_digit_minus: "\<not> is_digit (CHR ''-'')"
  by (simp add: is_digit_def)

lemma show_int_inj: "show_int i = show_int j \<longleftrightarrow> i = j"
proof -
  have hd: "is_digit (hd (show_nat n))" for n
    using show_nat_digits [of n] show_nat_nonempty [of n] by (cases "show_nat n") auto
  have ne: "CHR ''-'' # s \<noteq> show_nat n" for s n
    using hd [of n] not_digit_minus by (metis list.sel(1))
  show ?thesis
    using ne by (auto simp: show_int_def show_nat_inj) (metis ne)+
qed

definition operator_id_to_string :: "operator_id_t \<Rightarrow> string" where
  "operator_id_to_string i = ''('' @ show_int (computation_id i) @ '','' @ show_int (task_id i) @ '')''"

section \<open>Summaries, elements and tuples\<close>

record JSSample =
  smp_items :: "int list"
  smp_total_items :: int
  smp_max_items :: u32

record JSHistogram =
  bucket_vals :: "int list"
  num_buckets :: u32

record JSCMSketch =
  sk_d :: u32
  sk_w :: u32
  rand_seed :: u32
  sk_exact_levels :: "u8 list list"
  sk_panes :: "u8 list list"
  sk_total_items :: u32

record JSSummary =
  sample :: "JSSample option"
  histo :: "JSHistogram option"
  sketch :: "JSCMSketch option"
  sum_items :: "int list"
  future_hist_size :: "int option"

record Element =
  s_val :: "string option"
  i_val :: "int option"
  d_val :: "double option"
  t_val :: "int option"
  blob :: "u8 list option"
  summary :: "JSSummary option"

record Tuple =
  e :: "Element list"
  version :: "u64 option"

definition empty_element :: Element where
  "empty_element = \<lparr>s_val = None, i_val = None, d_val = None, t_val = None, blob = None, summary = None\<rparr>"

definition empty_tuple :: Tuple where
  "empty_tuple = \<lparr>e = [], version = None\<rparr>"

definition empty_summary :: JSSummary where
  "empty_summary = \<lparr>sample = None, histo = None, sketch = None, sum_items = [], future_hist_size = None\<rparr>"

text \<open>Protobuf getters: an unset scalar field reads as zero or the empty string.\<close>

definition get_i_val :: "Element \<Rightarrow> int" where
  "get_i_val x = (case i_val x of None \<Rightarrow> 0 | Some i \<Rightarrow> i)"

definition get_t_val :: "Element \<Rightarrow> int" where
  "get_t_val x = (case t_val x of None \<Rightarrow> 0 | Some t \<Rightarrow> t)"

definition get_s_val :: "Element \<Rightarrow> string" where
  "get_s_val x = (case s_val x of None \<Rightarrow> [] | Some s \<Rightarrow> s)"

definition get_d_val :: "Element \<Rightarrow> double" where
  "get_d_val x = (case d_val x of None \<Rightarrow> Fin 0 | Some d \<Rightarrow> d)"

definition get_version :: "Tuple \<Rightarrow> u64" where
  "get_version t = (case version t of None \<Rightarrow> 0 | Some v \<Rightarrow> v)"

definition int_element :: "int \<Rightarrow> Element" where
  "int_element i = empty_element \<lparr>i_val := Some i\<rparr>"

definition double_element :: "double \<Rightarrow> Element" where
  "double_element d = empty_element \<lparr>d_val := Some d\<rparr>"

definition string_element :: "string \<Rightarrow> Element" where
  "string_element s = empty_element \<lparr>s_val := Some s\<rparr>"

definition time_element :: "int \<Rightarrow> Element" where
  "time_element t = empty_element \<lparr>t_val := Some t\<rparr>"

definition add_e :: "Tuple \<Rightarrow> Element \<Rightarrow> Tuple" where
  "add_e t x = t \<lparr>e := e t @ [x]\<rparr>"

definition extend_tuple_int :: "Tuple \<Rightarrow> int \<Rightarrow> Tuple" where
  "extend_tuple_int t i = add_e t (int_element i)"

definition extend_tuple_double :: "Tuple \<Rightarrow> double \<Rightarrow> Tuple" where
  "extend_tuple_double t d = add_e t (double_element d)"

definition extend_tuple_string :: "Tuple \<Rightarrow> string \<Rightarrow> Tuple" where
  "extend_tuple_string t s = add_e t (string_element s)"

definition extend_tuple_time :: "Tuple \<Rightarrow> int \<Rightarrow> Tuple" where
  "extend_tuple_time t tm = add_e t (time_element (to_int32 tm))"

definition numeric :: "Tuple \<Rightarrow> nat \<Rightarrow> double res" where
  "numeric t field = bindE (nthE (e t) field) (\<lambda>d.
     Inr (case d_val d of Some v \<Rightarrow> v | None \<Rightarrow> dof_int (get_i_val d)))"

lemmas element_defs = int_element_def double_element_def string_element_def time_element_def
  empty_element_def

lemmas get_defs = get_i_val_def get_t_val_def get_s_val_def get_d_val_def get_version_def

lemma element_simps [simp]:
  "i_val (int_element i) = Some i" "d_val (int_element i) = None"
  "s_val (int_element i) = None" "t_val (int_element i) = None"
  "d_val (double_element d) = Some d" "i_val (double_element d) = None"
  "s_val (string_element s) = Some s" "d_val (string_element s) = None" "i_val (string_element s) = None"
  "t_val (time_element t) = Some t" "i_val (time_element t) = None" "d_val (time_element t) = None"
  by (simp_all add: element_defs)

lemma numeric_extend_int:
  "in_int i \<Longrightarrow> numeric (extend_tuple_int t i) (length (e t)) = Inr (Fin (of_int i))"
  by (simp add: numeric_def extend_tuple_int_def add_e_def nthE_def get_i_val_def dof_int32_exact)

lemma numeric_extend_double:
  "numeric (extend_tuple_double t d) (length (e t)) = Inr d"
  by (simp add: numeric_def extend_tuple_double_def add_e_def nthE_def)

section \<open>Topology messages\<close>

record TaskID =
  tid_computationID :: int
  tid_task :: int

record TaskMeta =
  task_id_of :: TaskID
  op_typename :: string
  config :: "(string \<times> string) list"

record NodeID =
  address :: string
  portno :: int

record Edge =
  edge_computation :: int
  edge_src :: "int option"
  src_cube :: "string option"
  edge_dest :: "int option"
  dest_cube :: "string option"
  dest_addr :: "NodeID option"
  max_kb_per_sec :: "double option"

datatype DimensionType = DIM_STRING | DIM_INT32 | DIM_DOUBLE | DIM_TIME | DIM_TIME_CONTAINMENT | DIM_URL

record SchemaDimension =
  dim_name :: string
  dim_type :: DimensionType
  dim_tuple_indexes :: "int list"

record SchemaAggregate =
  agg_name :: string
  agg_type :: string
  agg_tuple_indexes :: "int list"

datatype ImplType = MySQL | Masstree

record CubeSchema =
  impl :: "ImplType option"
  dimensions :: "SchemaDimension list"
  aggregates :: "SchemaAggregate list"

record CubeMeta =
  cube_name :: string
  schema :: CubeSchema
  overwrite_old :: "bool option"

record CongestPolicySpec =
  policy_ops :: "TaskID list"

record AlterTopo =
  alter_computationID :: int
  toStart :: "TaskMeta list"
  toCreate :: "CubeMeta list"
  taskToStop :: "TaskID list"
  cubesToStop :: "string list"
  edges :: "Edge list"
  congest_policies :: "CongestPolicySpec list"

definition unparse_id :: "TaskID \<Rightarrow> operator_id_t" where
  "unparse_id i = OpId (tid_computationID i) (tid_task i)"

definition add_operator_to_alter :: "AlterTopo \<Rightarrow> operator_id_t \<Rightarrow> string \<Rightarrow> AlterTopo" where
  "add_operator_to_alter topo dest_id nm = topo \<lparr>toStart := toStart topo @
     [\<lparr>task_id_of = \<lparr>tid_computationID = computation_id dest_id, tid_task = task_id dest_id\<rparr>,
       op_typename = nm, config = []\<rparr>]\<rparr>"

definition empty_edge :: "int \<Rightarrow> Edge" where
  "empty_edge c = \<lparr>edge_computation = c, edge_src = None, src_cube = None, edge_dest = None,
     dest_cube = None, dest_addr = None, max_kb_per_sec = None\<rparr>"

definition add_edge_to_alter_int :: "AlterTopo \<Rightarrow> int \<Rightarrow> int \<Rightarrow> int \<Rightarrow> AlterTopo" where
  "add_edge_to_alter_int topo computation src_id dest_id = topo \<lparr>edges := edges topo @
     [empty_edge computation \<lparr>edge_dest := Some dest_id, edge_src := Some src_id\<rparr>]\<rparr>"

definition add_edge_to_alter :: "AlterTopo \<Rightarrow> operator_id_t \<Rightarrow> operator_id_t \<Rightarrow> AlterTopo res" where
  "add_edge_to_alter topo src_id dest_id =
     (if computation_id src_id \<noteq> computation_id dest_id then Inl LogFatal
      else Inr (add_edge_to_alter_int topo (computation_id src_id) (task_id src_id) (task_id dest_id)))"

definition add_edge_to_alter_src_cube :: "AlterTopo \<Rightarrow> string \<Rightarrow> operator_id_t \<Rightarrow> AlterTopo" where
  "add_edge_to_alter_src_cube topo src_id dest_id = topo \<lparr>edges := edges topo @
     [empty_edge (computation_id dest_id) \<lparr>edge_dest := Some (task_id dest_id), src_cube := Some src_id\<rparr>]\<rparr>"

definition add_edge_to_alter_dest_cube :: "AlterTopo \<Rightarrow> operator_id_t \<Rightarrow> string \<Rightarrow> AlterTopo" where
  "add_edge_to_alter_dest_cube topo src_id dest_id = topo \<lparr>edges := edges topo @
     [empty_edge (computation_id src_id) \<lparr>dest_cube := Some dest_id, edge_src := Some (task_id src_id)\<rparr>]\<rparr>"

definition add_cube_to_alter :: "AlterTopo \<Rightarrow> string \<Rightarrow> bool \<Rightarrow> AlterTopo" where
  "add_cube_to_alter topo nm ow = topo \<lparr>toCreate := toCreate topo @
     [\<lparr>cube_name = nm, schema = \<lparr>impl = None, dimensions = [], aggregates = []\<rparr>,
       overwrite_old = Some ow\<rparr>]\<rparr>"

definition add_dimension :: "CubeMeta \<Rightarrow> DimensionType \<Rightarrow> string \<Rightarrow> int \<Rightarrow> CubeMeta" where
  "add_dimension m d nm idx = m \<lparr>schema := (schema m) \<lparr>dimensions := dimensions (schema m) @
     [\<lparr>dim_name = nm, dim_type = d, dim_tuple_indexes = [idx]\<rparr>]\<rparr>\<rparr>"

definition add_aggregate :: "CubeMeta \<Rightarrow> string \<Rightarrow> string \<Rightarrow> int \<Rightarrow> CubeMeta" where
  "add_aggregate m ty nm idx = m \<lparr>schema := (schema m) \<lparr>aggregates := aggregates (schema m) @
     [\<lparr>agg_name = nm, agg_type = ty,
       agg_tuple_indexes = (if ty = ''avg'' then [idx, idx + 1] else [idx])\<rparr>]\<rparr>\<rparr>"

definition add_cfg_to_task :: "TaskMeta \<Rightarrow> string \<Rightarrow> string \<Rightarrow> TaskMeta" where
  "add_cfg_to_task t optname v = t \<lparr>config := config t @ [(optname, v)]\<rparr>"

section \<open>Dataplane messages\<close>

datatype DataplaneType =
    DP_ERROR | DATA | ACK | CHAIN_CONNECT | CHAIN_READY | NO_MORE_DATA | TS_ECHO | CONGEST_STATUS
  | SET_BACKOFF | END_OF_WINDOW | ROLLUP_LEVELS | TPUT_START | TPUT_ROUND_2 | TPUT_ROUND_3 | DELTA

record DataplaneMessage =
  dp_type :: DataplaneType
  error_msg :: "string option"
  chain_link :: "Edge option"
  data :: "Tuple list"
  timestamp :: "int option"
  congestion_level :: "double option"
  filter_level :: "double option"
  window_length_ms :: "int option"
  bytes_processed :: "int option"
  rollup_levels :: "int list"
  window_end :: "u32 option"
  tput_r1_start :: "Tuple option"
  tput_r1_end :: "Tuple option"
  tput_sort_key :: "string option"
  tput_k :: "int option"
  tput_r2_col :: "int option"
  tput_r2_threshold :: "double option"
  tput_r3_query :: "Tuple list"
  tput_round :: "int option"
  tput_r3_timecol :: "int option"
  old_val :: "Tuple list"
  new_val :: "Tuple list"

definition mk_msg :: "DataplaneType \<Rightarrow> DataplaneMessage" where
  "mk_msg ty = \<lparr>dp_type = ty, error_msg = None, chain_link = None, data = [], timestamp = None,
     congestion_level = None, filter_level = None, window_length_ms = None, bytes_processed = None,
     rollup_levels = [], window_end = None, tput_r1_start = None, tput_r1_end = None,
     tput_sort_key = None, tput_k = None, tput_r2_col = None, tput_r2_threshold = None,
     tput_r3_query = [], tput_round = None, tput_r3_timecol = None, old_val = [], new_val = []\<rparr>"

lemma mk_msg_type [simp]: "dp_type (mk_msg ty) = ty"
  by (simp add: mk_msg_def)

section \<open>Formatting tuples\<close>

text \<open>
  The text of a double and of a time comes from the C++ stream library and
  strftime: two parameters.
\<close>

definition add_one_el :: "(double \<Rightarrow> string) \<Rightarrow> (int \<Rightarrow> string) \<Rightarrow> Element \<Rightarrow> string" where
  "add_one_el fmt_d fmt_t el =
    (case s_val el of None \<Rightarrow> [] | Some s \<Rightarrow> [CHR 0x22] @ s @ [CHR 0x22]) @
    (case d_val el of None \<Rightarrow> [] | Some d \<Rightarrow> ''D='' @ fmt_d d @ '' '') @
    (case i_val el of None \<Rightarrow> [] | Some i \<Rightarrow> ''I='' @ show_int i @ '' '') @
    (case t_val el of Some t \<Rightarrow> fmt_t t @ '' ''
     | None \<Rightarrow> (case summary el of
         Some s \<Rightarrow> (case histo s of
             Some h \<Rightarrow> ''histogram('' @ show_nat (length (bucket_vals h)) @ '')-''
               @ show_nat (unat (sum_list (map word_of_int (bucket_vals h)) :: u32)) @ '' elems''
           | None \<Rightarrow> ''misc. summary'')
       | None \<Rightarrow> (case blob el of
           Some b \<Rightarrow> show_nat (length b) @ ''-byte blob''
         | None \<Rightarrow> (if s_val el = None \<and> d_val el = None \<and> i_val el = None then ''UNDEF'' else []))))"

definition fmt_tuple :: "(double \<Rightarrow> string) \<Rightarrow> (int \<Rightarrow> string) \<Rightarrow> Tuple \<Rightarrow> string" where
  "fmt_tuple fmt_d fmt_t t = ''('' @
     (case e t of [] \<Rightarrow> [] | x # xs \<Rightarrow> add_one_el fmt_d fmt_t x
        @ concat (map (\<lambda>y. '','' @ add_one_el fmt_d fmt_t y) xs)) @ '')''"

definition fmt_element :: "(double \<Rightarrow> string) \<Rightarrow> (int \<Rightarrow> string) \<Rightarrow> Element \<Rightarrow> string" where
  "fmt_element fmt_d fmt_t x = ''['' @ add_one_el fmt_d fmt_t x @ '']''"

section \<open>Time\<close>

text \<open>The clock is a parameter: seconds and nanoseconds as clock_gettime returns them.\<close>

definition get_usec :: "u64 \<Rightarrow> u64 \<Rightarrow> usec_t" where
  "get_usec tv_sec tv_nsec = tv_sec * 1000000 + tv_nsec div 1000"

definition get_msec :: "u64 \<Rightarrow> u64 \<Rightarrow> msec_t" where
  "get_msec tv_sec tv_nsec = get_usec tv_sec tv_nsec div 1000"

end
