(* ===== verification/JS_Monitors.thy ===== *)
theory JS_Monitors
  imports JS_Types
begin

text \<open>
  The congestion monitors (\<^verbatim>\<open>utils/congestion_monitor.h\<close>,
  \<^verbatim>\<open>utils/net_congest_mon.h\<close>, \<^verbatim>\<open>utils/queue_congestion_mon.h\<close>,
  \<^verbatim>\<open>utils/window_congest_mon.h\<close>, \<^verbatim>\<open>utils/chained_queue_mon.h\<close>,
  \<^verbatim>\<open>utils/sharedwindow_congest_mon.*\<close>, \<^verbatim>\<open>utils/congestion_monitors.cc\<close>).  The class
  hierarchy is a hierarchy of records.  The clock is an argument of the
  operations.  The two lock-free counters are modelled with the interference
  of other threads: an operation takes the list of the atomic additions other
  threads perform before each of its own atomic accesses.  The locale
  \<^verbatim>\<open>capacity_monitor\<close> states what a client of the interface CongestionMonitor
  relies on; it is interpreted on every monitor class.
\<close>

section \<open>The class hierarchy\<close>

record NetCongestionMonitor =
  downstream_status :: double
  max_per_sec :: double
  downstream_report_time :: msec_t
  mon_ratio :: double

record GenericQCongestionMonitor = NetCongestionMonitor +
  queueTarget :: u32
  queueLen :: u32

record QueueCongestionMonitor = GenericQCongestionMonitor +
  prevQueueLen :: u32
  insertsInPeriod :: u32
  lastQueryTS :: usec_t
  prev_inserts :: u32
  mon_removes :: int

record SmoothingQCongestionMonitor = GenericQCongestionMonitor +
  s_insertsInPeriod :: u32
  s_removesInPeriod :: u32
  s_inserts :: "int list"
  s_removes :: "int list"
  s_tstamps :: "msec_t list"
  v_idx :: nat
  total_inserts :: int
  total_removes :: int
  SMOOTH_STEP_MS :: msec_t

record WindowCongestionMonitor = NetCongestionMonitor +
  window_start_time :: msec_t
  last_window_end :: msec_t
  bytes_in_window :: u32
  smoothing_factor :: double

text \<open>Interface CongestionMonitor and the operations of NetCongestionMonitor.\<close>

definition uncongested_capacity_ratio :: "msec_t \<Rightarrow> unit \<Rightarrow> (double \<times> unit) res" where
  "uncongested_capacity_ratio now m = Inr (Fin 10, m)"

definition is_congested :: "double \<Rightarrow> bool" where
  "is_congested ratio = dlt ratio (Fin 1)"

definition set_downstream_congestion ::
  "double \<Rightarrow> msec_t \<Rightarrow> 'a NetCongestionMonitor_scheme \<Rightarrow> 'a NetCongestionMonitor_scheme" where
  "set_downstream_congestion d report_time m =
     m \<lparr>downstream_status := d, downstream_report_time := report_time\<rparr>"

definition set_max_rate ::
  "double \<Rightarrow> 'a NetCongestionMonitor_scheme \<Rightarrow> 'a NetCongestionMonitor_scheme" where
  "set_max_rate d m = m \<lparr>max_per_sec := d\<rparr>"

definition limit_is_remote :: "'a NetCongestionMonitor_scheme \<Rightarrow> bool" where
  "limit_is_remote m = dlt (downstream_status m) (mon_ratio m)"

definition set_queue_size ::
  "u32 \<Rightarrow> 'a GenericQCongestionMonitor_scheme \<Rightarrow> 'a GenericQCongestionMonitor_scheme" where
  "set_queue_size s m = m \<lparr>queueTarget := s\<rparr>"

definition queue_length :: "'a GenericQCongestionMonitor_scheme \<Rightarrow> int" where
  "queue_length m = sint (queueLen m)"

section \<open>QueueCongestionMonitor\<close>

definition new_QueueCongestionMonitor :: "u32 \<Rightarrow> u32 \<Rightarrow> int \<Rightarrow> QueueCongestionMonitor" where
  "new_QueueCongestionMonitor qTarg uninit_ins uninit_rem =
     \<lparr>downstream_status = PInf, max_per_sec = PInf, downstream_report_time = 0, mon_ratio = Fin 10,
      queueTarget = qTarg, queueLen = 0, prevQueueLen = 0, insertsInPeriod = 0, lastQueryTS = 0,
      prev_inserts = uninit_ins, mon_removes = uninit_rem\<rparr>"

text \<open>report_insert and report_delete are atomic additions, one after the other.\<close>

datatype atomic_add = AddInserts u32 | AddQLen u32

fun apply_add :: "atomic_add \<Rightarrow> QueueCongestionMonitor \<Rightarrow> QueueCongestionMonitor" where
  "apply_add (AddInserts w) m = m \<lparr>insertsInPeriod := insertsInPeriod m + w\<rparr>"
| "apply_add (AddQLen w) m = m \<lparr>queueLen := queueLen m + w\<rparr>"

definition insert_adds :: "u32 \<Rightarrow> atomic_add list" where
  "insert_adds weight = [AddInserts weight, AddQLen weight]"

definition delete_adds :: "u32 \<Rightarrow> atomic_add list" where
  "delete_adds weight = [AddQLen (- weight)]"

definition q_report_insert :: "u32 \<Rightarrow> QueueCongestionMonitor \<Rightarrow> QueueCongestionMonitor" where
  "q_report_insert weight m = fold apply_add (insert_adds weight) m"

definition q_report_delete :: "u32 \<Rightarrow> QueueCongestionMonitor \<Rightarrow> QueueCongestionMonitor" where
  "q_report_delete weight m = fold apply_add (delete_adds weight) m"

definition env_step ::
  "atomic_add list list \<Rightarrow> QueueCongestionMonitor \<Rightarrow> atomic_add list list \<times> QueueCongestionMonitor" where
  "env_step env m = (case env of [] \<Rightarrow> ([], m) | adds # rest \<Rightarrow> (rest, fold apply_add adds m))"

lemma env_step_length: "length (fst (env_step env m)) \<le> length env"
  by (cases env) (auto simp: env_step_def)

lemma env_step_Nil [simp]: "env_step [] m = ([], m)"
  by (simp add: env_step_def)

lemma env_step_Cons [simp]: "env_step (a # as) m = (as, fold apply_add a m)"
  by (simp add: env_step_def)

text \<open>
  The loop that resets the counter: \<^verbatim>\<open>atomic_cas32(mem, 0, cmp)\<close> returns the old value
  and stores 0 when it equals \<^verbatim>\<open>cmp\<close>.  The read of queueLen in the body is a separate
  atomic access.
\<close>

function q_cas_loop ::
  "atomic_add list list \<Rightarrow> u32 \<Rightarrow> u32 \<Rightarrow> u32 \<Rightarrow> QueueCongestionMonitor
     \<Rightarrow> u32 \<times> u32 \<times> QueueCongestionMonitor" where
  "q_cas_loop env newi inserts readQLen m =
     (let m1 = snd (env_step env m);
          env1 = fst (env_step env m);
          old = insertsInPeriod m1;
          m2 = (if old = newi then m1 \<lparr>insertsInPeriod := 0\<rparr> else m1)
      in if old = 0 then (inserts, readQLen, m2)
         else let m3 = (if inserts \<noteq> old then snd (env_step env1 m2) else m2);
                  env3 = (if inserts \<noteq> old then fst (env_step env1 m2) else env1);
                  readQLen' = (if inserts \<noteq> old then queueLen m3 else readQLen)
              in q_cas_loop env3 old old readQLen' m3)"
  by pat_completeness auto

termination
proof (relation "measures [\<lambda>(env, newi, inserts, readQLen, m). length env,
    \<lambda>(env, newi, inserts, readQLen, m). if insertsInPeriod m = 0 then 0 else if insertsInPeriod m = newi then 1 else 2]",
    goal_cases)
  case 1
  show ?case by simp
next
  case (2 env newi inserts readQLen m)
  show ?case
  proof (cases env)
    case Nil
    then show ?thesis using 2 by (auto simp: env_step_def)
  next
    case (Cons a as)
    have "length (fst (env_step as k)) \<le> length as" for k by (rule env_step_length)
    then show ?thesis using 2 Cons by (auto simp: env_step_def le_imp_less_Suc)
  qed
qed

declare q_cas_loop.simps [simp del]

definition SAMPLE_INTERVAL_MS :: int where "SAMPLE_INTERVAL_MS = 100"

text \<open>One sample: the values read and the new ratio, with the checks of the code in order.\<close>

definition q_sample ::
  "u32 \<Rightarrow> u32 \<Rightarrow> QueueCongestionMonitor \<Rightarrow> QueueCongestionMonitor res" where
  "q_sample readQLen inserts m =
     (let queueDelta = sint (readQLen - prevQueueLen m);
          availRoom = sint (queueTarget m - readQLen - word_of_int queueDelta)
      in bindE (intE (- availRoom)) (\<lambda>negRoom.
         let r1 = (if sint inserts < negRoom then Fin 0
                   else dadd (ddiv (dof_int availRoom) (dof_u32 inserts)) (Fin 1));
             rate_per_sec = ddiv (dmul (dof_u32 inserts) (Fin 1000)) (dof_int SAMPLE_INTERVAL_MS);
             r2 = fmin r1 (ddiv (max_per_sec m) rate_per_sec);
             rem = sint (inserts - word_of_int queueDelta);
             rem' = (if rem < 0 then 0 else rem)
         in checkE (\<not> dlt r2 (Fin 0)) LogFatal
              (Inr (m \<lparr>prev_inserts := inserts, mon_ratio := r2, mon_removes := rem',
                      prevQueueLen := readQLen\<rparr>))))"

definition q_capacity_ratio ::
  "usec_t \<Rightarrow> atomic_add list list \<Rightarrow> QueueCongestionMonitor \<Rightarrow> (double \<times> QueueCongestionMonitor) res" where
  "q_capacity_ratio now env m =
     (if now > lastQueryTS m + word_of_int (SAMPLE_INTERVAL_MS * 1000) then
        (let (env1, m1) = env_step env (m \<lparr>lastQueryTS := now\<rparr>);
             readQLen = queueLen m1;
             (env2, m2) = env_step env1 m1;
             inserts = insertsInPeriod m2;
             (inserts', readQLen', m3) = q_cas_loop env2 inserts inserts readQLen m2
         in bindE (q_sample readQLen' inserts' m3) (\<lambda>m4.
            Inr (fmin (mon_ratio m4) (downstream_status m4), m4)))
      else Inr (fmin (mon_ratio m) (downstream_status m), m))"

definition q_measurement_time :: "QueueCongestionMonitor \<Rightarrow> msec_t" where
  "q_measurement_time m = (if dlt (downstream_status m) (mon_ratio m)
     then downstream_report_time m else lastQueryTS m)"

section \<open>ChainedQueueMonitor\<close>

text \<open>The next monitor is a parameter pair: its capacity_ratio and its measurement_time.\<close>

record 'd ChainedQueueMonitor =
  cq_base :: QueueCongestionMonitor
  cq_dest :: "'d option"

definition chained_capacity_ratio ::
  "('d \<Rightarrow> (double \<times> 'd) res) \<Rightarrow> ('d \<Rightarrow> msec_t) \<Rightarrow> usec_t \<Rightarrow> atomic_add list list
     \<Rightarrow> 'd ChainedQueueMonitor \<Rightarrow> (double \<times> 'd ChainedQueueMonitor) res" where
  "chained_capacity_ratio dcap dtime now env m =
     (case cq_dest m of
        None \<Rightarrow> bindE (q_capacity_ratio now env (cq_base m)) (\<lambda>(r, b). Inr (r, m \<lparr>cq_base := b\<rparr>))
      | Some d \<Rightarrow> bindE (dcap d) (\<lambda>(downstream, d').
          bindE (q_capacity_ratio now env (set_downstream_congestion downstream (dtime d') (cq_base m)))
            (\<lambda>(r, b). Inr (r, m \<lparr>cq_base := b, cq_dest := Some d'\<rparr>))))"

section \<open>SmoothingQCongestionMonitor\<close>

definition WIND_SIZE :: nat where "WIND_SIZE = 3"
definition PROJECT_STEPS :: double where "PROJECT_STEPS = Fin 8"

definition new_SmoothingQ :: "u32 \<Rightarrow> msec_t \<Rightarrow> int \<Rightarrow> int \<Rightarrow> SmoothingQCongestionMonitor" where
  "new_SmoothingQ qTarg step_ms uninit_ti uninit_tr =
     \<lparr>downstream_status = PInf, max_per_sec = PInf, downstream_report_time = 0, mon_ratio = Fin 10,
      queueTarget = qTarg, queueLen = 0, s_insertsInPeriod = 0, s_removesInPeriod = 0,
      s_inserts = replicate WIND_SIZE 0, s_removes = replicate WIND_SIZE 0,
      s_tstamps = replicate WIND_SIZE 0, v_idx = 0,
      total_inserts = uninit_ti, total_removes = uninit_tr, SMOOTH_STEP_MS = step_ms\<rparr>"

definition s_report_insert :: "u32 \<Rightarrow> SmoothingQCongestionMonitor \<Rightarrow> SmoothingQCongestionMonitor" where
  "s_report_insert weight m = m \<lparr>s_insertsInPeriod := s_insertsInPeriod m + weight\<rparr>"

definition s_report_delete :: "u32 \<Rightarrow> SmoothingQCongestionMonitor \<Rightarrow> SmoothingQCongestionMonitor" where
  "s_report_delete weight m = m \<lparr>s_removesInPeriod := s_removesInPeriod m + weight\<rparr>"

text \<open>
  \<^verbatim>\<open>write_and_clear\<close> on one counter; \<^verbatim>\<open>env\<close> lists what other threads add before each
  of its atomic accesses.  The result is the value returned and the counter left.
\<close>

function wac_loop :: "u32 list \<Rightarrow> u32 \<Rightarrow> u32 \<Rightarrow> u32 \<Rightarrow> u32 \<times> u32" where
  "wac_loop env targ most_recent final_val =
     (let targ1 = (case env of [] \<Rightarrow> targ | w # _ \<Rightarrow> targ + w);
          targ2 = (if targ1 = most_recent then 0 else targ1)
      in if targ1 = final_val then (final_val, targ2)
         else wac_loop (drop 1 env) targ2 targ1 targ1)"
  by pat_completeness auto

termination
proof (relation "measures [\<lambda>(env, targ, mr, fv). length env,
    \<lambda>(env, targ, mr, fv). if mr = fv then (if targ = fv then 0 else 1)
       else if targ = fv then 0 else if targ = mr then 3 else 2]", goal_cases)
  case 1
  show ?case by simp
next
  case (2 env targ mr fv)
  then show ?case by (cases env) auto
qed

declare wac_loop.simps [simp del]

definition write_and_clear :: "u32 list \<Rightarrow> u32 \<Rightarrow> u32 \<times> u32" where
  "write_and_clear env targ =
     (let targ1 = (case env of [] \<Rightarrow> targ | w # _ \<Rightarrow> targ + w)
      in wac_loop (drop 1 env) targ1 targ1 targ1)"

definition s_space_ratio :: "u32 \<Rightarrow> int \<Rightarrow> int \<Rightarrow> double" where
  "s_space_ratio target ti future =
     (let delta_to_achieve = dof_int (uint target - future);
          r1 = (if ti = 0 then PInf
                else dadd (Fin 1) (dmul (ddiv delta_to_achieve (dof_int ti))
                       (ddiv (dof_int (int WIND_SIZE)) PROJECT_STEPS)))
      in if dlt r1 (Fin 0) then Fin 0 else r1)"

definition s_rate_limit :: "double \<Rightarrow> int \<Rightarrow> msec_t \<Rightarrow> double" where
  "s_rate_limit mx ti tdelta_full_window =
     ddiv mx (ddiv (dmul (dof_int ti) (Fin 1000)) (dof_u64 tdelta_full_window))"

definition s_capacity_ratio ::
  "msec_t \<Rightarrow> u32 list \<Rightarrow> u32 list \<Rightarrow> SmoothingQCongestionMonitor
     \<Rightarrow> (double \<times> SmoothingQCongestionMonitor) res" where
  "s_capacity_ratio now ienv renv m =
     bindE (nthE (s_tstamps m) (v_idx m)) (\<lambda>ts.
     if now - ts \<ge> SMOOTH_STEP_MS m then
       (let (my_inserts, ins_left) = write_and_clear ienv (s_insertsInPeriod m);
            (my_removes, rem_left) = write_and_clear renv (s_removesInPeriod m);
            newQLen = queueLen m + my_inserts - my_removes;
            idx = (v_idx m + 1) mod WIND_SIZE
        in bindE (updE (s_inserts m) idx (sint my_inserts)) (\<lambda>ins.
           bindE (updE (s_removes m) idx (sint my_removes)) (\<lambda>rem.
           bindE (updE (s_tstamps m) idx now) (\<lambda>tst.
           bindE (foldE (\<lambda>x acc. intE (acc + x)) ins 0) (\<lambda>ti.
           bindE (foldE (\<lambda>x acc. intE (acc + x)) rem 0) (\<lambda>tr.
           bindE (dtrunc (- 9223372036854775808) 9223372036854775807
              (dadd (dof_u32 newQLen)
                 (ddiv (dmul (dof_int (ti - tr)) PROJECT_STEPS) (dof_int (int WIND_SIZE))))) (\<lambda>future.
           bindE (nthE tst ((idx + 1) mod WIND_SIZE)) (\<lambda>oldest.
              let r3 = fmin (s_space_ratio (queueTarget m) ti future) (s_rate_limit (max_per_sec m) ti (now - oldest))
              in Inr (fmin r3 (downstream_status m),
                  m \<lparr>s_insertsInPeriod := ins_left, s_removesInPeriod := rem_left, queueLen := newQLen,
                     v_idx := idx, s_inserts := ins, s_removes := rem, s_tstamps := tst,
                     total_inserts := ti, total_removes := tr, mon_ratio := r3\<rparr>)))))))))
     else Inr (fmin (mon_ratio m) (downstream_status m), m))"

definition s_measurement_time :: "SmoothingQCongestionMonitor \<Rightarrow> msec_t res" where
  "s_measurement_time m = (if dlt (downstream_status m) (mon_ratio m)
     then Inr (downstream_report_time m) else nthE (s_tstamps m) ((v_idx m + 1) mod WIND_SIZE))"

section \<open>WindowCongestionMonitor\<close>

definition new_WindowCongestionMonitor :: "msec_t \<Rightarrow> double \<Rightarrow> WindowCongestionMonitor res" where
  "new_WindowCongestionMonitor now smoothing_prev_value =
     checkE (\<not> dlt d0_95 smoothing_prev_value) LogFatal
       (Inr \<lparr>downstream_status = PInf, max_per_sec = PInf, downstream_report_time = 0, mon_ratio = Fin 10,
         window_start_time = 0, last_window_end = now, bytes_in_window = 0,
         smoothing_factor = smoothing_prev_value\<rparr>)"

definition unsmoothed_ratio :: "msec_t \<Rightarrow> int \<Rightarrow> msec_t \<Rightarrow> WindowCongestionMonitor \<Rightarrow> double" where
  "unsmoothed_ratio now window_data_ms processing_start_time m =
     (if processing_start_time \<noteq> 0 then
        (let window_processtime_ms = now - processing_start_time;
             window_availtime_ms = now - last_window_end m;
             window_ratio = ddiv (dof_int window_data_ms) (dof_u64 window_processtime_ms);
             bytes_per_sec = ddiv (dmul (dof_u32 (bytes_in_window m)) (Fin 1000)) (dof_u64 window_availtime_ms);
             r = std_min window_ratio (ddiv (max_per_sec m) bytes_per_sec)
         in if window_processtime_ms = 0 \<or> window_availtime_ms = 0 \<or> dlt (Fin 10) r then Fin 10 else r)
      else Fin 10)"

definition w_end_of_window ::
  "msec_t \<Rightarrow> int \<Rightarrow> msec_t \<Rightarrow> WindowCongestionMonitor \<Rightarrow> WindowCongestionMonitor" where
  "w_end_of_window now window_data_ms processing_start_time m =
     m \<lparr>mon_ratio := dadd (dmul (dsub (Fin 1) (smoothing_factor m))
                               (unsmoothed_ratio now window_data_ms processing_start_time m))
                         (dmul (smoothing_factor m) (mon_ratio m)),
       bytes_in_window := 0, last_window_end := now, window_start_time := 0\<rparr>"

definition w_get_window_start :: "WindowCongestionMonitor \<Rightarrow> msec_t" where
  "w_get_window_start m = window_start_time m"

definition w_end_of_window_default :: "msec_t \<Rightarrow> int \<Rightarrow> WindowCongestionMonitor \<Rightarrow> WindowCongestionMonitor" where
  "w_end_of_window_default now window_ms m = w_end_of_window now window_ms (w_get_window_start m) m"

definition w_new_window_start :: "WindowCongestionMonitor \<Rightarrow> WindowCongestionMonitor" where
  "w_new_window_start m = m \<lparr>window_start_time := 0\<rparr>"

definition w_capacity_ratio :: "msec_t \<Rightarrow> WindowCongestionMonitor \<Rightarrow> (double \<times> WindowCongestionMonitor) res" where
  "w_capacity_ratio now m = Inr (fmin (downstream_status m) (mon_ratio m), m)"

definition w_report_insert :: "msec_t \<Rightarrow> u32 \<Rightarrow> WindowCongestionMonitor \<Rightarrow> WindowCongestionMonitor" where
  "w_report_insert now weight m =
     (let m1 = (if window_start_time m = 0 then m \<lparr>window_start_time := now\<rparr> else m)
      in m1 \<lparr>bytes_in_window := bytes_in_window m1 + weight\<rparr>)"

definition w_measurement_time :: "WindowCongestionMonitor \<Rightarrow> msec_t" where
  "w_measurement_time m = (if dlt (downstream_status m) (mon_ratio m)
     then downstream_report_time m else last_window_end m)"

section \<open>SharedWindowMonitor\<close>

record SharedWindowMonitor =
  last_period_end :: msec_t
  measurements_in_period :: "double list"
  ratio_this_period :: double

definition new_SharedWindowMonitor :: SharedWindowMonitor where
  "new_SharedWindowMonitor = \<lparr>last_period_end = 0, measurements_in_period = [], ratio_this_period = Fin 10\<rparr>"

fun insort_double :: "double \<Rightarrow> double list \<Rightarrow> double list" where
  "insort_double x [] = [x]"
| "insort_double x (y # ys) = (if dlt y x then y # insort_double x ys else x # y # ys)"

definition sort_double :: "double list \<Rightarrow> double list" where
  "sort_double xs = foldr insort_double xs []"

text \<open>\<^verbatim>\<open>TARGET_QUANT * size\<close> is 0.25 times a size_t, truncated: both are exact doubles here.\<close>

definition update_from_mon :: "msec_t \<Rightarrow> double \<Rightarrow> SharedWindowMonitor \<Rightarrow> (double \<times> SharedWindowMonitor) res" where
  "update_from_mon now congest m =
     (let ms = measurements_in_period m @ [congest]
      in if now - last_period_end m \<ge> 3000 then
           bindE (d_to_u64 (dmul (Fin (1/4)) (dof_int (int (length ms))))) (\<lambda>idx.
           bindE (nthE (sort_double ms) (nat idx)) (\<lambda>r.
             Inr (r, m \<lparr>last_period_end := now, ratio_this_period := r, measurements_in_period := []\<rparr>)))
         else Inr (ratio_this_period m, m \<lparr>measurements_in_period := ms\<rparr>))"

definition facade_capacity_ratio ::
  "msec_t \<Rightarrow> WindowCongestionMonitor \<times> SharedWindowMonitor
     \<Rightarrow> (double \<times> (WindowCongestionMonitor \<times> SharedWindowMonitor)) res" where
  "facade_capacity_ratio now = (\<lambda>(w, sh).
     bindE (w_capacity_ratio now w) (\<lambda>(my_ratio, w').
     bindE (update_from_mon now my_ratio sh) (\<lambda>(r, sh'). Inr (r, (w', sh')))))"

section \<open>Counter\<close>

definition counter_update :: "u64 \<Rightarrow> u64 \<Rightarrow> u64" where
  "counter_update i counter = counter + i"

locale capacity_monitor =
  fixes inv :: "'m \<Rightarrow> bool"
    and admissible :: "'env \<Rightarrow> 'm \<Rightarrow> bool"
    and cap :: "'env \<Rightarrow> 'm \<Rightarrow> (double \<times> 'm) res"
  assumes cap_inv: "inv m \<Longrightarrow> admissible en m \<Longrightarrow> cap en m = Inr (r, m') \<Longrightarrow> inv m'"
    and cap_nonneg: "inv m \<Longrightarrow> admissible en m \<Longrightarrow> cap en m = Inr (r, m') \<Longrightarrow> dnonneg r"
begin

lemma cap_zero_or_positive:
  assumes "inv m" and "admissible en m" and "cap en m = Inr (r, m')"
  shows "r = Fin 0 \<or> dlt (Fin 0) r"
  using cap_nonneg [OF assms] by (cases r) auto

end

definition q_inv :: "QueueCongestionMonitor \<Rightarrow> bool" where
  "q_inv m \<longleftrightarrow> dnonneg (mon_ratio m) \<and> dnonneg (downstream_status m) \<and> dlt (Fin 0) (max_per_sec m)"


lemma rate_cap_nonneg:
  assumes "dlt (Fin 0) mx" and "0 \<le> n" and "n < 4294967296"
  shows "dnonneg (ddiv mx (ddiv (dmul (dof_int n) (Fin 1000)) (dof_int SAMPLE_INTERVAL_MS)))"
proof -
  have 1: "dmul (dof_int n) (Fin 1000) = dof_int (n * 1000)"
    using assms(2,3) dof_int_exact [of "n * 1000"] dof_int_exact [of n]
    by (simp add: dof_int_def)
  have 2: "ddiv (dof_int (n * 1000)) (dof_int SAMPLE_INTERVAL_MS) = Fin (of_int (10 * n))"
    using assms(2,3) dof_int_exact [of "10 * n"] dof_int_exact [of "n * 1000"] dof_int_exact [of 100]
    by (simp add: SAMPLE_INTERVAL_MS_def dof_int_def)
  show ?thesis unfolding 1 2 using assms
    by (cases mx) (auto simp: dinf_def intro: mk_double_nonneg)
qed

lemma room_ratio_nonneg:
  assumes "- a \<le> n" and "in_int a" and "0 \<le> n" and "n < 4294967296"
  defines "r \<equiv> dadd (ddiv (dof_int a) (dof_int n)) (Fin 1)"
  shows "dnonneg r \<or> r = NaN"
proof (cases "n = 0")
  case True
  then show ?thesis using assms(1,2) by (auto simp: r_def dof_int32_exact in_int_def INT_MIN_def INT_MAX_def dinf_def)
next
  case False
  have n: "(1::rat) \<le> of_int n" using False assms(3) by simp
  have na: "(- of_int n :: rat) \<le> of_int a" using assms(1) by (metis minus_le_iff of_int_le_iff of_int_minus)
  have lo: "of_int (- 1) \<le> (of_int a / of_int n :: rat)"
    using n na by (simp add: le_divide_eq)
  have "(of_int a :: rat) \<le> of_int 4294967296" using assms(2) by (simp only: of_int_le_iff) (simp add: in_int_def INT_MAX_def)
  also have "\<dots> \<le> of_int 4294967296 * of_int n" using n by simp
  finally have hi: "(of_int a / of_int n :: rat) \<le> of_int 4294967296"
    using n by (simp add: divide_le_eq)
  note fin = mk_double_fin_int [OF lo hi]
  have d: "dof_int a = Fin (of_int a)" "dof_int n = Fin (of_int n)"
    using assms by (auto simp: dof_int32_exact intro!: dof_int_exact)
  have "r = mk_double (rnd (of_int a / of_int n) + 1)"
    using False fin(1) by (simp add: r_def d)
  moreover have "0 \<le> rnd (of_int a / of_int n :: rat) + 1" using fin(2) by simp
  ultimately show ?thesis by (simp add: mk_double_nonneg)
qed

lemma q_sample_nonneg:
  assumes "q_inv m"
  shows "q_sample readQLen ins m \<noteq> Inl LogFatal"
    and "q_sample readQLen ins m = Inr m' \<Longrightarrow> q_inv m'"
proof -
  define a where "a = sint (queueTarget m - readQLen - word_of_int (sint (readQLen - prevQueueLen m)))"
  define r1 where "r1 = (if sint ins < - a then Fin 0 else dadd (ddiv (dof_int a) (dof_u32 ins)) (Fin 1))"
  define X where "X = ddiv (max_per_sec m) (ddiv (dmul (dof_u32 ins) (Fin 1000)) (dof_int SAMPLE_INTERVAL_MS))"
  have u: "0 \<le> uint ins" "uint ins < 4294967296" using uint_lt2p [of ins] by auto
  have ai: "in_int a" using to_int32_range [of "uint (queueTarget m - readQLen - word_of_int (sint (readQLen - prevQueueLen m)))"]
    by (simp add: a_def to_int32_def)
  have r1: "dnonneg r1 \<or> r1 = NaN"
    using room_ratio_nonneg [OF _ ai u] sint_le_uint [of ins] by (auto simp: r1_def)
  have X: "dnonneg X" unfolding X_def using rate_cap_nonneg [OF _ u] assms by (simp add: q_inv_def)
  then have r2: "dnonneg (fmin r1 X)" using r1 by (intro fmin_nonneg) auto
  note eq = q_sample_def [of readQLen ins m, folded a_def, unfolded Let_def, folded a_def X_def]
  show "q_sample readQLen ins m \<noteq> Inl LogFatal"
    using dnonneg_not_neg [OF r2] by (auto simp: eq intE_def r1_def [symmetric])
  show "q_sample readQLen ins m = Inr m' \<Longrightarrow> q_inv m'"
    using r2 assms by (auto simp: eq intE_def r1_def [symmetric] checkE_def q_inv_def split: if_splits)
qed

text \<open>The reset loop without interference.\<close>

lemma q_cas_loop_quiet:
  "q_cas_loop [] ins ins ql m = (ins, ql, m \<lparr>insertsInPeriod := 0\<rparr>)" if "insertsInPeriod m = ins"
  using that by (simp add: q_cas_loop.simps [of "[]"] Let_def)

lemma q_sample_ok:
  assumes "q_sample ql ins m = Inr m'"
  shows "prev_inserts m' = ins" and "prevQueueLen m' = ql" and "insertsInPeriod m' = insertsInPeriod m"
    and "queueLen m' = queueLen m" and "lastQueryTS m' = lastQueryTS m"
    and "mon_removes m' = max 0 (sint (ins - (ql - prevQueueLen m)))"
    and "downstream_status m' = downstream_status m" and "max_per_sec m' = max_per_sec m"
  using assms by (auto simp: q_sample_def Let_def res_simps max_def)

lemma q_capacity_ratio_quiet:
  assumes "lastQueryTS m + 100000 < now"
  shows "q_capacity_ratio now [] m =
    bindE (q_sample (queueLen m) (insertsInPeriod m) (m \<lparr>lastQueryTS := now, insertsInPeriod := 0\<rparr>)) (\<lambda>m'.
      Inr (fmin (mon_ratio m') (downstream_status m'), m'))"
  using assms by (simp add: q_capacity_ratio_def SAMPLE_INTERVAL_MS_def q_cas_loop_quiet)

text \<open>Events between two samples.\<close>

datatype q_event = QInsert u32 | QDelete u32

fun q_event_step :: "q_event \<Rightarrow> QueueCongestionMonitor \<Rightarrow> QueueCongestionMonitor" where
  "q_event_step (QInsert w) m = q_report_insert w m"
| "q_event_step (QDelete w) m = q_report_delete w m"

fun ins_weight :: "q_event \<Rightarrow> u32" where
  "ins_weight (QInsert w) = w"
| "ins_weight (QDelete w) = 0"

fun del_weight :: "q_event \<Rightarrow> u32" where
  "del_weight (QInsert w) = 0"
| "del_weight (QDelete w) = w"

lemma q_events_fields:
  "insertsInPeriod (fold q_event_step evs m) = insertsInPeriod m + sum_list (map ins_weight evs)
   \<and> queueLen (fold q_event_step evs m) = queueLen m + sum_list (map ins_weight evs) - sum_list (map del_weight evs)
   \<and> prevQueueLen (fold q_event_step evs m) = prevQueueLen m
   \<and> lastQueryTS (fold q_event_step evs m) = lastQueryTS m"
proof (induction evs arbitrary: m)
  case (Cons ev evs)
  then show ?case
    by (cases ev) (simp_all add: q_report_insert_def q_report_delete_def insert_adds_def delete_adds_def algebra_simps)
qed simp


lemma wac_loop_conserves:
  "\<exists>k \<le> length env. wac_loop env targ fv fv = (targ + sum_list (take k env), 0)"
proof (induction env arbitrary: targ fv)
  case Nil
  show ?case
    by (simp add: wac_loop.simps [of "[]" targ fv fv] wac_loop.simps [of "[]" targ targ targ] Let_def)
next
  case (Cons w env)
  show ?case
  proof (cases "targ + w = fv")
    case True
    then have "wac_loop (w # env) targ fv fv = (targ + sum_list (take 1 (w # env)), 0)"
      by (simp add: wac_loop.simps [of "w # env"])
    then show ?thesis by (intro exI [of _ 1]) simp
  next
    case False
    then have "wac_loop (w # env) targ fv fv = wac_loop env (targ + w) (targ + w) (targ + w)"
      by (simp add: wac_loop.simps [of "w # env"] Let_def)
    moreover obtain k where "k \<le> length env"
      "wac_loop env (targ + w) (targ + w) (targ + w) = (targ + w + sum_list (take k env), 0)"
      using Cons.IH by blast
    ultimately show ?thesis by (intro exI [of _ "Suc k"]) (simp add: add.assoc)
  qed
qed

lemma write_and_clear_conserves:
  "\<exists>k \<le> length env. write_and_clear env targ = (targ + sum_list (take k env), 0)"
proof (cases env)
  case Nil
  then show ?thesis using wac_loop_conserves [of "[]" targ targ] by (simp add: write_and_clear_def)
next
  case (Cons w ws)
  then obtain k where "k \<le> length ws" "write_and_clear env targ = (targ + w + sum_list (take k ws), 0)"
    using wac_loop_conserves [of ws "targ + w" "targ + w"] by (auto simp: write_and_clear_def)
  then show ?thesis using Cons by (intro exI [of _ "Suc k"]) (simp add: add.assoc)
qed


lemma q_cas_loop_race:
  assumes "insertsInPeriod m = a" and "a \<noteq> 0" and "w \<noteq> 0"
  shows "fst (q_cas_loop [[], insert_adds w] a a ql m) = w"
    and "insertsInPeriod (snd (snd (q_cas_loop [[], insert_adds w] a a ql m))) = 0"
  using assms
  by (auto simp: insert_adds_def q_cas_loop.simps [of "[[], as]" for as] q_cas_loop.simps [of "[as]" for as]
      q_cas_loop.simps [of "[]"] Let_def)

text \<open>
  An insert of weight w that lands between the read of the insert counter and its
  compare-and-swap makes the sample report w alone: the weight a that had been inserted before
  is forgotten, although the counter is reset to zero.
\<close>

theorem queue_monitor_race:
  assumes "lastQueryTS m + 100000 < now" and "insertsInPeriod m = a" and "a \<noteq> 0" and "w \<noteq> 0"
    and "q_capacity_ratio now [[], [], [], insert_adds w] m = Inr (r, m')"
  shows "prev_inserts m' = w \<and> insertsInPeriod m' = 0"
proof -
  let ?m = "m \<lparr>lastQueryTS := now\<rparr>"
  obtain ins ql mm where l: "q_cas_loop [[], insert_adds w] a a (queueLen m) ?m = (ins, ql, mm)"
    by (cases "q_cas_loop [[], insert_adds w] a a (queueLen m) ?m") auto
  have "ins = w" "insertsInPeriod mm = 0"
    using q_cas_loop_race [of ?m a w "queueLen m"] assms l by auto
  moreover obtain ms where s: "q_sample ql ins mm = Inr ms" and "m' = ms"
    using assms l by (auto simp: q_capacity_ratio_def SAMPLE_INTERVAL_MS_def res_simps)
  ultimately show ?thesis using q_sample_ok [OF s] by simp
qed


lemma q_inv_env_step: "q_inv (snd (env_step en k)) = q_inv k"
proof -
  have "q_inv (fold apply_add as k) = q_inv k" for as
  proof (induction as arbitrary: k)
    case (Cons a as)
    then show ?case by (cases a) (auto simp: q_inv_def)
  qed simp
  then show ?thesis by (cases en) auto
qed

lemma q_inv_update [simp]:
  "q_inv (m \<lparr>insertsInPeriod := x\<rparr>) = q_inv m" "q_inv (m \<lparr>lastQueryTS := t\<rparr>) = q_inv m"
  by (simp_all add: q_inv_def)

lemma q_inv_cas_loop: "q_inv (snd (snd (q_cas_loop env newi inserts ql m))) = q_inv m"
proof (induction env newi inserts ql m rule: q_cas_loop.induct)
  case (1 env newi inserts ql m)
  note IH = 1 [OF refl refl refl refl _ refl refl refl]
  show ?case
    using IH by (subst q_cas_loop.simps) (simp add: Let_def q_inv_env_step)
qed

lemma q_capacity_ratio_inv:
  assumes "q_inv m" and "q_capacity_ratio now env m = Inr (r, m')"
  shows "q_inv m' \<and> r = fmin (mon_ratio m') (downstream_status m')"
proof (cases "now > lastQueryTS m + word_of_int (SAMPLE_INTERVAL_MS * 1000)")
  case False
  then show ?thesis using assms by (auto simp: q_capacity_ratio_def)
next
  case True
  obtain e1 m1 where 1: "env_step env (m \<lparr>lastQueryTS := now\<rparr>) = (e1, m1)" by fastforce
  obtain e2 m2 where 2: "env_step e1 m1 = (e2, m2)" by fastforce
  obtain i q m3 where 3: "q_cas_loop e2 (insertsInPeriod m2) (insertsInPeriod m2) (queueLen m1) m2 = (i, q, m3)"
    using prod_cases3 by blast
  have "q_inv m3"
    using assms(1) 1 2 3 q_inv_cas_loop [of e2 _ _ _ m2] q_inv_env_step by (metis q_inv_update(2) snd_conv)
  then show ?thesis
    using assms(2) True 1 2 3 q_sample_nonneg(2) by (auto simp: q_capacity_ratio_def res_simps)
qed

interpretation queue_mon: capacity_monitor q_inv "\<lambda>_ _. True" "\<lambda>(now, env). q_capacity_ratio now env"
proof
  fix m en r m'
  assume "q_inv m" "(\<lambda>(now, env). q_capacity_ratio now env) en m = Inr (r, m')"
  then have i: "q_inv m' \<and> r = fmin (mon_ratio m') (downstream_status m')"
    using q_capacity_ratio_inv by (cases en) auto
  then show "q_inv m'" by simp
  show "dnonneg r" using i by (auto simp: q_inv_def intro: fmin_nonneg)
qed

interpretation uncongested_mon: capacity_monitor "\<lambda>_. True" "\<lambda>_ _. True" uncongested_capacity_ratio
  by unfold_locales (auto simp: uncongested_capacity_ratio_def)

section \<open>chained\<close>

definition cq_inv :: "('d \<Rightarrow> bool) \<Rightarrow> 'd ChainedQueueMonitor \<Rightarrow> bool" where
  "cq_inv dinv m \<longleftrightarrow> q_inv (cq_base m) \<and> (case cq_dest m of None \<Rightarrow> True | Some d \<Rightarrow> dinv d)"

locale chained_monitor = dest: capacity_monitor dinv dadm dcap
  for dinv :: "'d \<Rightarrow> bool" and dadm :: "'env \<Rightarrow> 'd \<Rightarrow> bool" and dcap :: "'env \<Rightarrow> 'd \<Rightarrow> (double \<times> 'd) res" +
  fixes dtime :: "'d \<Rightarrow> msec_t"
begin

lemma chained_inv:
  assumes "cq_inv dinv m" and "\<And>d. cq_dest m = Some d \<Longrightarrow> dadm den d"
    and "chained_capacity_ratio (dcap den) dtime now env m = Inr (r, m')"
  shows "cq_inv dinv m' \<and> dnonneg r"
proof (cases "cq_dest m")
  case None
  then obtain b where "q_capacity_ratio now env (cq_base m) = Inr (r, b)" "m' = m \<lparr>cq_base := b\<rparr>"
    using assms(3) by (auto simp: chained_capacity_ratio_def res_simps)
  then show ?thesis using assms(1) None queue_mon.cap_nonneg [of "cq_base m" "(now, env)"] queue_mon.cap_inv [of "cq_base m" "(now, env)"]
    by (auto simp: cq_inv_def)
next
  case (Some d)
  then obtain down d' b where d: "dcap den d = Inr (down, d')"
    and b: "q_capacity_ratio now env (set_downstream_congestion down (dtime d') (cq_base m)) = Inr (r, b)"
    and m': "m' = m \<lparr>cq_base := b, cq_dest := Some d'\<rparr>"
    using assms(3) by (auto simp: chained_capacity_ratio_def res_simps)
  have "dnonneg down" "dinv d'"
    using dest.cap_nonneg [of d den] dest.cap_inv [of d den] assms(1,2) Some d by (auto simp: cq_inv_def)
  moreover have "q_inv (set_downstream_congestion down (dtime d') (cq_base m))"
    using assms(1) \<open>dnonneg down\<close> by (simp add: cq_inv_def q_inv_def set_downstream_congestion_def)
  ultimately show ?thesis using b m' queue_mon.cap_nonneg [OF _ _ , of _ "(now, env)"] queue_mon.cap_inv [OF _ _, of _ "(now, env)"]
    by (auto simp: cq_inv_def)
qed

end

sublocale chained_monitor \<subseteq> chained: capacity_monitor "cq_inv dinv"
  "\<lambda>(den, now, env) m. \<forall>d. cq_dest m = Some d \<longrightarrow> dadm den d"
  "\<lambda>(den, now, env). chained_capacity_ratio (dcap den) dtime now env"
  by unfold_locales (auto dest: chained_inv)

interpretation queue_chain: chained_monitor q_inv "\<lambda>_ _. True" "\<lambda>(now, env). q_capacity_ratio now env" q_measurement_time
  by unfold_locales

section \<open>Smoothing\<close>

definition s_inv :: "SmoothingQCongestionMonitor \<Rightarrow> bool" where
  "s_inv m \<longleftrightarrow> dnonneg (mon_ratio m) \<and> dnonneg (downstream_status m) \<and> dlt (Fin 0) (max_per_sec m)
     \<and> length (s_inserts m) = WIND_SIZE \<and> length (s_removes m) = WIND_SIZE \<and> length (s_tstamps m) = WIND_SIZE
     \<and> v_idx m < WIND_SIZE \<and> (\<forall>x \<in> set (s_inserts m). 0 \<le> x)"

lemma foldE_sum: "foldE (\<lambda>x acc. intE (acc + x)) xs s = Inr t \<Longrightarrow> in_int s \<Longrightarrow> t = s + sum_list xs \<and> in_int t"
proof (induction xs arbitrary: s)
  case (Cons x xs)
  then have "in_int (s + x)" "foldE (\<lambda>x acc. intE (acc + x)) xs (s + x) = Inr t"
    by (auto simp: res_simps)
  then show ?case using Cons.IH [of "s + x"] by auto
qed simp

lemma s_ratio_not_NaN:
  assumes "in_int ti" and "ti \<noteq> 0" and "\<bar>d\<bar> \<le> 2 ^ 65"
  shows "dadd (Fin 1) (dmul (ddiv (dof_int d) (dof_int ti)) (ddiv (dof_int (int WIND_SIZE)) PROJECT_STEPS)) \<noteq> NaN"
proof -
  have k: "mk_double (3 / 8) = Fin (rnd (3 / 8))"
    by (rule mk_double_fin [of _ 0]) simp_all
  have "(of_int \<bar>d\<bar> :: rat) \<le> of_int (2 ^ 65)" using assms(3) by (simp only: of_int_le_iff)
  then have "\<bar>of_int d :: rat\<bar> \<le> 2 powi 65" by simp
  note d = mk_double_fin [OF this]
  have "1 \<le> \<bar>of_int ti :: rat\<bar>" using assms(2) by (simp add: of_int_abs [symmetric] del: of_int_abs)
  then have "\<bar>rnd (of_int d)\<bar> / \<bar>of_int ti\<bar> \<le> \<bar>rnd (of_int d)\<bar>"
    using mult_left_mono [of 1 "\<bar>of_int ti :: rat\<bar>" "\<bar>rnd (of_int d)\<bar>"] assms(2) by (simp add: divide_le_eq)
  then have "\<bar>rnd (of_int d) / of_int ti\<bar> \<le> 2 powi 65"
    using d(2) by (simp only: abs_divide) linarith
  note q = mk_double_fin [OF this]
  have dd: "dof_int d = Fin (rnd (of_int d))" using d(1) by (simp add: dof_int_def)
  have ww: "ddiv (dof_int (int WIND_SIZE)) PROJECT_STEPS = Fin (rnd (3 / 8))"
    using k by (simp add: WIND_SIZE_def PROJECT_STEPS_def dof_int_exact)
  show ?thesis using q(1) assms(2) by (simp add: dd ww dof_int32_exact [OF assms(1)])
qed

definition s_admissible :: "msec_t \<times> u32 list \<times> u32 list \<Rightarrow> SmoothingQCongestionMonitor \<Rightarrow> bool" where
  "s_admissible en m = (case en of (now, ienv, renv) \<Rightarrow> 0 \<le> sint (fst (write_and_clear ienv (s_insertsInPeriod m))))"

lemma s_capacity_ratio_sample:
  assumes "s_capacity_ratio now ienv renv m = Inr (r, m')"
    and "write_and_clear ienv (s_insertsInPeriod m) = (mi, il)"
    and "write_and_clear renv (s_removesInPeriod m) = (mr, rl)"
    and "v_idx m < length (s_tstamps m)"
    and "now - s_tstamps m ! v_idx m \<ge> SMOOTH_STEP_MS m"
  shows "queueLen m' = queueLen m + mi - mr" and "s_insertsInPeriod m' = il" and "s_removesInPeriod m' = rl"
    and "v_idx m' = (v_idx m + 1) mod WIND_SIZE" and "s_inserts m' = (s_inserts m)[v_idx m' := sint mi]"
    and "s_removes m' = (s_removes m)[v_idx m' := sint mr]" and "s_tstamps m' = (s_tstamps m)[v_idx m' := now]"
    and "max_per_sec m' = max_per_sec m" and "downstream_status m' = downstream_status m"
    and "total_inserts m' = sum_list (s_inserts m')" and "in_int (total_inserts m')"
    and "r = fmin (mon_ratio m') (downstream_status m')"
  using assms by (auto simp: s_capacity_ratio_def Let_def res_simps in_int_def INT_MAX_def INT_MIN_def dest!: foldE_sum)

lemma s_rate_nonneg:
  assumes "dlt (Fin 0) mx" and "0 \<le> ti"
  shows "dnonneg (s_rate_limit mx ti w) \<or> s_rate_limit mx ti w = NaN"
proof -
  have "dnonneg (dmul (dof_int ti) (Fin 1000))"
    using assms(2) by (intro dmul_Fin_nonneg dof_int_nonneg) auto
  then have "dnonneg (ddiv (dmul (dof_int ti) (Fin 1000)) (dof_u64 w))
      \<or> ddiv (dmul (dof_int ti) (Fin 1000)) (dof_u64 w) = NaN"
    by (intro ddiv_nonneg_or_NaN dof_int_nonneg) auto
  then show ?thesis unfolding s_rate_limit_def by (rule ddiv_pos_cases [OF assms(1)])
qed

lemma s_space_ratio_nonneg:
  assumes "in_int ti" and "- 9223372036854775808 \<le> future" and "future \<le> 9223372036854775807"
  shows "dnonneg (s_space_ratio target ti future)"
proof -
  have u: "0 \<le> uint target" "uint target < 4294967296" using uint_lt2p [of target] by simp_all
  have "\<bar>uint target - future\<bar> \<le> 36893488147419103232"
    unfolding abs_le_iff using u assms(2,3) by linarith
  then have "\<bar>uint target - future\<bar> \<le> 2 ^ 65" by simp
  then have "ti \<noteq> 0 \<Longrightarrow> dadd (Fin 1) (dmul (ddiv (dof_int (uint target - future)) (dof_int ti))
                            (ddiv (dof_int (int WIND_SIZE)) PROJECT_STEPS)) \<noteq> NaN"
    using s_ratio_not_NaN assms(1) by blast
  moreover have "x \<noteq> NaN \<Longrightarrow> dnonneg (if dlt x (Fin 0) then Fin 0 else x)" for x by (cases x) auto
  ultimately show ?thesis by (auto simp: s_space_ratio_def Let_def)
qed

lemma s_capacity_ratio_nonneg:
  assumes "s_capacity_ratio now ienv renv m = Inr (r, m')"
    and "write_and_clear ienv (s_insertsInPeriod m) = (mi, il)"
    and "write_and_clear renv (s_removesInPeriod m) = (mr, rl)"
    and "v_idx m < length (s_tstamps m)"
    and "now - s_tstamps m ! v_idx m \<ge> SMOOTH_STEP_MS m"
    and "dlt (Fin 0) (max_per_sec m)"
    and "\<forall>x \<in> set (s_inserts m'). 0 \<le> x"
  shows "dnonneg (mon_ratio m')"
proof -
  obtain ti future w where ti: "foldE (\<lambda>x acc. intE (acc + x)) (s_inserts m') 0 = Inr ti"
    and fut: "- 9223372036854775808 \<le> future" "future \<le> 9223372036854775807"
    and mr: "mon_ratio m' = fmin (s_space_ratio (queueTarget m) ti future) (s_rate_limit (max_per_sec m) ti w)"
    using assms(1-5) by (auto simp: s_capacity_ratio_def Let_def res_simps dest!: dtrunc_range)
  have ti: "ti = sum_list (s_inserts m')" "in_int ti"
    using foldE_sum [OF ti] by (auto simp: in_int_def INT_MAX_def INT_MIN_def)
  have "0 \<le> ti" unfolding ti(1) using assms(7) by (intro sum_list_nonneg) auto
  then show ?thesis unfolding mr using s_rate_nonneg [OF assms(6), of ti w] s_space_ratio_nonneg [OF ti(2) fut, of "queueTarget m"]
    by (intro fmin_nonneg) auto
qed

lemma s_capacity_ratio_inv:
  assumes "s_inv m" and "s_admissible (now, ienv, renv) m" and eq: "s_capacity_ratio now ienv renv m = Inr (r, m')"
  shows "s_inv m' \<and> dnonneg r"
proof (cases "now - s_tstamps m ! v_idx m \<ge> SMOOTH_STEP_MS m")
  case False
  then show ?thesis using assms by (auto simp: s_capacity_ratio_def s_inv_def intro: fmin_nonneg)
next
  case True
  obtain mi il mr rl where w: "write_and_clear ienv (s_insertsInPeriod m) = (mi, il)"
    "write_and_clear renv (s_removesInPeriod m) = (mr, rl)" by fastforce
  have v: "v_idx m < length (s_tstamps m)" using assms(1) by (simp add: s_inv_def)
  note f = s_capacity_ratio_sample [OF eq w v True]
  have mi: "0 \<le> sint mi" using assms(2) w by (simp add: s_admissible_def)
  have nn: "\<forall>x \<in> set (s_inserts m'). 0 \<le> x"
    using assms(1) mi unfolding f(5) s_inv_def by (auto dest: in_set_update)
  have "dnonneg (mon_ratio m')"
    using s_capacity_ratio_nonneg [OF eq w v True _ nn] assms(1) by (simp add: s_inv_def)
  then show ?thesis using f assms(1) nn by (auto simp: s_inv_def WIND_SIZE_def intro: fmin_nonneg)
qed

interpretation smoothing_mon: capacity_monitor s_inv s_admissible
  "\<lambda>(now, ienv, renv). s_capacity_ratio now ienv renv"
  by unfold_locales (auto dest: s_capacity_ratio_inv)

section \<open>Laws of the window monitor\<close>

definition w_inv :: "WindowCongestionMonitor \<Rightarrow> bool" where
  "w_inv m \<longleftrightarrow> dnonneg (downstream_status m) \<and> dlt (Fin 0) (max_per_sec m)
     \<and> dle (Fin 0) (smoothing_factor m) \<and> dle (smoothing_factor m) d0_95
     \<and> dle (Fin 0) (mon_ratio m) \<and> dle (mon_ratio m) (Fin 250)"

lemma dle_Fin_D: "dle (Fin a) x \<Longrightarrow> dle x (Fin b) \<Longrightarrow> \<exists>r. x = Fin r \<and> a \<le> r \<and> r \<le> b"
  by (cases x) (auto simp: dle_def)

lemma dof_u64_pos: assumes "w \<noteq> 0" shows "\<exists>a\<ge>1. dof_u64 w = Fin a"
proof -
  have "uint w \<noteq> 0" using assms by (simp add: uint_0_iff)
  moreover have "0 \<le> uint w" by simp
  ultimately have u: "1 \<le> uint w" "uint w \<le> 2 ^ 64"
    using uint_lt2p [of w] by (linarith, simp)
  have "of_int \<bar>uint w\<bar> \<le> (of_int (2 ^ 64) :: rat)" using u by (simp only: of_int_le_iff abs_of_nonneg)
  then have "\<bar>of_int (uint w) :: rat\<bar> \<le> 2 powi 64" unfolding of_int_abs by simp
  then have "dof_u64 w = Fin (rnd (of_int (uint w)))"
    unfolding dof_int_def by (rule mk_double_fin(1)) auto
  moreover have "of_int 1 \<le> (of_int (uint w) :: rat)" using u(1) by (simp only: of_int_le_iff)
  then have "of_int 1 \<le> rnd (of_int (uint w))" by (rule rnd_ge_int [rotated]) simp
  ultimately show ?thesis by simp
qed

lemma byte_rate_fin:
  assumes "1 \<le> a"
  shows "\<exists>b\<ge>0. ddiv (dmul (dof_u32 n) (Fin 1000)) (Fin a) = Fin b"
proof -
  let ?n = "uint n"
  have n: "0 \<le> ?n" "?n < 4294967296" using uint_lt2p [of n] by simp_all
  have 1: "dmul (dof_u32 n) (Fin 1000) = Fin (of_int (?n * 1000))"
    using n dof_int_exact [of "?n * 1000"] dof_int_exact [of ?n] by (simp add: dof_int_def)
  have "of_int (?n * 1000) \<le> (of_int 4294967296000 :: rat)" using n by (simp only: of_int_le_iff)
  also have "\<dots> \<le> of_int 4294967296000 * a" using assms by simp
  finally have hi: "of_int (?n * 1000) / a \<le> (of_int 4294967296000 :: rat)"
    using assms by (simp add: divide_le_eq)
  have "(0::rat) \<le> of_int (?n * 1000)" using n by (simp only: of_int_0_le_iff)
  then have lo: "of_int 0 \<le> of_int (?n * 1000) / a" using assms by simp
  note f = mk_double_fin_int [OF lo hi]
  show ?thesis unfolding 1 using f(1,2) assms by auto
qed

lemma unsmoothed_ratio_range:
  assumes "dlt (Fin 0) (max_per_sec m)" and "0 \<le> window_ms" and "in_int window_ms"
  shows "\<exists>u. unsmoothed_ratio now window_ms start m = Fin u \<and> 0 \<le> u \<and> u \<le> 10"
proof (cases "start = 0 \<or> now - start = 0 \<or> now - last_window_end m = 0")
  case True
  then show ?thesis by (auto simp: unsmoothed_ratio_def)
next
  case False
  obtain p a where p: "1 \<le> p" "dof_u64 (now - start) = Fin p" and a: "1 \<le> a" "dof_u64 (now - last_window_end m) = Fin a"
    using dof_u64_pos [of "now - start"] dof_u64_pos [of "now - last_window_end m"] False by auto
  obtain b where b: "0 \<le> b" "ddiv (dmul (dof_u32 (bytes_in_window m)) (Fin 1000)) (Fin a) = Fin b"
    using byte_rate_fin [OF a(1)] by blast
  define wr where "wr = ddiv (dof_int window_ms) (Fin p)"
  define X where "X = ddiv (max_per_sec m) (Fin b)"
  have "dnonneg wr" unfolding wr_def using assms p(1) by (intro ddiv_nonneg dof_int_nonneg) auto
  moreover have "dnonneg X" unfolding X_def using assms(1) b(1)
    by (cases "max_per_sec m") (auto simp: dinf_def intro: mk_double_nonneg)
  ultimately have r: "dnonneg (std_min wr X)" by (simp add: std_min_def)
  have "unsmoothed_ratio now window_ms start m = (if dlt (Fin 10) (std_min wr X) then Fin 10 else std_min wr X)"
    using False by (simp add: unsmoothed_ratio_def wr_def X_def p(2) a(2) b(2))
  then show ?thesis using r by (cases "std_min wr X") auto
qed

lemma w_end_of_window_inv:
  assumes "w_inv m" and "0 \<le> window_ms" and "in_int window_ms"
  shows "w_inv (w_end_of_window now window_ms start m)"
proof -
  obtain s where s: "smoothing_factor m = Fin s" "0 \<le> s" "s \<le> 96/100"
    using assms(1) dle_Fin_D [of 0 "smoothing_factor m" "4278419646001971/4503599627370496"]
    by (auto simp: w_inv_def d0_95_val)
  obtain r where r: "mon_ratio m = Fin r" "0 \<le> r" "r \<le> 250"
    using assms(1) dle_Fin_D [of 0 "mon_ratio m" 250] by (auto simp: w_inv_def)
  obtain u where u: "unsmoothed_ratio now window_ms start m = Fin u" "0 \<le> u" "u \<le> 10"
    using unsmoothed_ratio_range [of m window_ms now start] assms by (auto simp: w_inv_def)
  note fin = mk_double_fin_int
  have c: "mk_double (1 - s) = Fin (rnd (1 - s))" "0 \<le> rnd (1 - s)" "rnd (1 - s) \<le> 1"
    using fin [of 0 "1 - s" 1] s(2,3) by auto
  have "rnd (1 - s) * u \<le> 1 * 10" using c u by (intro mult_mono) auto
  then have p: "mk_double (rnd (1 - s) * u) = Fin (rnd (rnd (1 - s) * u))"
      "0 \<le> rnd (rnd (1 - s) * u)" "rnd (rnd (1 - s) * u) \<le> 10"
    using fin [of 0 "rnd (1 - s) * u" 10] c u by auto
  have "s * r \<le> 96/100 * 250" using s r by (intro mult_mono) auto
  then have q: "mk_double (s * r) = Fin (rnd (s * r))" "0 \<le> rnd (s * r)" "rnd (s * r) \<le> 240"
    using fin [of 0 "s * r" 240] s r by auto
  have t: "mk_double (rnd (rnd (1 - s) * u) + rnd (s * r)) = Fin (rnd (rnd (rnd (1 - s) * u) + rnd (s * r)))"
      "0 \<le> rnd (rnd (rnd (1 - s) * u) + rnd (s * r))" "rnd (rnd (rnd (1 - s) * u) + rnd (s * r)) \<le> 250"
    using fin [of 0 "rnd (rnd (1 - s) * u) + rnd (s * r)" 250] p q by auto
  show ?thesis
    using assms(1) t by (auto simp: w_inv_def w_end_of_window_def s(1) r(1) u(1) dsub_def c(1) p(1) q(1))
qed

lemma w_new_inv:
  "dle (Fin 0) s \<Longrightarrow> new_WindowCongestionMonitor now s = Inr m \<Longrightarrow> w_inv m"
  by (cases s) (auto simp: new_WindowCongestionMonitor_def w_inv_def res_simps dle_def d0_95_val split: if_splits)

interpretation window_mon: capacity_monitor w_inv "\<lambda>_ _. True" w_capacity_ratio
proof
  fix m en r m'
  assume *: "w_inv m" "w_capacity_ratio en m = Inr (r, m')"
  then show "w_inv m'" by (simp add: w_capacity_ratio_def)
  have "dnonneg (mon_ratio m)" using *(1) dle_Fin_D [of 0 "mon_ratio m" 250] by (auto simp: w_inv_def)
  then show "dnonneg r" using * by (auto simp: w_capacity_ratio_def w_inv_def intro!: fmin_nonneg)
qed

section \<open>Laws of the shared window monitor\<close>

lemma insort_double_mset: "mset (insort_double x xs) = add_mset x (mset xs)"
  by (induction xs) auto

lemma sort_double_mset: "mset (sort_double xs) = mset xs"
  by (induction xs) (auto simp: sort_double_def insort_double_mset)

lemma sort_double_set [simp]: "set (sort_double xs) = set xs"
  using sort_double_mset by (metis set_mset_mset)

lemma sort_double_length [simp]: "length (sort_double xs) = length xs"
  using sort_double_mset by (metis size_mset)

lemma insort_double_sorted:
  "sorted_wrt (\<lambda>a b. \<not> dlt b a) xs \<Longrightarrow> NaN \<notin> set xs \<Longrightarrow> x \<noteq> NaN
   \<Longrightarrow> sorted_wrt (\<lambda>a b. \<not> dlt b a) (insort_double x xs)"
proof (induction xs)
  case (Cons y ys)
  have set_eq: "set (insort_double x ys) = insert x (set ys)"
    using insort_double_mset by (metis set_mset_add_mset_insert set_mset_mset)
  have tr: "\<not> dlt y x \<Longrightarrow> \<not> dlt z y \<Longrightarrow> y \<noteq> NaN \<Longrightarrow> \<not> dlt z x" for z
    by (cases x; cases y; cases z) auto
  have as: "dlt y x \<Longrightarrow> \<not> dlt x y" using dlt_trans [of x y x] by auto
  show ?case using Cons tr as set_eq by auto
qed simp

lemma sort_double_sorted: "NaN \<notin> set xs \<Longrightarrow> sorted_wrt (\<lambda>a b. \<not> dlt b a) (sort_double xs)"
proof (induction xs)
  case (Cons x xs)
  then have "sorted_wrt (\<lambda>a b. \<not> dlt b a) (sort_double xs)" "NaN \<notin> set (sort_double xs)" by auto
  then show ?case using Cons.prems insort_double_sorted by (auto simp: sort_double_def)
qed (simp add: sort_double_def)

lemma quarter_index:
  assumes "0 < n" and "n \<le> 2 ^ 53"
  shows "\<exists>i. d_to_u64 (dmul (Fin (1/4)) (dof_int (int n))) = Inr (int i) \<and> i < n"
proof -
  have nn: "dof_int (int n) = Fin (of_nat n)" using assms(2) dof_int_exact [of "int n"]
    by (simp add: numeral_power_le_of_nat_cancel_iff [symmetric] del: of_nat_power)
  define q where "q = rnd (of_nat n / 4)"
  have hi: "q < of_nat n \<and> q \<le> of_nat n"
  proof (cases "n = 1")
    case True
    have "rnd (2 powi (- 2)) = 2 powi (- 2)" by (rule rnd_powi) simp
    moreover have "(2::rat) powi (- 2) = 1 / 4" by (simp add: power_int_def power2_eq_square)
    ultimately show ?thesis using True by (simp add: q_def)
  next
    case False
    then have "2 \<le> n" using assms(1) by simp
    then have "(of_nat n / 4 :: rat) \<le> of_int (int n - 1)" by (simp add: field_simps)
    then have "q \<le> of_int (int n - 1)" unfolding q_def using assms(2) by (intro rnd_le_int) auto
    then show ?thesis by simp
  qed
  have lo: "0 \<le> q" unfolding q_def by (intro rnd_nonneg) simp
  have "(of_nat n :: rat) \<le> of_nat (2 ^ 53)" using assms(2) by (simp only: of_nat_le_iff)
  then have "\<bar>of_nat n / 4 :: rat\<bar> \<le> 2 powi 53" by simp
  then have m: "mk_double (of_nat n / 4) = Fin q" unfolding q_def by (rule mk_double_fin(1)) auto
  have "\<lfloor>q\<rfloor> < int n" using hi by (simp add: floor_less_iff)
  moreover have "q < 18446744073709551616"
    using hi \<open>(of_nat n :: rat) \<le> of_nat (2 ^ 53)\<close> by simp
  ultimately have "d_to_u64 (dmul (Fin (1/4)) (dof_int (int n))) = Inr \<lfloor>q\<rfloor>"
    using lo m by (simp add: nn Let_def)
  moreover have "0 \<le> \<lfloor>q\<rfloor>" using lo by simp
  ultimately show ?thesis using \<open>\<lfloor>q\<rfloor> < int n\<close>
    by (intro exI [of _ "nat \<lfloor>q\<rfloor>"]) (simp add: nat_less_iff)
qed

lemma update_from_mon_total:
  assumes "length (measurements_in_period m) < 2 ^ 53"
  shows "\<exists>r m'. update_from_mon now c m = Inr (r, m')
     \<and> r \<in> {ratio_this_period m, c} \<union> set (measurements_in_period m) \<and> r = ratio_this_period m'
     \<and> set (measurements_in_period m') \<subseteq> insert c (set (measurements_in_period m))"
proof (cases "now - last_period_end m \<ge> 3000")
  case True
  let ?ms = "measurements_in_period m @ [c]"
  obtain i where i: "d_to_u64 (dmul (Fin (1/4)) (dof_int (int (length ?ms)))) = Inr (int i)" "i < length ?ms"
    using quarter_index [of "length ?ms"] assms by auto
  then have "sort_double ?ms ! i \<in> set (sort_double ?ms)" by (intro nth_mem) simp
  then have mem: "sort_double ?ms ! i \<in> insert c (set (measurements_in_period m))" by simp
  have "update_from_mon now c m = Inr (sort_double ?ms ! i, m \<lparr>last_period_end := now,
      ratio_this_period := sort_double ?ms ! i, measurements_in_period := []\<rparr>)"
    using True i by (simp add: update_from_mon_def Let_def)
  then show ?thesis using mem by simp
next
  case False
  then show ?thesis by (auto simp: update_from_mon_def)
qed

definition facade_inv :: "WindowCongestionMonitor \<times> SharedWindowMonitor \<Rightarrow> bool" where
  "facade_inv = (\<lambda>(w, sh). w_inv w \<and> dnonneg (ratio_this_period sh)
     \<and> (\<forall>x \<in> set (measurements_in_period sh). dnonneg x))"

interpretation facade_mon: capacity_monitor facade_inv
  "\<lambda>_ p. length (measurements_in_period (snd p)) < 2 ^ 53" facade_capacity_ratio
proof
  fix p en r p'
  assume inv: "facade_inv p" and len: "length (measurements_in_period (snd p)) < 2 ^ 53"
    and eq: "facade_capacity_ratio en p = Inr (r, p')"
  obtain w sh where p: "p = (w, sh)" by (cases p)
  obtain c w' sh' where w: "w_capacity_ratio en w = Inr (c, w')" and u: "update_from_mon en c sh = Inr (r, sh')"
    and p': "p' = (w', sh')"
    using eq p by (auto simp: facade_capacity_ratio_def res_simps)
  have "w_inv w'" "dnonneg c"
    using window_mon.cap_inv [OF _ _ w] window_mon.cap_nonneg [OF _ _ w] inv p by (auto simp: facade_inv_def)
  moreover have "r \<in> {ratio_this_period sh, c} \<union> set (measurements_in_period sh)" "r = ratio_this_period sh'"
    "set (measurements_in_period sh') \<subseteq> insert c (set (measurements_in_period sh))"
    using update_from_mon_total [of sh en c] len p u by auto
  ultimately show "facade_inv p'" "dnonneg r" using inv p p' by (auto simp: facade_inv_def)
qed

section \<open>Runs of a window monitor\<close>

inductive w_reachable :: "WindowCongestionMonitor \<Rightarrow> bool" where
  w_new: "new_WindowCongestionMonitor now f = Inr m \<Longrightarrow> dle (Fin 0) f \<Longrightarrow> w_reachable m"
| w_insert: "w_reachable m \<Longrightarrow> w_reachable (w_report_insert now weight m)"
| w_end: "w_reachable m \<Longrightarrow> 0 \<le> window_ms \<Longrightarrow> in_int window_ms \<Longrightarrow>
    w_reachable (w_end_of_window now window_ms start m)"
| w_start: "w_reachable m \<Longrightarrow> w_reachable (w_new_window_start m)"
| w_downstream: "w_reachable m \<Longrightarrow> dnonneg d \<Longrightarrow> w_reachable (set_downstream_congestion d tm m)"
| w_rate: "w_reachable m \<Longrightarrow> dlt (Fin 0) r \<Longrightarrow> w_reachable (set_max_rate r m)"

lemma w_reachable_inv: "w_reachable m \<Longrightarrow> w_inv m"
proof (induction rule: w_reachable.induct)
  case (w_new now f m)
  then have "dle f d0_95"
    by (cases f) (auto simp: new_WindowCongestionMonitor_def res_simps d0_95_val dle_def)
  moreover have "dle (Fin 0) (Fin 10)" "dle (Fin 10) (Fin 250)" by (simp_all add: dle_def)
  ultimately show ?case using w_new by (auto simp: new_WindowCongestionMonitor_def res_simps w_inv_def)
next
  case (w_end m window_ms now start)
  then show ?case by (intro w_end_of_window_inv)
qed (auto simp: w_inv_def w_report_insert_def w_new_window_start_def set_downstream_congestion_def
    set_max_rate_def Let_def)

text \<open>
  Property C21: whatever sequence of operations a window monitor has been through (data, windows
  of any non-negative length, reports from downstream, rate limits), its smoothed ratio lies
  between 0 and 250 and the capacity ratio it answers is not negative.
\<close>

theorem window_ratio_bounded:
  assumes "w_reachable m"
  shows "dle (Fin 0) (mon_ratio m) \<and> dle (mon_ratio m) (Fin 250)
     \<and> (\<exists>r. w_capacity_ratio now m = Inr (r, m) \<and> dnonneg r)"
  using w_reachable_inv [OF assms] window_mon.cap_nonneg [of m now]
  by (simp add: w_inv_def w_capacity_ratio_def)

definition window_run :: WindowCongestionMonitor where
  "window_run = w_end_of_window 2000 1000 500 (w_report_insert 500 70
     (the_ok (new_WindowCongestionMonitor 100 (Fin (1/2)))))"

theorem window_ratio_bounded_witness:
  "dle (Fin 0) (mon_ratio window_run) \<and> dle (mon_ratio window_run) (Fin 250)
     \<and> (\<exists>r. w_capacity_ratio 9 window_run = Inr (r, window_run) \<and> dnonneg r)"
proof (rule window_ratio_bounded)
  obtain m where m: "new_WindowCongestionMonitor 100 (Fin (1/2)) = Inr m"
    by (simp add: new_WindowCongestionMonitor_def d0_95_val)
  have "w_reachable m" by (rule w_new [OF m]) (simp add: dle_def)
  then show "w_reachable window_run" unfolding window_run_def m
    by (auto simp: in_int_def INT_MAX_def INT_MIN_def the_ok_def intro!: w_end w_insert)
qed

definition idle_queue :: QueueCongestionMonitor where
  "idle_queue = new_QueueCongestionMonitor 10 0 0"

definition queue_events :: "q_event list" where
  "queue_events = [QInsert 3, QInsert 4, QDelete 5]"


theorem queue_monitor_race_witness:
  "\<exists>r m'. q_capacity_ratio 200000 [[], [], [], insert_adds 4] (q_report_insert 3 idle_queue) = Inr (r, m')
     \<and> prev_inserts m' = 4 \<and> insertsInPeriod m' = 0"
proof -
  have "is_ok (q_capacity_ratio 200000 [[], [], [], insert_adds 4] (q_report_insert 3 idle_queue))" by code_simp
  then obtain r m' where
    "q_capacity_ratio 200000 [[], [], [], insert_adds 4] (q_report_insert 3 idle_queue) = Inr (r, m')"
    by (auto simp: is_ok_iff)
  then show ?thesis
    using queue_monitor_race [of "q_report_insert 3 idle_queue" 200000 3 4 r m']
    by (auto simp: idle_queue_def new_QueueCongestionMonitor_def q_report_insert_def insert_adds_def)
qed

end
