(* ===== verification/JS_Policy.thy ===== *)
theory JS_Policy
  imports JS_Monitors
begin

text \<open>
  The congestion policy of an operator chain (\<^verbatim>\<open>dataplane/congest_policy.h\<close>,
  \<^verbatim>\<open>dataplane/congest_policy.cc\<close>): which degradation level each operator of the
  chain may move to.  The congestion monitor the policy consults is a
  parameter, used through the contract \<^verbatim>\<open>capacity_monitor\<close>; the locale
  \<^verbatim>\<open>policy_client\<close> adds what the policy guarantees on top of it, and is
  interpreted on the monitors of the program.  The array of levels is a list
  and an access outside it is an error value.
\<close>

section \<open>State\<close>

record OperatorState =
  st_op :: operator_id_t
  availStepsDown :: int
  availStepsUp :: int
  last_state_change :: msec_t
  last_check :: msec_t

definition new_OperatorState :: "operator_id_t \<Rightarrow> OperatorState" where
  "new_OperatorState i = \<lparr>st_op = i, availStepsDown = 0, availStepsUp = 0,
     last_state_change = 0, last_check = 1\<rparr>"

record 'm CongestionPolicy =
  statuses :: "OperatorState list"
  congest :: "'m option"

definition new_CongestionPolicy :: "'m CongestionPolicy" where
  "new_CongestionPolicy = \<lparr>statuses = [], congest = None\<rparr>"

definition add_operator :: "operator_id_t \<Rightarrow> 'm CongestionPolicy \<Rightarrow> 'm CongestionPolicy" where
  "add_operator i p = p \<lparr>statuses := statuses p @ [new_OperatorState i]\<rparr>"

definition set_congest_monitor :: "'m option \<Rightarrow> 'm CongestionPolicy \<Rightarrow> 'm CongestionPolicy" where
  "set_congest_monitor c p = p \<lparr>congest := c\<rparr>"

definition get_monitor :: "'m CongestionPolicy \<Rightarrow> 'm option" where
  "get_monitor p = congest p"

section \<open>Choosing a level\<close>

definition MIN_MS_BETWEEN_ACTIONS :: msec_t where "MIN_MS_BETWEEN_ACTIONS = 1000"

definition recent_change :: "msec_t \<Rightarrow> OperatorState \<Rightarrow> bool" where
  "recent_change measurement_time st \<longleftrightarrow>
     last_state_change st + MIN_MS_BETWEEN_ACTIONS > measurement_time"

text \<open>
  The forward scan: None is the early \<^verbatim>\<open>return 0\<close>, otherwise the position where the
  loop stops (the number of entries when the operator is not listed).
\<close>

fun scan_statuses ::
  "operator_id_t \<Rightarrow> msec_t \<Rightarrow> double \<Rightarrow> OperatorState list \<Rightarrow> nat \<Rightarrow> nat option" where
  "scan_statuses oper mt lvl [] pos = Some pos"
| "scan_statuses oper mt lvl (st # sts) pos =
     (if recent_change mt st \<and> dlt (Fin 0) lvl then None
      else if st_op st = oper then Some pos
      else if dlt lvl (Fin 1) \<and> availStepsDown st > 0 then None
      else scan_statuses oper mt lvl sts (Suc pos))"

text \<open>The backward scan over the operators after the chosen one, before an upgrade.\<close>

fun back_scan_blocks :: "msec_t \<Rightarrow> OperatorState list \<Rightarrow> bool" where
  "back_scan_blocks mt [] = False"
| "back_scan_blocks mt (st # sts) =
     (if availStepsUp st > 0 then True
      else if recent_change mt st then True else back_scan_blocks mt sts)"

text \<open>The loop that looks for the highest level the capacity allows.\<close>

fun degrade_loop :: "double \<Rightarrow> double list \<Rightarrow> nat \<Rightarrow> nat \<Rightarrow> nat res" where
  "degrade_loop lvl levels cur targ =
     bindE (nthE levels targ) (\<lambda>lt. bindE (nthE levels cur) (\<lambda>lc.
       if dlt (dmul (ddiv lvl lt) lc) d0_95 \<and> targ > 0
       then degrade_loop lvl levels cur (targ - 1) else Inr targ))"

function upgrade_loop :: "double \<Rightarrow> double list \<Rightarrow> nat \<Rightarrow> nat \<Rightarrow> nat \<Rightarrow> nat res" where
  "upgrade_loop capacity levels levelsLen cur step =
     bindE (nthE levels step) (\<lambda>ls. bindE (nthE levels cur) (\<lambda>lc.
       if dlt (ddiv ls lc) capacity \<and> step < levelsLen
       then upgrade_loop capacity levels levelsLen cur (step + 1) else Inr step))"
  by pat_completeness auto

termination
  by (relation "measure (\<lambda>(capacity, levels, levelsLen, cur, step). levelsLen - step)") auto

declare degrade_loop.simps [simp del] upgrade_loop.simps [simp del]

definition should_upgrade :: "double \<Rightarrow> double list \<Rightarrow> u32 \<Rightarrow> u32 \<Rightarrow> u32 res" where
  "should_upgrade capacity levels levelsLen curLevel =
     (if curLevel \<ge> levelsLen - 1 then Inr curLevel
      else if curLevel = 0 \<and> dlt (Fin 0) capacity then Inr 1
      else bindE (upgrade_loop capacity levels (unat levelsLen) (unat curLevel) (unat curLevel))
        (\<lambda>max_supported_step. Inr ((of_nat max_supported_step + curLevel + 1) div 2)))"

text \<open>The level the policy aims at, as the C++ int \<^verbatim>\<open>targ_step\<close>.\<close>

definition target_step :: "double \<Rightarrow> double list \<Rightarrow> u32 \<Rightarrow> u32 \<Rightarrow> int res" where
  "target_step lvl levels levelsLen curLevel =
     (if dlt lvl d0_95 then
        bindE (degrade_loop lvl levels (unat curLevel) (unat curLevel)) (\<lambda>t. Inr (int t))
      else if dlt d1_1 lvl then
        bindE (should_upgrade lvl levels levelsLen curLevel) (\<lambda>t. Inr (sint t))
      else Inr (sint curLevel))"

text \<open>
  The operation.  \<^verbatim>\<open>chain_mon\<close> is what locking the weak pointer to the chain gives:
  None when the chain is gone, otherwise the chain's congestion monitor, if any.
\<close>

definition get_step ::
  "msec_t \<Rightarrow> ('m \<Rightarrow> msec_t) \<Rightarrow> ('m \<Rightarrow> (double \<times> 'm) res) \<Rightarrow> 'm option option \<Rightarrow>
   operator_id_t \<Rightarrow> double list \<Rightarrow> u32 \<Rightarrow> u32 \<Rightarrow> 'm CongestionPolicy \<Rightarrow> (int \<times> 'm CongestionPolicy) res" where
  "get_step now mtime cap chain_mon oper levels levelsLen curLevel p0 =
     (let p = (if congest p0 = None then
                 (case chain_mon of None \<Rightarrow> p0 | Some cm \<Rightarrow> p0 \<lparr>congest := cm\<rparr>) else p0)
      in case congest p of
           None \<Rightarrow> Inr (0, p)
         | Some mon \<Rightarrow>
             if statuses p = [] then Inr (0, p)
             else let mt = mtime mon in
               bindE (cap mon) (\<lambda>(lvl, mon').
               let p1 = p \<lparr>congest := Some mon'\<rparr>; sts = statuses p in
               case scan_statuses oper mt lvl sts 0 of
                 None \<Rightarrow> Inr (0, p1)
               | Some pos \<Rightarrow>
                   if pos \<ge> length sts then Inl LogFatal
                   else if dlt (Fin 1) lvl \<and> back_scan_blocks mt (rev (drop (Suc pos) sts)) then Inr (0, p1)
                   else
                     let st = sts ! pos;
                         check_since_action = (last_check st > last_state_change st);
                         st1 = st \<lparr>last_check := mt\<rparr>;
                         p2 = p1 \<lparr>statuses := sts[pos := st1]\<rparr>
                     in if \<not> check_since_action then Inr (0, p2)
                        else bindE (target_step lvl levels levelsLen curLevel) (\<lambda>targ.
                          let delta = to_int32 (targ - uint curLevel);
                              st2 = (if delta \<noteq> 0 then st1 \<lparr>last_state_change := now\<rparr> else st1);
                              st3 = st2 \<lparr>availStepsDown := targ,
                                 availStepsUp := to_int32 (uint levelsLen - targ - 1)\<rparr>
                          in bindE (if delta = 0 then Inr (Fin 0)
                                    else if targ < 0 then Inl OutOfBounds else nthE levels (nat targ)) (\<lambda>_.
                             Inr (delta, p1 \<lparr>statuses := sts[pos := st3]\<rparr>)))))"

section \<open>Laws of the scans\<close>

lemma scan_statuses_Some:
  "scan_statuses oper mt lvl sts k = Some pos \<Longrightarrow> pos < k + length sts \<Longrightarrow>
     k \<le> pos \<and> st_op (sts ! (pos - k)) = oper
     \<and> (\<forall>i \<le> pos - k. \<not> (recent_change mt (sts ! i) \<and> dlt (Fin 0) lvl))
     \<and> (\<forall>i < pos - k. st_op (sts ! i) \<noteq> oper \<and> \<not> (dlt lvl (Fin 1) \<and> availStepsDown (sts ! i) > 0))"
proof (induction sts arbitrary: k)
  case (Cons st sts)
  show ?case
  proof (cases "st_op st = oper")
    case True
    then show ?thesis using Cons.prems by (auto split: if_splits)
  next
    case False
    then have s: "scan_statuses oper mt lvl sts (Suc k) = Some pos"
      and n: "\<not> (recent_change mt st \<and> dlt (Fin 0) lvl)" "\<not> (dlt lvl (Fin 1) \<and> availStepsDown st > 0)"
      using Cons.prems by (auto split: if_splits)
    note IH = Cons.IH [OF s]
    have k: "Suc k \<le> pos" "st_op (sts ! (pos - Suc k)) = oper" using IH Cons.prems(2) by auto
    then obtain j where j: "pos - k = Suc j" "pos - Suc k = j" by (metis Suc_diff_Suc Suc_le_lessD)
    show ?thesis using IH Cons.prems(2) k n False j by (auto simp: nth_Cons split: nat.splits)
  qed
qed simp

lemma scan_statuses_blocked:
  "pos < length sts \<Longrightarrow> recent_change mt (sts ! pos) \<Longrightarrow> dlt (Fin 0) lvl \<Longrightarrow>
     \<forall>i < pos. st_op (sts ! i) \<noteq> oper \<Longrightarrow> scan_statuses oper mt lvl sts k = None"
proof (induction sts arbitrary: pos k)
  case (Cons st sts)
  show ?case
  proof (cases pos)
    case 0
    then show ?thesis using Cons.prems by simp
  next
    case (Suc j)
    then have "scan_statuses oper mt lvl sts (Suc k) = None"
      using Cons.prems by (intro Cons.IH [of j]) auto
    then show ?thesis using Cons.prems Suc by auto
  qed
qed simp

lemma scan_statuses_pos_le: "scan_statuses oper mt lvl sts k = Some pos \<Longrightarrow> pos \<le> k + length sts"
  by (induction sts arbitrary: k) (fastforce split: if_splits)+

lemma scan_statuses_found:
  "scan_statuses oper mt lvl sts k = Some pos \<Longrightarrow> oper \<in> st_op ` set sts \<Longrightarrow> pos < k + length sts"
  by (induction sts arbitrary: k) (fastforce split: if_splits)+

lemma back_scan_blocks_iff:
  "back_scan_blocks mt sts \<longleftrightarrow> (\<exists>st \<in> set sts. availStepsUp st > 0 \<or> recent_change mt st)"
  by (induction sts) auto

section \<open>Laws of the level search\<close>

lemma degrade_loop_le: "degrade_loop lvl levels cur targ = Inr t \<Longrightarrow> t \<le> targ"
proof (induction lvl levels cur targ arbitrary: t rule: degrade_loop.induct)
  case (1 lvl levels cur targ)
  then show ?case
    by (subst (asm) (2) degrade_loop.simps) (fastforce simp: res_simps split: if_splits)
qed

lemma degrade_loop_total:
  "targ < length levels \<Longrightarrow> cur < length levels \<Longrightarrow> \<exists>t \<le> targ. degrade_loop lvl levels cur targ = Inr t"
proof (induction targ)
  case 0
  then show ?case by (simp add: degrade_loop.simps)
next
  case (Suc n)
  then obtain t where "t \<le> n" "degrade_loop lvl levels cur n = Inr t" by auto
  then show ?case using Suc.prems by (auto simp: degrade_loop.simps [of _ _ _ "Suc n"])
qed

text \<open>The level found satisfies the capacity condition unless it is the lowest one.\<close>

lemma degrade_loop_fits:
  "degrade_loop lvl levels cur targ = Inr t \<Longrightarrow>
     t = 0 \<or> \<not> dlt (dmul (ddiv lvl (levels ! t)) (levels ! cur)) d0_95"
proof (induction lvl levels cur targ arbitrary: t rule: degrade_loop.induct)
  case (1 lvl levels cur targ)
  then show ?case
    by (subst (asm) (2) degrade_loop.simps) (fastforce simp: res_simps split: if_splits)
qed

lemma degrade_loop_highest:
  "degrade_loop lvl levels cur targ = Inr t \<Longrightarrow> t < u \<Longrightarrow> u \<le> targ \<Longrightarrow>
     dlt (dmul (ddiv lvl (levels ! u)) (levels ! cur)) d0_95"
proof (induction lvl levels cur targ arbitrary: t rule: degrade_loop.induct)
  case (1 lvl levels cur targ)
  show ?case
  proof (cases "u = targ")
    case True
    then show ?thesis using 1(2,3)
      by (subst (asm) degrade_loop.simps) (auto simp: res_simps split: if_splits)
  next
    case False
    then show ?thesis using 1
      by (subst (asm) (2) degrade_loop.simps) (fastforce simp: res_simps split: if_splits)
  qed
qed

lemma upgrade_loop_range:
  "upgrade_loop c levels len cur step = Inr t \<Longrightarrow> step \<le> len \<Longrightarrow> step \<le> t \<and> t \<le> len"
proof (induction c levels len cur step arbitrary: t rule: upgrade_loop.induct)
  case (1 c levels len cur step)
  then show ?case
    by (subst (asm) (2) upgrade_loop.simps) (fastforce simp: res_simps split: if_splits)
qed

lemma upgrade_loop_total:
  "step \<le> len \<Longrightarrow> len < length levels \<Longrightarrow> cur < length levels \<Longrightarrow>
     \<exists>t. upgrade_loop c levels len cur step = Inr t"
proof (induction c levels len cur step rule: upgrade_loop.induct)
  case (1 c levels len cur step)
  then show ?case by (subst upgrade_loop.simps) auto
qed

lemma upgrade_loop_overrun:
  assumes "len \<le> length levels" and "length levels \<le> len" and "cur < len" and "step \<le> len"
    and "\<forall>i. step \<le> i \<longrightarrow> i < len \<longrightarrow> dlt (ddiv (levels ! i) (levels ! cur)) c"
  shows "upgrade_loop c levels len cur step = Inl OutOfBounds"
  using assms
proof (induction c levels len cur step rule: upgrade_loop.induct)
  case (1 c levels len cur step)
  show ?case
  proof (cases "step = len")
    case True
    then show ?thesis using 1 by (subst upgrade_loop.simps) simp
  next
    case False
    then show ?thesis using 1 by (subst upgrade_loop.simps) auto
  qed
qed

lemma word_step_facts:
  fixes cur len :: u32
  assumes "cur < len" and "unat len \<le> 1073741824"
  shows "unat (len - 1) = unat len - 1" and "sint cur = int (unat cur)" and "unat cur < unat len"
proof -
  have "1 \<le> unat len" using assms(1) by (metis One_nat_def Suc_leI unat_gt_0 word_not_simps(1) word_neq_0_conv)
  then show "unat (len - 1) = unat len - 1"
    by (metis unat_1 unat_sub word_le_nat_alt)
  show c: "unat cur < unat len" using assms(1) by (simp add: word_less_nat_alt)
  then show "sint cur = int (unat cur)" using assms(2) by (intro sint_small32) simp
qed

lemma half_range:
  fixes c l s :: nat
  assumes "c \<le> s" and "s \<le> l" and "c < l - 1"
  shows "c \<le> (s + c + 1) div 2 \<and> (s + c + 1) div 2 < l"
  using assms by presburger

lemma should_upgrade_range:
  fixes cur len :: u32
  assumes "cur < len" and "unat len \<le> 1073741824" and "should_upgrade c levels len cur = Inr t"
  shows "unat cur \<le> unat t \<and> unat t < unat len"
proof -
  note w = word_step_facts [OF assms(1,2)]
  consider "cur \<ge> len - 1" | "\<not> cur \<ge> len - 1" "cur = 0" "dlt (Fin 0) c"
    | "\<not> cur \<ge> len - 1" "\<not> (cur = 0 \<and> dlt (Fin 0) c)" by blast
  then show ?thesis
  proof cases
    case 1
    then show ?thesis using assms(3) w by (simp add: should_upgrade_def)
  next
    case 2
    then show ?thesis using assms(3) w by (auto simp: should_upgrade_def word_le_nat_alt)
  next
    case 3
    then obtain s where s: "upgrade_loop c levels (unat len) (unat cur) (unat cur) = Inr s"
      and t: "t = (of_nat s + cur + 1) div 2"
      using assms(3) unfolding should_upgrade_def by (auto simp: res_simps)
    have r: "unat cur \<le> s" "s \<le> unat len" using upgrade_loop_range [OF s] w(3) by auto
    have c: "unat cur < unat len - 1" using 3(1) w by (simp add: word_le_nat_alt)
    have os: "unat (of_nat s :: u32) = s" using r(2) assms(2) by (simp add: unat_of_nat take_bit_nat_eq_self)
    have "unat (of_nat s + cur + 1) = s + unat cur + 1"
      using os r(2) c assms(2) by (subst unat_add_noov32; subst unat_add_noov32; simp)
    then have "unat t = (s + unat cur + 1) div 2" unfolding t by (simp add: unat_div)
    then show ?thesis using half_range [OF r c] by simp
  qed
qed

lemma target_step_range:
  fixes cur len :: u32
  assumes "cur < len" and "unat len \<le> 1073741824" and "target_step lvl levels len cur = Inr t"
  shows "0 \<le> t \<and> t < int (unat len)"
    and "t < int (unat cur) \<Longrightarrow> dlt lvl d0_95"
    and "int (unat cur) < t \<Longrightarrow> dlt d1_1 lvl"
proof -
  note w = word_step_facts [OF assms(1,2)]
  have deg: "t \<le> int (unat cur) \<and> 0 \<le> t" if d: "dlt lvl d0_95"
  proof -
    obtain x where x: "degrade_loop lvl levels (unat cur) (unat cur) = Inr x" "t = int x"
      using d assms(3) by (auto simp: target_step_def res_simps)
    show ?thesis unfolding x(2) using degrade_loop_le [OF x(1)] by (simp only: of_nat_le_iff) simp
  qed
  have up: "int (unat cur) \<le> t \<and> t < int (unat len)"
    if d: "\<not> dlt lvl d0_95" "dlt d1_1 lvl"
  proof -
    obtain u where u: "should_upgrade lvl levels len cur = Inr u" "t = sint u"
      using d assms(3) by (auto simp: target_step_def res_simps)
    note r = should_upgrade_range [OF assms(1,2) u(1)]
    then have "sint u = int (unat u)" using assms(2) by (intro sint_small32) simp
    then show ?thesis using r u(2) by (simp only: of_nat_le_iff of_nat_less_iff)
  qed
  have mid: "t = int (unat cur)"
    if "\<not> dlt lvl d0_95" and "\<not> dlt d1_1 lvl"
    using that assms(3) w(2) by (simp add: target_step_def)
  show "0 \<le> t \<and> t < int (unat len)" using deg up mid w(3) of_nat_less_iff [of "unat cur" "unat len", where 'a = int] by linarith
  show "t < int (unat cur) \<Longrightarrow> dlt lvl d0_95" using up mid by linarith
  show "int (unat cur) < t \<Longrightarrow> dlt d1_1 lvl" using deg mid by linarith
qed

lemma target_step_total:
  fixes cur len :: u32
  assumes "cur < len" and "unat len < length levels"
  shows "\<exists>t. target_step lvl levels len cur = Inr t"
proof -
  have c: "unat cur < unat len" using assms(1) by (simp add: word_less_nat_alt)
  obtain t1 where t1: "degrade_loop lvl levels (unat cur) (unat cur) = Inr t1"
    using degrade_loop_total [of "unat cur" levels "unat cur" lvl] c assms(2) by auto
  obtain t2 where t2: "upgrade_loop lvl levels (unat len) (unat cur) (unat cur) = Inr t2"
    using upgrade_loop_total [of "unat cur" "unat len" levels "unat cur" lvl] c assms(2) by auto
  show ?thesis by (simp add: target_step_def should_upgrade_def t1 t2)
qed

section \<open>What an action of the policy implies\<close>

text \<open>The monitor a call uses: the policy's own, or the one of the chain.\<close>

definition monitor_in_use :: "'m option option \<Rightarrow> 'm CongestionPolicy \<Rightarrow> 'm option" where
  "monitor_in_use chain_mon p = (case congest p of Some m \<Rightarrow> Some m
     | None \<Rightarrow> (case chain_mon of None \<Rightarrow> None | Some cm \<Rightarrow> cm))"

lemma get_step_unfold:
  "get_step now mtime cap chain_mon oper levels len cur p =
     (case monitor_in_use chain_mon p of
        None \<Rightarrow> Inr (0, if congest p = None \<and> chain_mon \<noteq> None then p \<lparr>congest := None\<rparr> else p)
      | Some mon \<Rightarrow> get_step now mtime cap None oper levels len cur (p \<lparr>congest := Some mon\<rparr>))"
  by (cases p) (auto simp: monitor_in_use_def get_step_def Let_def split: option.splits)

lemma get_step_acts:
  assumes "get_step now mtime cap chain_mon oper levels len cur p = Inr (delta, p')" and "delta \<noteq> 0"
  obtains mon lvl mon' pos targ where
    "monitor_in_use chain_mon p = Some mon" and "cap mon = Inr (lvl, mon')"
    and "scan_statuses oper (mtime mon) lvl (statuses p) 0 = Some pos" and "pos < length (statuses p)"
    and "\<not> (dlt (Fin 1) lvl \<and> back_scan_blocks (mtime mon) (rev (drop (Suc pos) (statuses p))))"
    and "last_check (statuses p ! pos) > last_state_change (statuses p ! pos)"
    and "target_step lvl levels len cur = Inr targ" and "delta = to_int32 (targ - uint cur)"
    and "p' = p \<lparr>congest := Some mon', statuses := (statuses p)[pos := (statuses p ! pos)
        \<lparr>last_check := mtime mon, last_state_change := now, availStepsDown := targ,
         availStepsUp := to_int32 (uint len - targ - 1)\<rparr>]\<rparr>"
proof -
  obtain mon where mon: "monitor_in_use chain_mon p = Some mon"
    using assms by (subst (asm) get_step_unfold) (auto split: option.splits)
  have g: "get_step now mtime cap None oper levels len cur (p \<lparr>congest := Some mon\<rparr>) = Inr (delta, p')"
    using assms(1) mon by (subst (asm) get_step_unfold) simp
  show thesis
    using g assms(2) that [OF mon]
    by (auto simp: get_step_def Let_def res_simps not_le split: if_splits option.splits)
qed

section \<open>The policy on top of the monitor contract\<close>

locale policy_client = mon: capacity_monitor inv admissible cap
  for inv :: "'m \<Rightarrow> bool" and admissible :: "'env \<Rightarrow> 'm \<Rightarrow> bool"
    and cap :: "'env \<Rightarrow> 'm \<Rightarrow> (double \<times> 'm) res" +
  fixes mtime :: "'m \<Rightarrow> msec_t"
begin

lemma acts_only_when_due:
  assumes "get_step now mtime (cap en) chain_mon oper levels len cur p = Inr (delta, p')" and "delta \<noteq> 0"
    and "\<And>mon. monitor_in_use chain_mon p = Some mon \<Longrightarrow> inv mon \<and> admissible en mon"
  shows "\<exists>mon lvl mon' pos. monitor_in_use chain_mon p = Some mon \<and> cap en mon = Inr (lvl, mon')
     \<and> inv mon' \<and> congest p' = Some mon'
     \<and> pos < length (statuses p) \<and> st_op (statuses p ! pos) = oper
     \<and> (lvl = Fin 0 \<or> (\<forall>i \<le> pos. \<not> recent_change (mtime mon) (statuses p ! i)))"
proof -
  obtain mon lvl mon' pos targ where a: "monitor_in_use chain_mon p = Some mon" "cap en mon = Inr (lvl, mon')"
    "scan_statuses oper (mtime mon) lvl (statuses p) 0 = Some pos" "pos < length (statuses p)"
    and p': "p' = p \<lparr>congest := Some mon', statuses := (statuses p)[pos := (statuses p ! pos)
        \<lparr>last_check := mtime mon, last_state_change := now, availStepsDown := targ,
         availStepsUp := to_int32 (uint len - targ - 1)\<rparr>]\<rparr>"
    using get_step_acts [OF assms(1,2)] by metis
  note s = scan_statuses_Some [OF a(3)]
  have "lvl = Fin 0 \<or> dlt (Fin 0) lvl" "inv mon'"
    using mon.cap_zero_or_positive [OF _ _ a(2)] mon.cap_inv [OF _ _ a(2)] assms(3) a(1) by auto
  then show ?thesis using a s p' by auto
qed

end

interpretation queue_policy: policy_client q_inv "\<lambda>_ _. True"
  "\<lambda>(now, env). q_capacity_ratio now env" q_measurement_time
  by unfold_locales

interpretation window_policy: policy_client w_inv "\<lambda>_ _. True" w_capacity_ratio w_measurement_time
  by unfold_locales

interpretation facade_policy: policy_client facade_inv
  "\<lambda>_ p. length (measurements_in_period (snd p)) < 2 ^ 53" facade_capacity_ratio
  "\<lambda>p. w_measurement_time (fst p)"
  by unfold_locales

interpretation uncongested_policy: policy_client "\<lambda>_. True" "\<lambda>_ _. True" uncongested_capacity_ratio "\<lambda>_. 0"
  by unfold_locales

section \<open>Properties\<close>

lemma to_int32_diff:
  fixes cur len :: u32
  assumes "cur < len" and "unat len \<le> 1073741824" and "0 \<le> t" and "t < int (unat len)"
  shows "to_int32 (t - uint cur) = t - uint cur"
proof -
  have "0 \<le> uint cur" "uint cur < int (unat len)" using assms(1) by (simp_all add: word_less_def)
  moreover have "int (unat len) \<le> 1073741824" using assms(2) by linarith
  ultimately have "- 2147483648 \<le> t - uint cur \<and> t - uint cur \<le> 2147483647"
    using assms(3,4) by linarith
  then show ?thesis by (intro to_int32_id) (simp add: in_int_def INT_MIN_def INT_MAX_def)
qed

text \<open>
  A concrete scenario for the witnesses: one registered operator at the lowest of three levels,
  an uncongested link, and a measurement four seconds before the call.
\<close>

definition sample_policy :: "unit CongestionPolicy" where
  "sample_policy = \<lparr>statuses = [new_OperatorState (OpId 1 2)], congest = Some ()\<rparr>"

definition sample_levels :: "double list" where
  "sample_levels = [Fin 1, Fin 2, Fin 3, Fin 4]"

definition sample_policy' :: "unit CongestionPolicy" where
  "sample_policy' = \<lparr>statuses = [\<lparr>st_op = OpId 1 2, availStepsDown = 1, availStepsUp = 1,
     last_state_change = 9000, last_check = 5000\<rparr>], congest = Some ()\<rparr>"

lemma sample_step:
  "get_step 9000 (\<lambda>_. 5000) (uncongested_capacity_ratio 0) None (OpId 1 2) sample_levels 3 0 sample_policy
     = Inr (1, sample_policy')"
  by (simp add: get_step_def sample_policy_def sample_policy'_def sample_levels_def new_OperatorState_def
      uncongested_capacity_ratio_def recent_change_def MIN_MS_BETWEEN_ACTIONS_def target_step_def
      should_upgrade_def d0_95_val d1_1_val to_int32_def)

lemma get_step_range:
  fixes cur len :: u32
  assumes "get_step now mtime cap chain_mon oper levels len cur p = Inr (delta, p')"
    and "cur < len" and "unat len \<le> 1073741824"
  shows "0 \<le> uint cur + delta \<and> uint cur + delta < int (unat len)"
proof (cases "delta = 0")
  case True
  then show ?thesis using assms(2) by (simp add: word_less_alt)
next
  case False
  then obtain mon lvl mon' pos targ where a: "target_step lvl levels len cur = Inr targ"
    "delta = to_int32 (targ - uint cur)"
    using get_step_acts [OF assms(1)] by metis
  note r = target_step_range [OF assms(2,3) a(1)]
  have "delta = targ - uint cur" using to_int32_diff [OF assms(2,3)] r(1) a(2) by simp
  then show ?thesis using r by auto
qed

text \<open>
  Property C2: whatever the congestion monitor reports and whatever the other operators do, the
  step the policy gives an operator keeps its degradation level inside the array of levels:
  the current level plus the step is at least 0 and below levelsLen.  A negative step is only
  given below a capacity ratio of 0.95, a positive one only above 1.1.
\<close>

theorem get_step_in_range:
  fixes cur len :: u32
  assumes "get_step now mtime cap chain_mon oper levels len cur p = Inr (delta, p')"
    and "cur < len" and "unat len \<le> 1073741824"
  shows "0 \<le> uint cur + delta \<and> uint cur + delta < int (unat len)
    \<and> (delta < 0 \<longrightarrow> (\<exists>mon lvl mon'. cap mon = Inr (lvl, mon') \<and> dlt lvl d0_95))
    \<and> (delta > 0 \<longrightarrow> (\<exists>mon lvl mon'. cap mon = Inr (lvl, mon') \<and> dlt d1_1 lvl))"
proof (cases "delta = 0")
  case True
  then show ?thesis using assms(2) by (simp add: word_less_def)
next
  case False
  obtain mon lvl mon' targ where a: "cap mon = Inr (lvl, mon')"
    "target_step lvl levels len cur = Inr targ" "delta = to_int32 (targ - uint cur)"
    using get_step_acts [OF assms(1) False] by metis
  note r = target_step_range [OF assms(2,3) a(2)]
  have "delta = targ - uint cur" using to_int32_diff [OF assms(2,3)] r(1) a(3) by simp
  then show ?thesis using r a(1) by auto
qed

theorem get_step_in_range_witness:
  "0 \<le> uint (0 :: u32) + 1 \<and> uint (0 :: u32) + 1 < int (unat (3 :: u32))
   \<and> (\<exists>mon lvl mon'. uncongested_capacity_ratio 0 mon = Inr (lvl, mon') \<and> dlt d1_1 lvl)"
  using get_step_in_range [OF sample_step] by simp

text \<open>
  Property C14: operators share the policy in order of priority.  When the policy degrades an
  operator, no operator before it in the list can still degrade, and when it upgrades an
  operator, no operator after it can still upgrade.
\<close>

theorem get_step_priority:
  fixes cur len :: u32
  assumes "get_step now mtime cap chain_mon oper levels len cur p = Inr (delta, p')"
    and "cur < len" and "unat len \<le> 1073741824" and "delta \<noteq> 0"
  shows "\<exists>pos < length (statuses p). st_op (statuses p ! pos) = oper
     \<and> (\<forall>i < pos. st_op (statuses p ! i) \<noteq> oper)
     \<and> (delta < 0 \<longrightarrow> (\<forall>i < pos. availStepsDown (statuses p ! i) \<le> 0))
     \<and> (delta > 0 \<longrightarrow> (\<forall>i. pos < i \<and> i < length (statuses p) \<longrightarrow> availStepsUp (statuses p ! i) \<le> 0))
     \<and> availStepsDown (statuses p' ! pos) = uint cur + delta
     \<and> (\<forall>i. i \<noteq> pos \<longrightarrow> statuses p' ! i = statuses p ! i) \<and> length (statuses p') = length (statuses p)"
proof -
  obtain mon lvl mon' pos targ where a: "scan_statuses oper (mtime mon) lvl (statuses p) 0 = Some pos"
    "pos < length (statuses p)"
    "\<not> (dlt (Fin 1) lvl \<and> back_scan_blocks (mtime mon) (rev (drop (Suc pos) (statuses p))))"
    "target_step lvl levels len cur = Inr targ" "delta = to_int32 (targ - uint cur)"
    and p': "p' = p \<lparr>congest := Some mon', statuses := (statuses p)[pos := (statuses p ! pos)
        \<lparr>last_check := mtime mon, last_state_change := now, availStepsDown := targ,
         availStepsUp := to_int32 (uint len - targ - 1)\<rparr>]\<rparr>"
    using get_step_acts [OF assms(1,4)] by metis
  note s = scan_statuses_Some [OF a(1)] and r = target_step_range [OF assms(2,3) a(4)]
  have d: "delta = targ - uint cur" using to_int32_diff [OF assms(2,3)] r(1) a(5) by simp
  have down: "dlt lvl (Fin 1)" if "delta < 0"
    using r(2) that d dlt_trans [of lvl d0_95 "Fin 1"] by (simp add: d0_95_val)
  have up: "dlt (Fin 1) lvl" if "delta > 0"
    using r(3) that d dlt_trans [of "Fin 1" d1_1 lvl] by (simp add: d1_1_val)
  have later: "availStepsUp (statuses p ! i) \<le> 0" if "delta > 0" "pos < i" "i < length (statuses p)" for i
  proof -
    have "statuses p ! i \<in> set (drop (Suc pos) (statuses p))"
      using that by (auto simp: in_set_conv_nth intro!: exI [of _ "i - Suc pos"])
    then show ?thesis using a(3) up [OF that(1)] by (auto simp: back_scan_blocks_iff not_less)
  qed
  show ?thesis using s a(2) down later d unfolding p'
    by (intro exI [of _ pos]) (auto simp: not_less)
qed

theorem get_step_priority_witness:
  "\<exists>pos < length (statuses sample_policy). st_op (statuses sample_policy ! pos) = OpId 1 2
     \<and> availStepsDown (statuses sample_policy' ! pos) = 1"
  using get_step_priority [OF sample_step] by auto

text \<open>
  After the policy has changed an operator's level at time now, it leaves that
  operator alone as long as the monitor's measurements are less than one second newer and the
  link is not completely stalled (a positive capacity ratio).
\<close>

theorem get_step_quiet_period:
  fixes cur len :: u32
  assumes "get_step now mtime cap chain_mon oper levels len cur p = Inr (delta, p')" and "delta \<noteq> 0"
    and "congest p' = Some mon" and "cap2 mon = Inr (lvl, mon2)" and "dlt (Fin 0) lvl"
    and "mtime mon < now + 1000"
  shows "get_step now2 mtime cap2 chain_mon2 oper levels2 len2 cur2 p' = Inr (0, p' \<lparr>congest := Some mon2\<rparr>)"
proof -
  obtain mon0 lvl0 mon' pos targ where a: "scan_statuses oper (mtime mon0) lvl0 (statuses p) 0 = Some pos"
    "pos < length (statuses p)"
    and p': "p' = p \<lparr>congest := Some mon', statuses := (statuses p)[pos := (statuses p ! pos)
        \<lparr>last_check := mtime mon0, last_state_change := now, availStepsDown := targ,
         availStepsUp := to_int32 (uint len - targ - 1)\<rparr>]\<rparr>"
    using get_step_acts [OF assms(1,2)] by metis
  have first: "\<forall>i < pos. st_op (statuses p ! i) \<noteq> oper" using scan_statuses_Some [OF a(1)] a(2) by simp
  have "recent_change (mtime mon) (statuses p' ! pos)"
    using assms(6) a(2) by (simp add: p' recent_change_def MIN_MS_BETWEEN_ACTIONS_def)
  then have "scan_statuses oper (mtime mon) lvl (statuses p') 0 = None"
    using scan_statuses_blocked [of pos "statuses p'"] a(2) first assms(5) by (simp add: p')
  moreover have "statuses p' \<noteq> []" using a(2) by (auto simp: p')
  ultimately show ?thesis using assms(3,4) by (simp add: get_step_def)
qed

theorem get_step_quiet_period_witness:
  "get_step 9900 (\<lambda>_. 5000) (uncongested_capacity_ratio 0) None (OpId 1 2) sample_levels 3 1 sample_policy'
     = Inr (0, sample_policy' \<lparr>congest := Some ()\<rparr>)"
  by (rule get_step_quiet_period [OF sample_step, where mon = "()" and lvl = "Fin 10"])
    (simp_all add: sample_policy'_def uncongested_capacity_ratio_def)

text \<open>
  Property C15: an operator that is registered with the policy always gets an answer, provided the
  monitor answers and the array of levels is readable one element past levelsLen (the upgrade
  search reads that element before it tests the bound).
\<close>

theorem get_step_total:
  fixes cur len :: u32
  assumes "oper \<in> st_op ` set (statuses p)" and "cur < len" and "unat len \<le> 1073741824"
    and "unat len < length levels"
    and "\<And>mon. monitor_in_use chain_mon p = Some mon \<Longrightarrow> is_ok (cap mon)"
  shows "is_ok (get_step now mtime cap chain_mon oper levels len cur p)"
proof (cases "monitor_in_use chain_mon p")
  case None
  then show ?thesis by (subst get_step_unfold) simp
next
  case (Some mon)
  then obtain lvl mon' where c: "cap mon = Inr (lvl, mon')" using assms(5) by (force simp: is_ok_iff)
  obtain t where t: "target_step lvl levels len cur = Inr t" using target_step_total [OF assms(2,4)] by blast
  note r = target_step_range(1) [OF assms(2,3) t]
  moreover have "int (unat len) < int (length levels)" using assms(4) by (simp only: of_nat_less_iff)
  ultimately have "nat t < length levels" by linarith
  moreover have "pos < length (statuses p)" if "scan_statuses oper (mtime mon) lvl (statuses p) 0 = Some pos" for pos
    using scan_statuses_found [OF that assms(1)] by simp
  moreover have "statuses p \<noteq> []" using assms(1) by auto
  ultimately show ?thesis using Some c t r
    by (subst get_step_unfold) (auto simp: get_step_def Let_def is_ok_iff not_le split: option.splits)
qed

theorem get_step_total_witness:
  "is_ok (get_step 9000 (\<lambda>_. 5000) (uncongested_capacity_ratio 0) None (OpId 1 2) sample_levels 3 1 sample_policy)"
  by (rule get_step_total)
    (simp_all add: sample_policy_def sample_levels_def new_OperatorState_def uncongested_capacity_ratio_def)

text \<open>
  Property C18: the upgrade search reads past the end of an array of exactly levelsLen levels
  whenever the operator is neither at the lowest nor at the highest level and every level is
  supported by the reported capacity.
\<close>

theorem should_upgrade_overruns:
  fixes cur len :: u32
  assumes "0 < cur" and "cur < len - 1" and "cur < len" and "length levels = unat len"
    and "\<forall>i. unat cur \<le> i \<longrightarrow> i < unat len \<longrightarrow> dlt (ddiv (levels ! i) (levels ! unat cur)) capacity"
  shows "should_upgrade capacity levels len cur = Inl OutOfBounds"
proof -
  have "unat cur < unat len" using assms(3) by (simp add: word_less_nat_alt)
  then have "upgrade_loop capacity levels (unat len) (unat cur) (unat cur) = Inl OutOfBounds"
    using assms(4,5) by (intro upgrade_loop_overrun) auto
  then show ?thesis using assms(1,2) by (auto simp: should_upgrade_def)
qed

theorem should_upgrade_overruns_witness:
  "should_upgrade (Fin 10) [Fin 1, Fin 2, Fin 4] 3 1 = Inl OutOfBounds"
proof (rule should_upgrade_overruns)
  have "ddiv (Fin 2) (Fin 2) = Fin 1" "ddiv (Fin 4) (Fin 2) = Fin 2" by code_simp+
  moreover have "i = 1 \<or> i = 2" if "1 \<le> i" "i < 3" for i :: nat using that by linarith
  ultimately show "\<forall>i. unat (1 :: u32) \<le> i \<longrightarrow> i < unat (3 :: u32) \<longrightarrow>
      dlt (ddiv ([Fin 1, Fin 2, Fin 4] ! i) ([Fin 1, Fin 2, Fin 4] ! unat (1 :: u32))) (Fin 10)"
    by fastforce
qed simp_all

end
