(* ===== verification/JS_Text.thy ===== *)
theory JS_Text
  imports JS_Types
begin

text \<open>
  Reading numbers out of text, as \<^verbatim>\<open>istringstream(s) >> x\<close> does for the configuration
  of operators: leading blanks are skipped, the longest numeric prefix is read,
  and the extraction fails when there is none or the value does not fit.  An
  operator's configuration is a map from option names to values; a missing
  option reads as the empty string.
\<close>

text \<open>What configuring an operator returns; the empty string is NO_ERR.\<close>

type_synonym operator_err_t = string

type_synonym op_config = "string \<rightharpoonup> string"

definition cfg_get :: "op_config \<Rightarrow> string \<Rightarrow> string" where
  "cfg_get cfg k = (case cfg k of None \<Rightarrow> [] | Some v \<Rightarrow> v)"

definition is_blank :: "char \<Rightarrow> bool" where
  "is_blank c \<longleftrightarrow> (of_char c :: nat) = 32 \<or> (9 \<le> (of_char c :: nat) \<and> (of_char c :: nat) \<le> 13)"

definition skip_blanks :: "string \<Rightarrow> string" where
  "skip_blanks s = dropWhile is_blank s"

definition read_sign :: "string \<Rightarrow> int \<times> string" where
  "read_sign s = (case s of [] \<Rightarrow> (1, [])
     | c # cs \<Rightarrow> if c = CHR ''-'' then (- 1, cs) else if c = CHR ''+'' then (1, cs) else (1, s))"

definition read_digits :: "string \<Rightarrow> string \<times> string" where
  "read_digits s = (takeWhile is_digit s, dropWhile is_digit s)"

definition stream_integer :: "string \<Rightarrow> (int \<times> string) option" where
  "stream_integer s = (let (sg, r) = read_sign (skip_blanks s); (ds, rest) = read_digits r in
     if ds = [] then None else Some (sg * int (read_nat ds), rest))"

definition stream_int :: "string \<Rightarrow> int option" where
  "stream_int s = (case stream_integer s of None \<Rightarrow> None
     | Some (i, _) \<Rightarrow> if in_int i then Some i else None)"

text \<open>For an unsigned target a negative number wraps, and only the magnitude must fit.\<close>

definition stream_u32 :: "string \<Rightarrow> u32 option" where
  "stream_u32 s = (case stream_integer s of None \<Rightarrow> None
     | Some (i, _) \<Rightarrow> if \<bar>i\<bar> < 4294967296 then Some (word_of_int i) else None)"

definition stream_u64 :: "string \<Rightarrow> u64 option" where
  "stream_u64 s = (case stream_integer s of None \<Rightarrow> None
     | Some (i, _) \<Rightarrow> if \<bar>i\<bar> < 18446744073709551616 then Some (word_of_int i) else None)"

definition read_fraction :: "string \<Rightarrow> string \<times> string" where
  "read_fraction s = (case s of [] \<Rightarrow> ([], [])
     | c # cs \<Rightarrow> if c = CHR ''.'' then read_digits cs else ([], s))"

text \<open>An exponent mark without digits makes the conversion fail.\<close>

definition read_exponent :: "string \<Rightarrow> int option" where
  "read_exponent s = (case s of [] \<Rightarrow> Some 0
     | c # cs \<Rightarrow> if c = CHR ''e'' \<or> c = CHR ''E''
        then (let (sg, r) = read_sign cs; (ds, _) = read_digits r in
              if ds = [] then None else Some (sg * int (read_nat ds)))
        else Some 0)"

definition scaled_decimal :: "int \<Rightarrow> int \<Rightarrow> double" where
  "scaled_decimal m ex = mk_double (if 0 \<le> ex then of_int m * 10 ^ nat ex else of_int m / 10 ^ nat (- ex))"

text \<open>
  The value an extraction stores, and whether it succeeded: nothing to read stores 0, a value
  out of range stores the nearest limit of the type.
\<close>

definition DBL_MAX :: double where
  "DBL_MAX = Fin (of_int ((2 ^ 53 - 1) * 2 ^ 971))"

definition read_double :: "string \<Rightarrow> double \<times> bool" where
  "read_double s =
     (let (sg, r) = read_sign (skip_blanks s);
          (ip, r1) = read_digits r;
          (fp, r2) = read_fraction r1
      in if ip @ fp = [] then (Fin 0, False)
         else case read_exponent r2 of None \<Rightarrow> (Fin 0, False)
           | Some ex \<Rightarrow> (case scaled_decimal (sg * int (read_nat (ip @ fp))) (ex - int (length fp)) of
               PInf \<Rightarrow> (DBL_MAX, False)
             | NInf \<Rightarrow> (dsub (Fin 0) DBL_MAX, False)
             | d \<Rightarrow> (d, True)))"

definition stream_double :: "string \<Rightarrow> double option" where
  "stream_double s = (let (d, ok) = read_double s in if ok then Some d else None)"

definition read_int :: "string \<Rightarrow> int \<times> bool" where
  "read_int s = (case stream_integer s of None \<Rightarrow> (0, False)
     | Some (i, _) \<Rightarrow> if in_int i then (i, True) else (if i < 0 then INT_MIN else INT_MAX, False))"

text \<open>
  \<^verbatim>\<open>boost::lexical_cast\<close> is strict: the whole text must be the number, and a text that is not one,
  or does not fit, throws.  An unsigned target takes a negative number modulo its width.
\<close>

definition lexical_integer :: "string \<Rightarrow> int option" where
  "lexical_integer s = (let (sg, r) = read_sign s; (ds, rest) = read_digits r in
     if ds = [] \<or> rest \<noteq> [] then None else Some (sg * int (read_nat ds)))"

definition lexical_cast :: "(int \<Rightarrow> bool) \<Rightarrow> string \<Rightarrow> int res" where
  "lexical_cast fits s = (case lexical_integer s of None \<Rightarrow> Inl (Thrown ''bad_lexical_cast'')
     | Some i \<Rightarrow> if fits i then Inr i else Inl (Thrown ''bad_lexical_cast''))"

definition lexical_int :: "string \<Rightarrow> int res" where
  "lexical_int s = lexical_cast in_int s"

definition lexical_u32 :: "string \<Rightarrow> u32 res" where
  "lexical_u32 s = bindE (lexical_cast (\<lambda>i. \<bar>i\<bar> < 4294967296) s) (\<lambda>i. Inr (word_of_int i))"

definition in_time_t :: "int \<Rightarrow> bool" where
  "in_time_t i \<longleftrightarrow> - 9223372036854775808 \<le> i \<and> i \<le> 9223372036854775807"

definition lexical_time :: "string \<Rightarrow> int res" where
  "lexical_time s = lexical_cast in_time_t s"

definition stream_time :: "string \<Rightarrow> int option" where
  "stream_time s = (case stream_integer s of None \<Rightarrow> None
     | Some (i, _) \<Rightarrow> if in_time_t i then Some i else None)"

text \<open>
  The items of repeated \<^verbatim>\<open>std::getline(ss, item, ',')\<close>: an empty rest ends the loop, so a trailing
  comma adds nothing.
\<close>

fun getline_items :: "string \<Rightarrow> string \<Rightarrow> string list" where
  "getline_items item [] = (if item = [] then [] else [item])"
| "getline_items item (c # cs) = (if c = CHR '','' then item # getline_items [] cs else getline_items (item @ [c]) cs)"

definition split_commas :: "string \<Rightarrow> string list" where
  "split_commas s = getline_items [] s"

text \<open>The order of std::string, as the keys of a std::map are visited.\<close>

fun str_less :: "string \<Rightarrow> string \<Rightarrow> bool" where
  "str_less [] [] = False"
| "str_less [] (y # ys) = True"
| "str_less (x # xs) [] = False"
| "str_less (x # xs) (y # ys) =
     ((of_char x :: nat) < of_char y \<or> (x = y \<and> str_less xs ys))"

lemma str_less_irrefl: "\<not> str_less s s"
  by (induction s) auto

lemma str_less_trans: "str_less a b \<Longrightarrow> str_less b c \<Longrightarrow> str_less a c"
proof (induction a b arbitrary: c rule: str_less.induct)
  case (4 x xs y ys)
  then show ?case by (cases c) auto
next
  case (2 y ys)
  then show ?case by (cases c) auto
qed auto

lemma str_less_total: "str_less a b \<or> a = b \<or> str_less b a"
proof (induction a b rule: str_less.induct)
  case (4 x xs y ys)
  show ?case
  proof (cases "x = y")
    case True
    then show ?thesis using 4 by auto
  next
    case False
    then have "(of_char x :: nat) \<noteq> of_char y" using inj_of_char [where 'a = nat] by (auto dest: injD)
    then have "(of_char x :: nat) < of_char y \<or> (of_char y :: nat) < of_char x" by (rule neq_iff [THEN iffD1])
    then show ?thesis by auto
  qed
qed auto

lemma show_nat_scan [simp]:
  "takeWhile is_digit (show_nat n) = show_nat n" "dropWhile is_digit (show_nat n) = []"
  using show_nat_digits [of n] by (simp_all add: list_all_iff)

lemma stream_integer_show_nat: "stream_integer (show_nat k) = Some (int k, [])"
proof -
  have nb: "is_digit c \<Longrightarrow> \<not> is_blank c \<and> c \<noteq> CHR ''-'' \<and> c \<noteq> CHR ''+''" for c
    by (auto simp: is_digit_def is_blank_def)
  obtain c cs where c: "show_nat k = c # cs" "is_digit c"
    using show_nat_nonempty [of k] show_nat_digits [of k] by (cases "show_nat k") auto
  then have "skip_blanks (show_nat k) = show_nat k" "read_sign (show_nat k) = (1, show_nat k)"
    using nb [OF c(2)] by (simp_all add: skip_blanks_def read_sign_def)
  then show ?thesis
    by (simp add: stream_integer_def read_digits_def read_show_nat show_nat_nonempty)
qed

lemma stream_integer_show_neg: "stream_integer (CHR ''-'' # show_nat k) = Some (- int k, [])"
proof -
  have "skip_blanks (CHR ''-'' # show_nat k) = CHR ''-'' # show_nat k"
    by (simp add: skip_blanks_def is_blank_def)
  then show ?thesis
    by (simp add: stream_integer_def read_sign_def read_digits_def read_show_nat show_nat_nonempty)
qed

lemma stream_int_show:
  assumes "in_int i"
  shows "stream_int (show_int i) = Some i"
  using assms
  by (simp add: stream_int_def show_int_def stream_integer_show_nat stream_integer_show_neg)

end
