(* ===== verification/JS_Chain.thy ===== *)
theory JS_Chain
  imports JS_Policy JS_Text
begin

text \<open>
  Operator chains (\<^verbatim>\<open>dataplane/operator_chain.h\<close>, \<^verbatim>\<open>dataplane/operator_chain.cc\<close>) and the base
  classes of their members (\<^verbatim>\<open>dataplane/chain_ops.h\<close>, \<^verbatim>\<open>dataplane/chain_ops.cc\<close>).  A vector of
  shared pointers to tuples is a list of options, None a null pointer; a member's virtual
  functions are arguments of the definitions of the base class.
\<close>

type_synonym tuple_buf = "Tuple option list"

type_synonym 'o op_process =
  "'o \<Rightarrow> tuple_buf \<Rightarrow> DataplaneMessage \<Rightarrow> ('o \<times> tuple_buf \<times> DataplaneMessage) res"

section \<open>CEachOperator\<close>

fun each_process :: "('o \<Rightarrow> Tuple \<Rightarrow> ('o \<times> Tuple option) res) \<Rightarrow> 'o \<Rightarrow> tuple_buf \<Rightarrow> ('o \<times> tuple_buf) res" where
  "each_process process_one op [] = Inr (op, [])"
| "each_process process_one op (None # ts) =
     bindE (each_process process_one op ts) (\<lambda>(op', us). Inr (op', None # us))"
| "each_process process_one op (Some t # ts) =
     bindE (process_one op t) (\<lambda>(op1, u).
     bindE (each_process process_one op1 ts) (\<lambda>(op2, us). Inr (op2, u # us)))"

definition ceach_process ::
  "('o \<Rightarrow> Tuple \<Rightarrow> ('o \<times> Tuple option) res) \<Rightarrow> ('o \<Rightarrow> DataplaneMessage \<Rightarrow> ('o \<times> DataplaneMessage) res) \<Rightarrow> 'o op_process" where
  "ceach_process process_one meta op tuples msg =
     bindE (each_process process_one op tuples) (\<lambda>(op1, us).
     bindE (meta op1 msg) (\<lambda>(op2, msg'). Inr (op2, us, msg')))"

section \<open>CFilterOperator\<close>

text \<open>The loop compacts the vector in place; the first argument counts the entries left.\<close>

primrec filter_loop ::
  "nat \<Rightarrow> ('o \<Rightarrow> Tuple \<Rightarrow> (bool \<times> 'o) res) \<Rightarrow> nat \<Rightarrow> nat \<Rightarrow> 'o \<Rightarrow> tuple_buf \<Rightarrow> (nat \<times> 'o \<times> tuple_buf) res" where
  "filter_loop 0 should_emit i out_idx op v = Inr (out_idx, op, v)"
| "filter_loop (Suc k) should_emit i out_idx op v =
     bindE (nthE v i) (\<lambda>p. case p of None \<Rightarrow> Inl NullDeref
       | Some t \<Rightarrow> bindE (should_emit op t) (\<lambda>(b, op').
           if b then bindE (updE v out_idx p) (filter_loop k should_emit (Suc i) (Suc out_idx) op')
           else filter_loop k should_emit (Suc i) out_idx op' v))"

definition cfilter_process ::
  "('o \<Rightarrow> Tuple \<Rightarrow> (bool \<times> 'o) res) \<Rightarrow> ('o \<Rightarrow> DataplaneMessage \<Rightarrow> ('o \<times> DataplaneMessage) res) \<Rightarrow> 'o op_process" where
  "cfilter_process should_emit end_of_window op tuples msg =
     bindE (filter_loop (length tuples) should_emit 0 0 op tuples) (\<lambda>(out_idx, op1, v).
     bindE (if dp_type msg = END_OF_WINDOW then end_of_window op1 msg else Inr (op1, msg)) (\<lambda>(op2, msg').
     Inr (op2, take out_idx v, msg')))"

definition no_meta :: "'o \<Rightarrow> DataplaneMessage \<Rightarrow> ('o \<times> DataplaneMessage) res" where
  "no_meta op msg = Inr (op, msg)"

section \<open>OperatorChain\<close>

record 'o OperatorChain =
  ops :: "'o option list"
  running :: bool
  has_strand :: bool

definition new_OperatorChain :: "'o OperatorChain" where
  "new_OperatorChain = \<lparr>ops = [], running = False, has_strand = False\<rparr>"

definition add_member :: "'o option \<Rightarrow> 'o OperatorChain \<Rightarrow> 'o OperatorChain" where
  "add_member op c = c \<lparr>ops := ops c @ [op]\<rparr>"

definition members :: "'o OperatorChain \<Rightarrow> nat" where
  "members c = length (ops c)"

definition chain_member :: "'o OperatorChain \<Rightarrow> nat \<Rightarrow> 'o option res" where
  "chain_member c i = nthE (ops c) i"

definition set_start :: "'o option \<Rightarrow> 'o OperatorChain \<Rightarrow> 'o OperatorChain res" where
  "set_start op c = bindE (nthE (ops c) 0) (\<lambda>h.
     if h \<noteq> None then Inl LogFatal else Inr (c \<lparr>ops := (ops c)[0 := op]\<rparr>))"

definition clone_from :: "'o OperatorChain \<Rightarrow> 'o OperatorChain \<Rightarrow> 'o OperatorChain" where
  "clone_from src c = c \<lparr>ops := ops c @ ops src\<rparr>"

definition chain_name :: "('o \<Rightarrow> string) \<Rightarrow> 'o OperatorChain \<Rightarrow> string" where
  "chain_name id_as_str c = (case ops c of
       [] \<Rightarrow> ''empty chain''
     | h # _ \<Rightarrow> show_nat (length (ops c)) @ ''-element chain starting at '' @
         (case h of Some op \<Rightarrow> id_as_str op | None \<Rightarrow> ''null element''))"

text \<open>Data and metadata go through every member after the head, in order.\<close>

fun run_ops :: "'o op_process \<Rightarrow> 'o option list \<Rightarrow> tuple_buf \<Rightarrow> DataplaneMessage \<Rightarrow>
    ('o option list \<times> tuple_buf \<times> DataplaneMessage) res" where
  "run_ops run [] d m = Inr ([], d, m)"
| "run_ops run (None # os) d m = Inl NullDeref"
| "run_ops run (Some op # os) d m =
     bindE (run op d m) (\<lambda>(op', d', m').
     bindE (run_ops run os d' m') (\<lambda>(os', d'', m''). Inr (Some op' # os', d'', m'')))"

definition chain_process :: "'o op_process \<Rightarrow> 'o OperatorChain op_process" where
  "chain_process run c d m =
     bindE (run_ops run (drop 1 (ops c)) d m) (\<lambda>(os, d', m').
     Inr (c \<lparr>ops := take 1 (ops c) @ os\<rparr>, d', m'))"

definition meta_from_upstream ::
  "'o op_process \<Rightarrow> 'o OperatorChain \<Rightarrow> DataplaneMessage \<Rightarrow> ('o OperatorChain \<times> tuple_buf \<times> DataplaneMessage) res" where
  "meta_from_upstream run c m = chain_process run c [] m"

text \<open>
  Metadata moving up: from the last position of the reporting member down to the head.  The
  member is identified by its position predicate; nothing is delivered when it is not found.
\<close>

fun last_index :: "('o option \<Rightarrow> bool) \<Rightarrow> 'o option list \<Rightarrow> nat option" where
  "last_index is_c [] = None"
| "last_index is_c (x # xs) = (case last_index is_c xs of
     Some i \<Rightarrow> Some (Suc i) | None \<Rightarrow> if is_c x then Some 0 else None)"

fun deliver_up :: "('o \<Rightarrow> DataplaneMessage \<Rightarrow> ('o \<times> DataplaneMessage) res) \<Rightarrow> 'o option list \<Rightarrow> DataplaneMessage \<Rightarrow>
    ('o option list \<times> DataplaneMessage) res" where
  "deliver_up meta [] m = Inr ([], m)"
| "deliver_up meta (None # os) m = bindE (deliver_up meta os m) (\<lambda>(os', m'). Inr (None # os', m'))"
| "deliver_up meta (Some op # os) m =
     bindE (meta op m) (\<lambda>(op', m1). bindE (deliver_up meta os m1) (\<lambda>(os', m2). Inr (Some op' # os', m2)))"

definition upwards_metadata ::
  "('o \<Rightarrow> DataplaneMessage \<Rightarrow> ('o \<times> DataplaneMessage) res) \<Rightarrow> ('o option \<Rightarrow> bool) \<Rightarrow> DataplaneMessage \<Rightarrow>
   'o OperatorChain \<Rightarrow> ('o OperatorChain \<times> DataplaneMessage) res" where
  "upwards_metadata meta is_c m c =
     (case last_index is_c (ops c) of None \<Rightarrow> Inr (c, m)
      | Some i \<Rightarrow> bindE (deliver_up meta (rev (take (Suc i) (ops c))) m) (\<lambda>(os, m').
          Inr (c \<lparr>ops := rev os @ drop (Suc i) (ops c)\<rparr>, m')))"

definition chain_monitor :: "('o \<Rightarrow> 'm) \<Rightarrow> 'o OperatorChain \<Rightarrow> 'm res" where
  "chain_monitor mon c = (if ops c = [] then Inl OutOfBounds
     else case last (ops c) of None \<Rightarrow> Inl NullDeref | Some op \<Rightarrow> Inr (mon op))"

definition start_chain :: "('o \<Rightarrow> 'o) \<Rightarrow> 'o OperatorChain \<Rightarrow> 'o OperatorChain" where
  "start_chain start_op c = (let c1 = c \<lparr>running := True\<rparr> in
     case ops c1 of Some op # os \<Rightarrow> c1 \<lparr>ops := Some (start_op op) # os\<rparr> | _ \<Rightarrow> c1)"

fun stop_members :: "('o \<Rightarrow> 'o) \<Rightarrow> 'o option list \<Rightarrow> 'o option list res" where
  "stop_members stopping [] = Inr []"
| "stop_members stopping (None # os) = Inl NullDeref"
| "stop_members stopping (Some op # os) =
     bindE (stop_members stopping os) (\<lambda>os'. Inr (Some (stopping op) # os'))"

definition do_stop :: "('o \<Rightarrow> 'o) \<Rightarrow> 'o OperatorChain \<Rightarrow> 'o OperatorChain res" where
  "do_stop stopping c = (case ops c of [] \<Rightarrow> Inr c
     | h # os \<Rightarrow> bindE (stop_members stopping os) (\<lambda>os'.
         Inr (c \<lparr>ops := map_option stopping h # os'\<rparr>)))"

text \<open>
  Stopping from outside posts \<^verbatim>\<open>do_stop\<close> to the chain's strand, or runs it directly without
  one, and waits for it either way.
\<close>

definition stop_chain :: "('o \<Rightarrow> 'o) \<Rightarrow> 'o OperatorChain \<Rightarrow> 'o OperatorChain res" where
  "stop_chain stopping c =
     (if running c then do_stop stopping (c \<lparr>running := False\<rparr>) else Inr c)"

section \<open>TimerSource\<close>

text \<open>
  The timer callbacks that are armed but not delivered yet are counted; \<^verbatim>\<open>emitter\<close> is the
  state of the concrete source, whose \<^verbatim>\<open>emit_data\<close> is an argument.  Cancelling a timer still
  delivers its callback, which does nothing when the source is not running.
\<close>

record 's TimerSource =
  src_running :: bool
  src_armed :: nat
  src_chain :: bool
  emitter :: 's

definition new_TimerSource :: "'s \<Rightarrow> 's TimerSource" where
  "new_TimerSource s = \<lparr>src_running = False, src_armed = 0, src_chain = False, emitter = s\<rparr>"

definition add_chain :: "'s TimerSource \<Rightarrow> 's TimerSource" where
  "add_chain s = s \<lparr>src_chain := True\<rparr>"

definition start_source :: "'s TimerSource \<Rightarrow> 's TimerSource res" where
  "start_source s = (if src_running s then Inr s
     else checkE (src_chain s) NullDeref
       (Inr (s \<lparr>src_running := True, src_armed := Suc (src_armed s)\<rparr>)))"

definition chain_stopping :: "'s TimerSource \<Rightarrow> 's TimerSource" where
  "chain_stopping s = s \<lparr>src_running := False, src_chain := False\<rparr>"

text \<open>One delivered callback.\<close>

definition emit_wrapper :: "('s \<Rightarrow> (int \<times> 's) res) \<Rightarrow> 's TimerSource \<Rightarrow> 's TimerSource res" where
  "emit_wrapper emit_data s =
     (let s1 = s \<lparr>src_armed := src_armed s - 1\<rparr> in
      if src_running s1 then
        bindE (emit_data (emitter s1)) (\<lambda>(delay_to_next, d).
          let s2 = s1 \<lparr>emitter := d\<rparr> in
          if delay_to_next \<ge> 0 then Inr (s2 \<lparr>src_armed := Suc (src_armed s2)\<rparr>)
          else Inr (chain_stopping (s2 \<lparr>src_running := False\<rparr>)))
      else Inr s1)"

section \<open>Laws of the filter loop\<close>

text \<open>The reference: decide tuple by tuple, keep the ones that pass.\<close>

fun keep_tuples :: "('o \<Rightarrow> Tuple \<Rightarrow> (bool \<times> 'o) res) \<Rightarrow> 'o \<Rightarrow> Tuple list \<Rightarrow> ('o \<times> Tuple list) res" where
  "keep_tuples should_emit op [] = Inr (op, [])"
| "keep_tuples should_emit op (t # ts) =
     bindE (should_emit op t) (\<lambda>(b, op').
     bindE (keep_tuples should_emit op' ts) (\<lambda>(op'', us). Inr (op'', if b then t # us else us)))"

lemma filter_loop_keeps:
  assumes "length v = i + length ts" and "drop i v = map Some ts" and "out_idx \<le> i"
  shows "bindE (filter_loop (length ts) should_emit i out_idx op v) (\<lambda>(n, op', v'). Inr (op', take n v'))
     = bindE (keep_tuples should_emit op ts) (\<lambda>(op', us). Inr (op', take out_idx v @ map Some us))"
  using assms
proof (induction ts arbitrary: i out_idx op v)
  case (Cons t ts)
  have i: "i < length v" "v ! i = Some t" "drop (Suc i) v = map Some ts" "length v = Suc i + length ts"
    using Cons.prems(1,2) by (auto simp: drop_Suc nth_via_drop drop_tl simp flip: tl_drop)
  show ?case
  proof (cases "should_emit op t")
    case (Inr r)
    obtain b op' where r: "r = (b, op')" by (cases r)
    show ?thesis
    proof (cases b)
      case True
      have "bindE (filter_loop (length ts) should_emit (Suc i) (Suc out_idx) op' (v[out_idx := Some t])) (\<lambda>(n, op', v'). Inr (op', take n v'))
        = bindE (keep_tuples should_emit op' ts) (\<lambda>(op'', us). Inr (op'', take (Suc out_idx) (v[out_idx := Some t]) @ map Some us))"
        using i Cons.prems(3) by (intro Cons.IH) (auto simp: drop_update_cancel)
      moreover have "take (Suc out_idx) (v[out_idx := Some t]) = take out_idx v @ [Some t]"
        using i(1) Cons.prems(3) by (simp add: take_Suc_conv_app_nth)
      ultimately show ?thesis using Inr r True i Cons.prems(3)
        by (auto simp: bindE_assoc split_def intro!: bindE_cong)
    next
      case False
      have "bindE (filter_loop (length ts) should_emit (Suc i) out_idx op' v) (\<lambda>(n, op', v'). Inr (op', take n v'))
        = bindE (keep_tuples should_emit op' ts) (\<lambda>(op'', us). Inr (op'', take out_idx v @ map Some us))"
        using i Cons.prems(3) by (intro Cons.IH) auto
      then show ?thesis using Inr r False i by (auto simp: bindE_assoc split_def intro!: bindE_cong)
    qed
  qed (use i in simp)
qed simp

lemma cfilter_process_keep:
  assumes "\<And>op'. (if dp_type msg = END_OF_WINDOW then eow op' msg else Inr (op', msg)) = Inr (op', msg)"
  shows "cfilter_process should_emit eow op (map Some ts) msg
     = bindE (keep_tuples should_emit op ts) (\<lambda>(op', us). Inr (op', map Some us, msg))"
proof -
  have "cfilter_process should_emit eow op (map Some ts) msg
    = bindE (bindE (filter_loop (length ts) should_emit 0 0 op (map Some ts)) (\<lambda>(n, op', v'). Inr (op', take n v')))
        (\<lambda>(op', d). Inr (op', d, msg))"
    unfolding cfilter_process_def assms by (auto simp: bindE_assoc split_def intro!: bindE_cong)
  also have "\<dots> = bindE (keep_tuples should_emit op ts) (\<lambda>(op', us). Inr (op', map Some us, msg))"
    using filter_loop_keeps [of "map Some ts" 0 ts 0 should_emit op]
    by (auto simp: bindE_assoc split_def intro!: bindE_cong)
  finally show ?thesis .
qed

lemma keep_tuples_append:
  "keep_tuples se op (xs @ ys) =
     bindE (keep_tuples se op xs) (\<lambda>(op1, us). bindE (keep_tuples se op1 ys) (\<lambda>(op2, vs). Inr (op2, us @ vs)))"
proof (induction xs arbitrary: op)
  case (Cons x xs)
  show ?case
    by (auto simp: Cons.IH bindE_assoc split_def intro!: bindE_cong)
qed (auto simp: split_def)

lemma filter_loop_null:
  assumes "None \<in> set (drop i v)" and "length v = i + k" and "out_idx \<le> i"
  shows "filter_loop k should_emit i out_idx op v \<noteq> Inr r"
  using assms
proof (induction k arbitrary: i out_idx op v)
  case (Suc k)
  have d: "drop i v = v ! i # drop (Suc i) v" using Suc.prems(2) by (simp add: Cons_nth_drop_Suc)
  show ?case
  proof (cases "v ! i")
    case (Some t)
    then have n: "None \<in> set (drop (Suc i) v)" using Suc.prems(1) d by auto
    then have "None \<in> set (drop (Suc i) (v[out_idx := Some t]))" using Suc.prems(3) by (simp add: drop_update_cancel)
    then show ?thesis using Some n Suc.prems Suc.IH by (auto simp: res_simps split: if_splits)
  qed (use Suc.prems in simp)
qed simp

lemma cfilter_process_not_null:
  assumes "cfilter_process should_emit eow op d msg = Inr r"
  shows "\<exists>ts. d = map Some ts"
proof -
  have "None \<notin> set d"
    using assms filter_loop_null [of 0 d "length d" 0 should_emit op] by (auto simp: cfilter_process_def res_simps)
  then have "map Some (map the d) = d" by (induction d) auto
  then show ?thesis by metis
qed

lemma each_process_append:
  "each_process f op (xs @ ys) =
     bindE (each_process f op xs) (\<lambda>(op1, us). bindE (each_process f op1 ys) (\<lambda>(op2, vs). Inr (op2, us @ vs)))"
proof (induction xs arbitrary: op)
  case (Cons x xs)
  show ?case
    by (cases x) (auto simp: Cons.IH bindE_assoc split_def intro!: bindE_cong)
qed (auto simp: split_def)

section \<open>Laws of a chain\<close>

lemma run_ops_append:
  "run_ops run (xs @ ys) d m =
     bindE (run_ops run xs d m) (\<lambda>(xs', d', m'). bindE (run_ops run ys d' m') (\<lambda>(ys', d'', m''). Inr (xs' @ ys', d'', m'')))"
proof (induction xs arbitrary: d m)
  case (Cons x xs)
  show ?case
  proof (cases x)
    case (Some op)
    then show ?thesis by (auto simp: Cons.IH bindE_assoc split_def intro!: bindE_cong)
  qed simp
qed (auto simp: split_def)

lemma run_ops_length: "run_ops run os d m = Inr (os', d', m') \<Longrightarrow> length os' = length os"
  by (induction run os d m arbitrary: os' d' m' rule: run_ops.induct) (fastforce simp: res_simps)+

lemma last_index_Some: "last_index p xs = Some i \<Longrightarrow> i < length xs \<and> p (xs ! i) \<and> (\<forall>j < length xs. i < j \<longrightarrow> \<not> p (xs ! j))"
proof (induction xs arbitrary: i)
  case (Cons x xs)
  have none: "last_index p xs = None \<Longrightarrow> \<forall>y \<in> set xs. \<not> p y" by (induction xs) (auto split: option.splits if_splits)
  show ?case
    using Cons none by (auto simp: nth_Cons' split: option.splits if_splits)
qed simp

section \<open>Batches\<close>

text \<open>
  A stream operator treats the tuples one after the other: cutting a batch in two gives the same
  tuples and the same state, as long as no window ends.  A chain of stream operators is one
  again.
\<close>

locale stream_operator =
  fixes run :: "'o op_process"
  assumes msg_kept: "dp_type m \<noteq> END_OF_WINDOW \<Longrightarrow> run op d m = Inr (op', d', m') \<Longrightarrow> m' = m"
    and batch: "dp_type m \<noteq> END_OF_WINDOW \<Longrightarrow> run op d1 m = Inr (op1, u1, m1) \<Longrightarrow> run op1 d2 m = Inr (op2, u2, m2) \<Longrightarrow>
       run op (d1 @ d2) m = Inr (op2, u1 @ u2, m)"
begin

lemma run_ops_msg:
  "dp_type m \<noteq> END_OF_WINDOW \<Longrightarrow> run_ops run os d m = Inr (os', d', m') \<Longrightarrow> m' = m"
proof (induction os arbitrary: d os')
  case (Cons x os)
  then show ?case by (cases x) (auto simp: res_simps dest!: msg_kept)
qed simp

lemma run_ops_batch:
  assumes "dp_type m \<noteq> END_OF_WINDOW" and "run_ops run os d1 m = Inr (os1, u1, m1)"
    and "run_ops run os1 d2 m = Inr (os2, u2, m2)"
  shows "run_ops run os (d1 @ d2) m = Inr (os2, u1 @ u2, m)"
  using assms(2,3)
proof (induction os arbitrary: d1 d2 os1 os2)
  case (Cons x os)
  obtain op where x: "x = Some op" using Cons.prems(1) by (cases x) auto
  obtain op1 e1 os1' where 1: "run op d1 m = Inr (op1, e1, m)" "run_ops run os e1 m = Inr (os1', u1, m1)"
    "os1 = Some op1 # os1'"
    using Cons.prems(1) x msg_kept [OF assms(1)] by (fastforce simp: res_simps)
  obtain op2 e2 os2' where 2: "run op1 d2 m = Inr (op2, e2, m)" "run_ops run os1' e2 m = Inr (os2', u2, m2)"
    "os2 = Some op2 # os2'"
    using Cons.prems(2) 1(3) msg_kept [OF assms(1)] by (fastforce simp: res_simps)
  show ?case
    using batch [OF assms(1) 1(1) 2(1)] Cons.IH [OF 1(2) 2(2)] 2(3) x by simp
qed simp

lemma chain_batch:
  assumes "dp_type m \<noteq> END_OF_WINDOW" and "chain_process run c d1 m = Inr (c1, u1, m1)"
    and "chain_process run c1 d2 m = Inr (c2, u2, m2)"
  shows "chain_process run c (d1 @ d2) m = Inr (c2, u1 @ u2, m)"
proof -
  obtain os1 where 1: "run_ops run (drop 1 (ops c)) d1 m = Inr (os1, u1, m1)" "c1 = c \<lparr>ops := take 1 (ops c) @ os1\<rparr>"
    using assms(2) by (auto simp: chain_process_def res_simps)
  have l: "drop 1 (ops c1) = os1" "take 1 (ops c1) = take 1 (ops c)"
    using 1(2) run_ops_length [OF 1(1)] by (cases "ops c"; auto)+
  obtain os2 where 2: "run_ops run os1 d2 m = Inr (os2, u2, m2)" "c2 = c1 \<lparr>ops := take 1 (ops c) @ os2\<rparr>"
    using assms(3) l by (auto simp: chain_process_def res_simps)
  show ?thesis using run_ops_batch [OF assms(1) 1(1) 2(1)] 2(2) 1(2) by (simp add: chain_process_def)
qed

end

section \<open>Runs of a timer source\<close>

inductive source_reachable :: "('s \<Rightarrow> (int \<times> 's) res) \<Rightarrow> 's TimerSource \<Rightarrow> bool" for emit_data where
  src_new: "source_reachable emit_data (new_TimerSource s)"
| src_add: "source_reachable emit_data s \<Longrightarrow> source_reachable emit_data (add_chain s)"
| src_start: "source_reachable emit_data s \<Longrightarrow> start_source s = Inr s' \<Longrightarrow> source_reachable emit_data s'"
| src_stop: "source_reachable emit_data s \<Longrightarrow> source_reachable emit_data (chain_stopping s)"
| src_fire: "source_reachable emit_data s \<Longrightarrow> src_armed s > 0 \<Longrightarrow> emit_wrapper emit_data s = Inr s' \<Longrightarrow>
    source_reachable emit_data s'"

lemma source_inv: "source_reachable emit_data s \<Longrightarrow> src_running s \<Longrightarrow> src_chain s \<and> 0 < src_armed s"
proof (induction rule: source_reachable.induct)
  case (src_fire s s')
  then show ?case
    by (auto simp: emit_wrapper_def Let_def res_simps chain_stopping_def split: if_splits)
qed (auto simp: new_TimerSource_def add_chain_def start_source_def chain_stopping_def res_simps split: if_splits)

section \<open>Properties\<close>

text \<open>
  Property C31: the in-place compaction of a filter operator passes on exactly the tuples its
  predicate accepts, in their order, and ends in the state the predicate leaves after seeing all
  of them, whether or not the message ends a window.
\<close>

theorem filter_process_keeps:
  "cfilter_process should_emit no_meta op (map Some ts) msg
     = bindE (keep_tuples should_emit op ts) (\<lambda>(op', us). Inr (op', map Some us, msg))"
  by (rule cfilter_process_keep) (simp add: no_meta_def)

text \<open>
  Property C32: a running timer source always has a callback armed and a chain to send to, so it
  is called again; and once the chain stops, the callbacks still under way produce no data.
\<close>

theorem timer_source_live:
  assumes "source_reachable emit_data s"
  shows "(src_running s \<longrightarrow> 0 < src_armed s \<and> src_chain s)
     \<and> emit_wrapper emit_data (chain_stopping s)
         = Inr ((chain_stopping s) \<lparr>src_armed := src_armed s - 1\<rparr>)"
  using source_inv [OF assms] by (simp add: emit_wrapper_def chain_stopping_def)

definition count_down :: "int \<Rightarrow> (int \<times> int) res" where
  "count_down n = Inr (if n = 0 then - 1 else 5, n - 1)"

definition started_source :: "int TimerSource" where
  "started_source = \<lparr>src_running = True, src_armed = 1, src_chain = True, emitter = 2\<rparr>"

theorem timer_source_live_witness:
  "0 < src_armed started_source \<and> src_chain started_source
     \<and> emit_wrapper count_down (chain_stopping started_source)
         = Inr ((chain_stopping started_source) \<lparr>src_armed := src_armed started_source - 1\<rparr>)"
proof -
  have "start_source (add_chain (new_TimerSource 2)) = Inr started_source"
    by (simp add: start_source_def add_chain_def new_TimerSource_def started_source_def)
  then have "source_reachable count_down started_source" by (rule src_start [OF src_add [OF src_new]])
  then show ?thesis using timer_source_live [of count_down started_source] by (simp add: started_source_def)
qed

end
