(* ===== verification/JS_Sketch.thy ===== *)
theory JS_Sketch
  imports JS_Types
begin

text \<open>
  The count-min sketches (\<^verbatim>\<open>aggregates/cm_sketch.h\<close>, \<^verbatim>\<open>aggregates/cm_sketch.cc\<close>) and
  the Jenkins hash (\<^verbatim>\<open>aggregates/hashes.cc\<close>).  Three things the C++ standard or the
  library leaves open are parameters: \<^verbatim>\<open>shr\<close>, the result of the 64-bit right
  shift in the hash whose count may exceed 63; \<^verbatim>\<open>shl\<close>, the result of the 32-bit
  left shift in an assertion whose count wraps below zero; and
  \<^verbatim>\<open>rand_hashes seed d\<close>, the pairs the seeded generator yields.  No theorem
  assumes anything about \<^verbatim>\<open>shr\<close>.
\<close>

unbundle bit_operations_syntax

section \<open>Jenkins one-at-a-time hash\<close>

definition jenkins_step :: "u8 \<Rightarrow> u32 \<Rightarrow> u32" where
  "jenkins_step c h0 =
     (let h1 = h0 + scast c; h2 = h1 + push_bit 10 h1 in xor h2 (drop_bit 6 h2))"

definition jenkins_one_at_a_time_hash :: "u8 list \<Rightarrow> u32" where
  "jenkins_one_at_a_time_hash key =
     (let h = fold jenkins_step key 0;
          h1 = h + push_bit 3 h;
          h2 = xor h1 (drop_bit 11 h1)
      in h2 + push_bit 15 h2)"

section \<open>CMSketch\<close>

type_synonym shr64 = "u64 \<Rightarrow> u64 \<Rightarrow> u64"
type_synonym shl32 = "u32 \<Rightarrow> u32 \<Rightarrow> u32"

record CMSketch =
  matrix :: "u32 list"
  hashes :: "(int \<times> int) list"
  width :: nat
  cm_depth :: nat
  total_count :: u32

definition cm_hash :: "shr64 \<Rightarrow> CMSketch \<Rightarrow> nat \<Rightarrow> int \<Rightarrow> nat res" where
  "cm_hash shr s hashid v = bindE (nthE (hashes s) hashid) (\<lambda>(a, b).
     let r = word_of_int a * word_of_int v + word_of_int b :: u64
     in Inr (unat (and (shr r (31 + r)) (of_nat (width s - 1)))))"

definition cm_val_index :: "CMSketch \<Rightarrow> nat \<Rightarrow> nat \<Rightarrow> nat res" where
  "cm_val_index s w d = assertE (w < width s) (assertE (d < cm_depth s) (Inr (d * width s + w)))"

definition cm_add_cell :: "shr64 \<Rightarrow> int \<Rightarrow> int \<Rightarrow> nat \<Rightarrow> CMSketch \<Rightarrow> CMSketch res" where
  "cm_add_cell shr v nv i s =
     bindE (cm_hash shr s i v) (\<lambda>h. bindE (cm_val_index s h i) (\<lambda>k.
     bindE (nthE (matrix s) k) (\<lambda>x. Inr (s \<lparr>matrix := (matrix s)[k := x + word_of_int nv]\<rparr>))))"

definition cm_add_item_h :: "shr64 \<Rightarrow> int \<Rightarrow> int \<Rightarrow> CMSketch \<Rightarrow> CMSketch res" where
  "cm_add_item_h shr data_as_int nv s =
     foldE (cm_add_cell shr data_as_int nv) [0..<cm_depth s]
       (s \<lparr>total_count := total_count s + word_of_int nv\<rparr>)"

definition cm_add_item :: "shr64 \<Rightarrow> u8 list \<Rightarrow> int \<Rightarrow> CMSketch \<Rightarrow> CMSketch res" where
  "cm_add_item shr dat nv s = cm_add_item_h shr (sint (jenkins_one_at_a_time_hash dat)) nv s"

definition cm_cell :: "shr64 \<Rightarrow> CMSketch \<Rightarrow> int \<Rightarrow> nat \<Rightarrow> u32 res" where
  "cm_cell shr s v i = bindE (cm_hash shr s i v) (\<lambda>h. bindE (cm_val_index s h i) (nthE (matrix s)))"

definition cm_estimate_h :: "shr64 \<Rightarrow> int \<Rightarrow> CMSketch \<Rightarrow> u32 res" where
  "cm_estimate_h shr v s =
     foldE (\<lambda>i m. bindE (cm_cell shr s v i) (\<lambda>x. Inr (if m < x then m else x))) [0..<cm_depth s] (- 1)"

definition cm_estimate :: "shr64 \<Rightarrow> u8 list \<Rightarrow> CMSketch \<Rightarrow> u32 res" where
  "cm_estimate shr dat s = cm_estimate_h shr (sint (jenkins_one_at_a_time_hash dat)) s"

definition cm_init :: "(int \<Rightarrow> nat \<Rightarrow> (int \<times> int) list) \<Rightarrow> nat \<Rightarrow> nat \<Rightarrow> int \<Rightarrow> CMSketch res" where
  "cm_init rand_hashes w d seed = assertE (2 < w \<and> w < 12)
     (Inr \<lparr>matrix = replicate (2 ^ w * d) 0, hashes = rand_hashes seed d, width = 2 ^ w, cm_depth = d,
        total_count = 0\<rparr>)"

definition cm_size :: "CMSketch \<Rightarrow> nat" where
  "cm_size s = cm_depth s * (2 + width s) * 4"

definition cm_matrix_bytes :: "CMSketch \<Rightarrow> nat" where
  "cm_matrix_bytes s = cm_depth s * width s * 4"

definition cm_can_accept :: "CMSketch \<Rightarrow> CMSketch \<Rightarrow> bool" where
  "cm_can_accept s rhs \<longleftrightarrow> width s = width rhs \<and>
     (\<forall>i < min (cm_depth s) (cm_depth rhs). hashes rhs ! i = hashes s ! i)"

definition cm_merge_in :: "CMSketch \<Rightarrow> CMSketch \<Rightarrow> bool \<times> CMSketch" where
  "cm_merge_in s rhs =
     (if \<not> cm_can_accept s rhs then (False, s)
      else let d = min (cm_depth s) (cm_depth rhs); n = d * width s in
        (True, s \<lparr>cm_depth := d, matrix := take n (matrix rhs) @ drop n (matrix s),
                 total_count := total_count s + total_count rhs\<rparr>))"

section \<open>CMMultiSketch\<close>

definition BITS_PER_LEVEL :: nat where "BITS_PER_LEVEL = 2"
definition EXACT_LEVELS :: nat where "EXACT_LEVELS = 6"
definition LEVELS :: nat where "LEVELS = 10"

record CMMultiSketch =
  panes :: "CMSketch list"
  exact_counts :: "u32 list list"
  ms_rand_seed :: int

definition exact_l_size :: "nat \<Rightarrow> nat" where
  "exact_l_size lev = 2 ^ ((EXACT_LEVELS - lev) * BITS_PER_LEVEL)"

definition new_CMMultiSketch ::
  "(int \<Rightarrow> nat \<Rightarrow> (int \<times> int) list) \<Rightarrow> nat \<Rightarrow> nat \<Rightarrow> int \<Rightarrow> CMMultiSketch res" where
  "new_CMMultiSketch rand_hashes w d seed =
     bindE (mapE (\<lambda>i. cm_init rand_hashes w d seed) [0..<LEVELS]) (\<lambda>ps.
     Inr \<lparr>panes = ps, exact_counts = map (\<lambda>i. replicate (exact_l_size i) 0) [0..<EXACT_LEVELS],
       ms_rand_seed = seed\<rparr>)"

text \<open>The two loops of \<^verbatim>\<open>add_item\<close>; the value is shifted right after each level.\<close>

fun ms_add_panes :: "shr64 \<Rightarrow> int \<Rightarrow> CMSketch list \<Rightarrow> int \<Rightarrow> (CMSketch list \<times> int) res" where
  "ms_add_panes shr c [] v = Inr ([], v)"
| "ms_add_panes shr c (p # ps) v =
     bindE (cm_add_item_h shr v c p) (\<lambda>p'.
     bindE (ms_add_panes shr c ps (drop_bit BITS_PER_LEVEL v)) (\<lambda>(ps', v'). Inr (p' # ps', v')))"

fun ms_add_exact :: "u32 \<Rightarrow> nat \<Rightarrow> u32 list list \<Rightarrow> int \<Rightarrow> u32 list list res" where
  "ms_add_exact c i [] v = Inr []"
| "ms_add_exact c i (xs # xss) v =
     assertE (unat (word_of_int v :: u32) < exact_l_size i)
     (bindE (nthE xs (nat v)) (\<lambda>x.
      bindE (ms_add_exact c (Suc i) xss (drop_bit BITS_PER_LEVEL v)) (\<lambda>yss.
      Inr (xs[nat v := x + c] # yss))))"

definition ms_add_item :: "shr64 \<Rightarrow> int \<Rightarrow> u32 \<Rightarrow> CMMultiSketch \<Rightarrow> CMMultiSketch res" where
  "ms_add_item shr data_as_int nv s =
     bindE (ms_add_panes shr (sint nv) (panes s) data_as_int) (\<lambda>(ps, v).
     bindE (ms_add_exact nv 0 (exact_counts s) v) (\<lambda>ex.
     Inr (s \<lparr>panes := ps, exact_counts := ex\<rparr>)))"

definition ms_estimate_point :: "shr64 \<Rightarrow> int \<Rightarrow> CMMultiSketch \<Rightarrow> u32 res" where
  "ms_estimate_point shr v s = bindE (nthE (panes s) 0) (cm_estimate_h shr v)"

definition ms_pop_seen :: "CMMultiSketch \<Rightarrow> u32 res" where
  "ms_pop_seen s = bindE (nthE (panes s) 0) (\<lambda>p. Inr (total_count p))"

text \<open>
  The assertion of \<^verbatim>\<open>contrib_from_level\<close> shifts by \<^verbatim>\<open>(EXACT_LEVELS - level) * BITS_PER_LEVEL\<close>
  in unsigned arithmetic, which wraps for every level it is evaluated at.
\<close>

definition contrib_from_level :: "shr64 \<Rightarrow> shl32 \<Rightarrow> CMMultiSketch \<Rightarrow> nat \<Rightarrow> u32 \<Rightarrow> u32 res" where
  "contrib_from_level shr shl s level dyad_start =
     (if level \<ge> LEVELS then
        assertE (dyad_start < shl 1 ((of_nat EXACT_LEVELS - of_nat level) * of_nat BITS_PER_LEVEL))
        (bindE (nthE (exact_counts s) (level - LEVELS)) (\<lambda>xs. nthE xs (unat dyad_start)))
      else bindE (nthE (panes s) level) (cm_estimate_h shr (sint dyad_start)))"

definition add_contribs :: "shr64 \<Rightarrow> shl32 \<Rightarrow> CMMultiSketch \<Rightarrow> nat \<Rightarrow> nat list \<Rightarrow> u32 \<Rightarrow> u32 res" where
  "add_contribs shr shl s level js acc0 =
     foldE (\<lambda>j acc. bindE (contrib_from_level shr shl s level (of_nat j)) (\<lambda>c. Inr (acc + c))) js acc0"

text \<open>The body of \<^verbatim>\<open>hash_range\<close>, from a level on; the first argument counts the levels left.\<close>

primrec range_loop :: "shr64 \<Rightarrow> shl32 \<Rightarrow> CMMultiSketch \<Rightarrow> nat \<Rightarrow> nat \<Rightarrow> nat \<Rightarrow> nat \<Rightarrow> u32 \<Rightarrow> u32 res" where
  "range_loop shr shl s 0 level lower upper acc0 = Inr acc0"
| "range_loop shr shl s (Suc k) level lower upper acc0 =
     (let base = lower - lower mod 4;
          next_level_start = (if lower \<noteq> base then base + 4 else base);
          next_level_end = upper - upper mod 4
      in if next_level_start < next_level_end then
           assertE (next_level_start - lower < 4)
           (bindE (add_contribs shr shl s level [lower..<next_level_start] acc0) (\<lambda>acc1.
            assertE (upper - next_level_end < 4)
            (bindE (add_contribs shr shl s level [next_level_end..<Suc upper] acc1) (\<lambda>acc2.
             range_loop shr shl s k (Suc level) (next_level_start div 4) ((next_level_end - 1) div 4) acc2))))
         else assertE (unat (of_nat upper - of_nat lower :: u32) < 8)
                (add_contribs shr shl s level [lower..<Suc upper] acc0))"

definition hash_range :: "shr64 \<Rightarrow> shl32 \<Rightarrow> CMMultiSketch \<Rightarrow> nat \<Rightarrow> nat \<Rightarrow> u32 res" where
  "hash_range shr shl s lower upper =
     bindE (range_loop shr shl s (LEVELS + EXACT_LEVELS) 0 lower upper 0) (\<lambda>acc0.
     bindE (ms_pop_seen s) (\<lambda>tot. Inr (if acc0 > tot then tot else acc0)))"

text \<open>
  The two bisections of \<^verbatim>\<open>quantile\<close>: \<^verbatim>\<open>go_low\<close> is the test that lowers the upper bound.  The
  loop leaves after 42 rounds at the latest.
\<close>

fun bisect :: "(int \<Rightarrow> bool res) \<Rightarrow> nat \<Rightarrow> int \<Rightarrow> int \<Rightarrow> int res" where
  "bisect test 0 lo hi = Inr hi"
| "bisect test (Suc k) lo hi =
     (if hi > lo + 1 then
        let mid = hi div 2 + lo div 2 in
        bindE (test mid) (\<lambda>t. if t then bisect test k lo mid else bisect test k mid hi)
      else Inr hi)"

definition ms_quantile :: "shr64 \<Rightarrow> shl32 \<Rightarrow> CMMultiSketch \<Rightarrow> double \<Rightarrow> int res" where
  "ms_quantile shr shl s q = assertE (dle (Fin 0) q \<and> dle q (Fin 1))
     (bindE (ms_pop_seen s) (\<lambda>tot.
      bindE (dtrunc 0 4294967295 (dmul (dof_u32 tot) q)) (\<lambda>target1.
      bindE (bisect (\<lambda>mid. bindE (hash_range shr shl s 0 (nat mid)) (\<lambda>r. Inr (uint r \<ge> target1))) 42 0 INT_MAX) (\<lambda>left.
      bindE (dtrunc 0 4294967295 (dmul (dof_u32 tot) (dsub (Fin 1) q))) (\<lambda>target2.
      bindE (bisect (\<lambda>mid. bindE (hash_range shr shl s (nat mid) (nat INT_MAX)) (\<lambda>r. Inr (uint r \<le> target2))) 42 0 INT_MAX) (\<lambda>right.
      bindE (intE (left + right)) (\<lambda>t. Inr (t div 2))))))))"

definition ms_size :: "CMMultiSketch \<Rightarrow> nat" where
  "ms_size s = sum_list (map cm_size (panes s)) + sum_list (map (\<lambda>i. exact_l_size i * 4) [0..<EXACT_LEVELS])"

definition ms_merge_in :: "CMMultiSketch \<Rightarrow> CMMultiSketch \<Rightarrow> bool \<times> CMMultiSketch" where
  "ms_merge_in s rhs =
     (if \<not> list_all2 cm_can_accept (panes s) (panes rhs) then (False, s)
      else (True, s \<lparr>panes := map2 (\<lambda>p q. snd (cm_merge_in p q)) (panes s) (panes rhs),
                    exact_counts := map2 (map2 (+)) (exact_counts s) (exact_counts rhs)\<rparr>))"

text \<open>Serialisation copies the arrays as bytes, in the host's little-endian order.\<close>

definition word_to_bytes :: "u32 \<Rightarrow> u8 list" where
  "word_to_bytes w = [ucast w, ucast (drop_bit 8 w), ucast (drop_bit 16 w), ucast (drop_bit 24 w)]"

definition words_to_bytes :: "u32 list \<Rightarrow> u8 list" where
  "words_to_bytes ws = concat (map word_to_bytes ws)"

definition bytes_to_word :: "u8 \<Rightarrow> u8 \<Rightarrow> u8 \<Rightarrow> u8 \<Rightarrow> u32" where
  "bytes_to_word a b c d = or (ucast a) (or (push_bit 8 (ucast b)) (or (push_bit 16 (ucast c)) (push_bit 24 (ucast d))))"

fun bytes_to_words :: "u8 list \<Rightarrow> u32 list" where
  "bytes_to_words (a # b # c # d # rest) = bytes_to_word a b c d # bytes_to_words rest"
| "bytes_to_words _ = []"

fun log_w_loop :: "nat \<Rightarrow> nat" where
  "log_w_loop width_raw = (if width_raw > 1 then Suc (log_w_loop (width_raw div 2)) else 0)"

declare log_w_loop.simps [simp del]

definition ms_serialize_to :: "CMMultiSketch \<Rightarrow> JSSummary \<Rightarrow> JSSummary res" where
  "ms_serialize_to s q = bindE (nthE (panes s) 0) (\<lambda>p0.
     let old = (case sketch q of None \<Rightarrow> \<lparr>sk_d = 0, sk_w = 0, rand_seed = 0, sk_exact_levels = [],
                  sk_panes = [], sk_total_items = 0\<rparr> | Some x \<Rightarrow> x)
     in Inr (q \<lparr>sketch := Some (old \<lparr>sk_d := of_nat (cm_depth p0), sk_w := of_nat (log_w_loop (width p0)),
          rand_seed := word_of_int (ms_rand_seed s), sk_total_items := total_count p0,
          sk_exact_levels := sk_exact_levels old @ map words_to_bytes (exact_counts s),
          sk_panes := sk_panes old @ map (\<lambda>p. words_to_bytes (matrix p)) (panes s)\<rparr>)\<rparr>))"

text \<open>\<^verbatim>\<open>fillIn\<close> does not set the member rand_seed: \<^verbatim>\<open>junk\<close> is what the memory holds.\<close>

definition ms_fillIn ::
  "(int \<Rightarrow> nat \<Rightarrow> (int \<times> int) list) \<Rightarrow> int \<Rightarrow> JSCMSketch \<Rightarrow> CMMultiSketch res" where
  "ms_fillIn rand_hashes junk ser =
     bindE (mapE (\<lambda>i. bindE (nthE (sk_exact_levels ser) i) (\<lambda>bs.
              assertE (length bs = 4 * exact_l_size i) (Inr (bytes_to_words bs)))) [0..<EXACT_LEVELS]) (\<lambda>ex.
     bindE (mapE (\<lambda>i. bindE (cm_init rand_hashes (unat (sk_w ser)) (unat (sk_d ser)) (sint (rand_seed ser))) (\<lambda>p.
              bindE (nthE (sk_panes ser) i) (\<lambda>bs.
              checkE (cm_matrix_bytes p \<le> length bs) OutOfBounds
                (Inr (p \<lparr>total_count := sk_total_items ser,
                         matrix := bytes_to_words (take (cm_matrix_bytes p) bs)\<rparr>))))) [0..<LEVELS]) (\<lambda>ps.
     Inr \<lparr>panes = ps, exact_counts = ex, ms_rand_seed = junk\<rparr>))"

section \<open>A pane represents a multiset\<close>

definition wf_pane :: "CMSketch \<Rightarrow> bool" where
  "wf_pane s \<longleftrightarrow> length (matrix s) = cm_depth s * width s \<and> length (hashes s) = cm_depth s
     \<and> (\<exists>w. width s = 2 ^ w \<and> w < 32)"

text \<open>The column a value falls into in a row.\<close>

definition col :: "shr64 \<Rightarrow> CMSketch \<Rightarrow> nat \<Rightarrow> int \<Rightarrow> nat" where
  "col shr s i v = (let r = word_of_int (fst (hashes s ! i)) * word_of_int v + word_of_int (snd (hashes s ! i)) :: u64
     in unat (and (shr r (31 + r)) (of_nat (width s - 1))))"

lemma cm_hash_col: "i < length (hashes s) \<Longrightarrow> cm_hash shr s i v = Inr (col shr s i v)"
  by (simp add: cm_hash_def col_def Let_def split: prod.splits)

lemma unat_and_mask: assumes "w < 32" shows "unat (and x (of_nat (2 ^ w - 1)) :: u64) < 2 ^ w"
proof -
  have "(2::nat) ^ w \<le> 2 ^ 32" using assms by (intro power_increasing) auto
  then have "unat (of_nat (2 ^ w - 1) :: u64) = 2 ^ w - 1" by (intro unat_of_nat64) simp
  moreover have "and x (of_nat (2 ^ w - 1)) \<le> (of_nat (2 ^ w - 1) :: u64)"
    by (simp add: word_and_le1)
  ultimately show ?thesis by (simp add: word_le_nat_alt)
    (metis One_nat_def Suc_pred le_imp_less_Suc less_numeral_extra(1) zero_less_numeral zero_less_power)
qed

lemma col_less: "wf_pane s \<Longrightarrow> col shr s i v < width s"
  using unat_and_mask by (auto simp: wf_pane_def col_def Let_def)

lemma cell_index_less: "i < d \<Longrightarrow> j < (w::nat) \<Longrightarrow> i * w + j < d * w"
  by (metis add.commute mult_less_cancel2 nat_add_left_cancel_less less_le_trans Suc_leI mult_Suc mult_le_mono1 nat_less_le)

lemma cell_index_inj: "j < (w::nat) \<Longrightarrow> j' < w \<Longrightarrow> i * w + j = i' * w + j' \<longleftrightarrow> i = i' \<and> j = j'"
  by (metis add_left_cancel div_mult_self3 div_less add.right_neutral mult_0 not_less_zero)

definition hits :: "shr64 \<Rightarrow> CMSketch \<Rightarrow> int multiset \<Rightarrow> nat \<Rightarrow> nat \<Rightarrow> nat" where
  "hits shr s M i j = size (filter_mset (\<lambda>x. col shr s i x = j) M)"

definition pane_represents :: "shr64 \<Rightarrow> CMSketch \<Rightarrow> int multiset \<Rightarrow> bool" where
  "pane_represents shr s M \<longleftrightarrow> wf_pane s \<and> total_count s = of_nat (size M)
     \<and> (\<forall>i < cm_depth s. \<forall>j < width s. matrix s ! (i * width s + j) = of_nat (hits shr s M i j))"

lemma hits_cong: "hashes s' = hashes s \<Longrightarrow> width s' = width s \<Longrightarrow> hits shr s' M i j = hits shr s M i j"
  by (simp add: hits_def col_def)

lemma cm_init_represents:
  "cm_init rh w d seed = Inr s \<Longrightarrow> length (rh seed d) = d \<Longrightarrow> pane_represents shr s {#}"
  by (auto simp: cm_init_def res_simps pane_represents_def wf_pane_def hits_def mult.commute cell_index_less
      intro!: exI [of _ w])

text \<open>One row of the update.\<close>

lemma cm_add_cell_ok:
  assumes "wf_pane s" and "i < cm_depth s"
  shows "cm_add_cell shr v c i s = Inr (s \<lparr>matrix := (matrix s)[i * width s + col shr s i v :=
     matrix s ! (i * width s + col shr s i v) + word_of_int c]\<rparr>)"
  using assms col_less [OF assms(1), of shr i v] cell_index_less [of i "cm_depth s" "col shr s i v" "width s"]
  by (simp add: cm_add_cell_def wf_pane_def cm_hash_col cm_val_index_def)

lemma cm_add_rows:
  assumes "wf_pane s" and "n \<le> cm_depth s"
  shows "\<exists>s'. foldE (cm_add_cell shr v c) [0..<n] s = Inr s' \<and> wf_pane s'
     \<and> hashes s' = hashes s \<and> width s' = width s \<and> cm_depth s' = cm_depth s \<and> total_count s' = total_count s
     \<and> (\<forall>i < cm_depth s. \<forall>j < width s. matrix s' ! (i * width s + j) =
         matrix s ! (i * width s + j) + (if i < n \<and> j = col shr s i v then word_of_int c else 0))"
  using assms(2)
proof (induction n)
  case 0
  then show ?case using assms(1) by simp
next
  case (Suc n)
  then obtain s1 where s1: "foldE (cm_add_cell shr v c) [0..<n] s = Inr s1" "wf_pane s1"
    "hashes s1 = hashes s" "width s1 = width s" "cm_depth s1 = cm_depth s" "total_count s1 = total_count s"
    "\<forall>i < cm_depth s. \<forall>j < width s. matrix s1 ! (i * width s + j) =
       matrix s ! (i * width s + j) + (if i < n \<and> j = col shr s i v then word_of_int c else 0)"
    by auto
  have col: "col shr s1 n v = col shr s n v" by (simp add: col_def s1)
  let ?k = "n * width s + col shr s n v"
  let ?s2 = "s1 \<lparr>matrix := (matrix s1)[?k := matrix s1 ! ?k + word_of_int c]\<rparr>"
  have step: "cm_add_cell shr v c n s1 = Inr ?s2"
    using cm_add_cell_ok [OF s1(2), of n shr v c] Suc.prems by (simp add: s1 col)
  have lt: "col shr s n v < width s" by (rule col_less [OF assms(1)])
  have "matrix ?s2 ! (i * width s + j) =
       matrix s ! (i * width s + j) + (if i < Suc n \<and> j = col shr s i v then word_of_int c else 0)"
    if ij: "i < cm_depth s" "j < width s" for i j
  proof -
    have "i * width s + j < length (matrix s1)"
      using s1(2) ij cell_index_less by (simp add: wf_pane_def s1(4,5))
    then show ?thesis
      using s1(7) ij cell_index_inj [OF ij(2) lt, of i n] by (auto simp: nth_list_update less_Suc_eq)
  qed
  moreover have "wf_pane ?s2" using s1(2) by (simp add: wf_pane_def)
  ultimately show ?case using s1 step by (simp add: foldE_append)
qed

lemma cm_add_item_represents:
  assumes "pane_represents shr s M"
  shows "\<exists>s'. cm_add_item_h shr v (int n) s = Inr s' \<and> pane_represents shr s' (M + replicate_mset n v)
     \<and> hashes s' = hashes s \<and> width s' = width s \<and> cm_depth s' = cm_depth s"
proof -
  let ?s0 = "s \<lparr>total_count := total_count s + of_nat n\<rparr>"
  have wf: "wf_pane ?s0" using assms by (simp add: pane_represents_def wf_pane_def)
  obtain s' where s': "foldE (cm_add_cell shr v (int n)) [0..<cm_depth s] ?s0 = Inr s'" "wf_pane s'"
    "hashes s' = hashes s" "width s' = width s" "cm_depth s' = cm_depth s" "total_count s' = total_count s + of_nat n"
    "\<forall>i < cm_depth s. \<forall>j < width s. matrix s' ! (i * width s + j) =
       matrix s ! (i * width s + j) + (if i < cm_depth s \<and> j = col shr ?s0 i v then of_nat n else 0)"
    using cm_add_rows [OF wf, of "cm_depth s" shr v "int n"] by auto
  have c0: "col shr ?s0 = col shr s" by (simp add: fun_eq_iff col_def)
  have hp: "hits shr s (M + replicate_mset n v) i j = hits shr s M i j + (if col shr s i v = j then n else 0)" for i j
    by (induction n) (auto simp: hits_def)
  have "matrix s' ! (i * width s + j) = of_nat (hits shr s (M + replicate_mset n v) i j)"
    if "i < cm_depth s" "j < width s" for i j
    using that s'(7) assms c0 by (auto simp: pane_represents_def hp)
  then have "pane_represents shr s' (M + replicate_mset n v)"
    using s' assms by (simp add: pane_represents_def hits_cong [OF s'(3,4)])
  moreover have "cm_add_item_h shr v (int n) s = Inr s'" using s'(1) by (simp add: cm_add_item_h_def)
  ultimately show ?thesis using s' by blast
qed

section \<open>The estimate bounds the count\<close>

lemma cm_cell_ok:
  assumes "pane_represents shr s M" and "i < cm_depth s"
  shows "cm_cell shr s v i = Inr (of_nat (hits shr s M i (col shr s i v)))"
proof -
  have wf: "wf_pane s" using assms(1) by (simp add: pane_represents_def)
  have lt: "col shr s i v < width s" by (rule col_less [OF wf])
  have "i * width s + col shr s i v < length (matrix s)"
    using cell_index_less [OF assms(2) lt] wf by (simp add: wf_pane_def)
  then show ?thesis using assms lt wf
    by (simp add: cm_cell_def cm_hash_col wf_pane_def cm_val_index_def pane_represents_def)
qed

lemma hits_ge_count: "count M v \<le> hits shr s M i (col shr s i v)"
  by (induction M) (auto simp: hits_def)

lemma hits_le_size: "hits shr s M i j \<le> size M"
  by (simp add: hits_def size_filter_mset_lesseq)

lemma cm_estimate_bounds:
  assumes "pane_represents shr s M" and "size M < 4294967296" and "n \<le> cm_depth s"
  shows "\<exists>m. foldE (\<lambda>i m. bindE (cm_cell shr s v i) (\<lambda>x. Inr (if m < x then m else x))) [0..<n] (- 1) = Inr m
     \<and> count M v \<le> unat m \<and> (0 < n \<longrightarrow> unat m \<le> size M)"
  using assms(3)
proof (induction n)
  case 0
  have "unat (- 1 :: u32) = 4294967295" by (simp add: unsigned_minus_1_eq_mask mask_eq_exp_minus_1)
  then show ?case using count_le_size [of M v] assms(2) by simp
next
  case (Suc n)
  then obtain m where m: "foldE (\<lambda>i m. bindE (cm_cell shr s v i) (\<lambda>x. Inr (if m < x then m else x))) [0..<n] (- 1) = Inr m"
    "count M v \<le> unat m" by auto
  let ?h = "hits shr s M n (col shr s n v)"
  have h: "unat (of_nat ?h :: u32) = ?h" using hits_le_size [of shr s M n] assms(2) by (intro unat_of_nat32) (meson le_less_trans)
  have "cm_cell shr s v n = Inr (of_nat ?h)" using cm_cell_ok [OF assms(1)] Suc.prems by simp
  then show ?case using m h hits_ge_count [of M v shr s n] hits_le_size [of shr s M n "col shr s n v"]
    by (auto simp: foldE_append word_less_nat_alt)
qed

lemma cm_estimate_h_bounds:
  assumes "pane_represents shr s M" and "size M < 4294967296" and "0 < cm_depth s"
  shows "\<exists>m. cm_estimate_h shr v s = Inr m \<and> count M v \<le> unat m \<and> unat m \<le> size M"
  using cm_estimate_bounds [OF assms(1,2) order_refl, of v] assms(3) by (simp add: cm_estimate_h_def)

section \<open>The multi-level sketch represents a multiset\<close>

definition shifted :: "nat \<Rightarrow> int multiset \<Rightarrow> int multiset" where
  "shifted k M = image_mset (\<lambda>x. x div 4 ^ k) M"

definition ms_represents :: "shr64 \<Rightarrow> CMMultiSketch \<Rightarrow> int multiset \<Rightarrow> bool" where
  "ms_represents shr s M \<longleftrightarrow> length (panes s) = LEVELS \<and> length (exact_counts s) = EXACT_LEVELS
     \<and> (\<forall>k < LEVELS. pane_represents shr (panes s ! k) (shifted k M) \<and> 0 < cm_depth (panes s ! k))
     \<and> (\<forall>i < EXACT_LEVELS. length (exact_counts s ! i) = exact_l_size i
          \<and> (\<forall>j < exact_l_size i. exact_counts s ! i ! j = of_nat (count (shifted (LEVELS + i) M) (int j))))
     \<and> (\<forall>x \<in># M. 0 \<le> x \<and> x \<le> INT_MAX)"

lemma shifted_0 [simp]: "shifted 0 M = M"
  by (simp add: shifted_def)

lemma shifted_size [simp]: "size (shifted k M) = size M"
  by (simp add: shifted_def)

lemma shifted_plus: "shifted k (M + replicate_mset n v) = shifted k M + replicate_mset n (v div 4 ^ k)"
  by (simp add: shifted_def)

lemma div4_Suc: "x div 4 ^ Suc k = x div 4 ^ k div (4 :: int)"
  by (simp add: power_Suc2 zdiv_zmult2_eq del: power_Suc)

lemma shifted_Suc: "shifted (Suc k) M = image_mset (\<lambda>y. y div 4) (shifted k M)"
  by (simp add: shifted_def image_mset.compositionality comp_def div4_Suc del: power_Suc)

lemma shift_level: "drop_bit BITS_PER_LEVEL (v div 4 ^ k :: int) = v div 4 ^ Suc k"
  by (simp add: BITS_PER_LEVEL_def drop_bit_eq_div div4_Suc del: power_Suc)

lemma ms_new_represents:
  assumes "new_CMMultiSketch rh w d seed = Inr s" and "length (rh seed d) = d" and "0 < d"
  shows "ms_represents shr s {#}"
proof -
  obtain ps where ps: "mapE (\<lambda>i. cm_init rh w d seed) [0..<LEVELS] = Inr ps"
    and s: "s = \<lparr>panes = ps, exact_counts = map (\<lambda>i. replicate (exact_l_size i) 0) [0..<EXACT_LEVELS], ms_rand_seed = seed\<rparr>"
    using assms(1) by (auto simp: new_CMMultiSketch_def res_simps)
  have wd: "2 < w \<and> w < 12" using ps by (cases "2 < w \<and> w < 12") (auto simp: cm_init_def LEVELS_def upt_rec res_simps)
  then obtain p where p: "cm_init rh w d seed = Inr p" "cm_depth p = d" by (auto simp: cm_init_def)
  have "mapE (\<lambda>i. cm_init rh w d seed) [0..<LEVELS] = Inr (map (\<lambda>_. p) [0..<LEVELS])"
    using p(1) by (intro mapE_Inr) auto
  then have "ps = replicate LEVELS p" using ps by (simp add: map_replicate_const)
  then show ?thesis using cm_init_represents [of rh w d seed p shr] p assms(2,3)
    by (simp add: ms_represents_def s shifted_def)
qed

lemma ms_add_panes_ok:
  assumes "\<forall>i < length ps. pane_represents shr (ps ! i) (shifted (k + i) M)"
  shows "\<exists>ps'. ms_add_panes shr (int n) ps (v div 4 ^ k) = Inr (ps', v div 4 ^ (k + length ps)) \<and> length ps' = length ps
     \<and> (\<forall>i < length ps. pane_represents shr (ps' ! i) (shifted (k + i) (M + replicate_mset n v))
          \<and> cm_depth (ps' ! i) = cm_depth (ps ! i))"
  using assms
proof (induction ps arbitrary: k)
  case (Cons p ps)
  have "pane_represents shr p (shifted k M)" using Cons.prems by force
  then obtain p' where p': "cm_add_item_h shr (v div 4 ^ k) (int n) p = Inr p'"
    "pane_represents shr p' (shifted k (M + replicate_mset n v))" "cm_depth p' = cm_depth p"
    using cm_add_item_represents [of shr p _ "v div 4 ^ k" n] by (auto simp: shifted_plus)
  have "\<forall>i < length ps. pane_represents shr (ps ! i) (shifted (Suc k + i) M)"
    using Cons.prems by (metis Suc_less_eq add_Suc add_Suc_right length_Cons nth_Cons_Suc)
  then obtain ps' where ps': "ms_add_panes shr (int n) ps (v div 4 ^ Suc k) = Inr (ps', v div 4 ^ (Suc k + length ps))"
    "length ps' = length ps"
    "\<forall>i < length ps. pane_represents shr (ps' ! i) (shifted (Suc k + i) (M + replicate_mset n v))
       \<and> cm_depth (ps' ! i) = cm_depth (ps ! i)"
    using Cons.IH [of "Suc k"] by auto
  have "pane_represents shr ((p' # ps') ! i) (shifted (k + i) (M + replicate_mset n v))
       \<and> cm_depth ((p' # ps') ! i) = cm_depth ((p # ps) ! i)" if "i < length (p # ps)" for i
    using that p' ps'(3) by (cases i) auto
  moreover have "ms_add_panes shr (int n) (p # ps) (v div 4 ^ k) = Inr (p' # ps', v div 4 ^ (k + length (p # ps)))"
    using p'(1) ps'(1) by (simp add: shift_level del: power_Suc)
  ultimately show ?case using ps'(2) by auto
qed simp

lemma ms_add_exact_ok:
  assumes "\<forall>i < length xss. length (xss ! i) = exact_l_size (k + i)
      \<and> (\<forall>j < exact_l_size (k + i). xss ! i ! j = of_nat (count (shifted (LEVELS + k + i) M) (int j)))"
    and "\<forall>i < length xss. v div 4 ^ (LEVELS + k + i) < int (exact_l_size (k + i))" and "0 \<le> v"
    and "k + length xss \<le> EXACT_LEVELS"
  shows "\<exists>yss. ms_add_exact (of_nat n) k xss (v div 4 ^ (LEVELS + k)) = Inr yss \<and> length yss = length xss
     \<and> (\<forall>i < length xss. length (yss ! i) = exact_l_size (k + i)
      \<and> (\<forall>j < exact_l_size (k + i). yss ! i ! j = of_nat (count (shifted (LEVELS + k + i) (M + replicate_mset n v)) (int j))))"
  using assms
proof (induction xss arbitrary: k)
  case (Cons xs xss)
  let ?v = "v div 4 ^ (LEVELS + k)"
  have xs: "length xs = exact_l_size k" "\<forall>j < exact_l_size k. xs ! j = of_nat (count (shifted (LEVELS + k) M) (int j))"
    using Cons.prems(1) by force+
  have v0: "0 \<le> ?v" using Cons.prems(3) by (simp add: pos_imp_zdiv_nonneg_iff)
  have vk: "?v < int (exact_l_size k)" using Cons.prems(2) by force
  have "exact_l_size k \<le> 4096"
  proof -
    have "(2::nat) ^ ((EXACT_LEVELS - k) * BITS_PER_LEVEL) \<le> 2 ^ 12"
      by (intro power_increasing) (auto simp: EXACT_LEVELS_def BITS_PER_LEVEL_def)
    then show ?thesis by (simp add: exact_l_size_def)
  qed
  then have nv: "nat ?v < exact_l_size k" "nat ?v < 4294967296" using vk v0 by linarith+
  have "(word_of_int ?v :: u32) = of_nat (nat ?v)" using v0 by simp
  then have w: "unat (word_of_int ?v :: u32) = nat ?v" using nv(2) by (simp add: unat_of_nat32)
  have "\<forall>i < length xss. length (xss ! i) = exact_l_size (Suc k + i)
      \<and> (\<forall>j < exact_l_size (Suc k + i). xss ! i ! j = of_nat (count (shifted (LEVELS + Suc k + i) M) (int j)))"
    using Cons.prems(1) by (metis Suc_less_eq add_Suc add_Suc_right length_Cons nth_Cons_Suc)
  moreover have "\<forall>i < length xss. v div 4 ^ (LEVELS + Suc k + i) < int (exact_l_size (Suc k + i))"
    using Cons.prems(2) by (metis Suc_less_eq add_Suc add_Suc_right length_Cons)
  ultimately obtain yss where yss: "ms_add_exact (of_nat n) (Suc k) xss (v div 4 ^ (LEVELS + Suc k)) = Inr yss"
    "length yss = length xss" "\<forall>i < length xss. length (yss ! i) = exact_l_size (Suc k + i)
      \<and> (\<forall>j < exact_l_size (Suc k + i). yss ! i ! j = of_nat (count (shifted (LEVELS + Suc k + i) (M + replicate_mset n v)) (int j)))"
    using Cons.IH [of "Suc k"] Cons.prems(3,4) by auto
  let ?ys = "xs[nat ?v := xs ! nat ?v + of_nat n]"
  have ys: "?ys ! j = of_nat (count (shifted (LEVELS + k) (M + replicate_mset n v)) (int j))" if "j < exact_l_size k" for j
    using that xs nv(1) v0 by (auto simp: shifted_plus nth_list_update)
  have "ms_add_exact (of_nat n) k (xs # xss) ?v = Inr (?ys # yss)"
    using w nv(1) xs(1) yss(1) by (simp add: shift_level del: power_Suc)
  moreover have "length ((?ys # yss) ! i) = exact_l_size (k + i)
      \<and> (\<forall>j < exact_l_size (k + i). (?ys # yss) ! i ! j = of_nat (count (shifted (LEVELS + k + i) (M + replicate_mset n v)) (int j)))"
    if "i < length (xs # xss)" for i
    using that ys xs(1) yss(3) by (cases i) auto
  ultimately show ?case using yss(2) by (intro exI [of _ "?ys # yss"]) simp
qed simp

lemma exact_l_size_4: "i \<le> EXACT_LEVELS \<Longrightarrow> exact_l_size i = 4 ^ (EXACT_LEVELS - i)"
  by (simp add: exact_l_size_def BITS_PER_LEVEL_def power_mult [symmetric] mult.commute [of _ 2] power_mult)

lemma int_div_less: assumes "(v::int) < n * 4 ^ k" shows "v div 4 ^ k < n"
proof (rule ccontr)
  assume "\<not> v div 4 ^ k < n"
  then have "n * 4 ^ k \<le> v div 4 ^ k * 4 ^ k" by (intro mult_right_mono) auto
  also have "\<dots> \<le> v" by (simp add: minus_mod_eq_div_mult [symmetric])
  finally show False using assms by simp
qed

lemma value_fits_level:
  assumes "0 \<le> v" and "v \<le> INT_MAX" and "i < EXACT_LEVELS"
  shows "v div 4 ^ (LEVELS + i) < int (exact_l_size i)"
proof -
  have "int (exact_l_size i) * 4 ^ (LEVELS + i) = 4 ^ (LEVELS + EXACT_LEVELS)"
    using assms(3) by (simp add: exact_l_size_4 power_add [symmetric])
  also have "\<dots> = 4294967296" by (simp add: LEVELS_def EXACT_LEVELS_def)
  finally have "v < int (exact_l_size i) * 4 ^ (LEVELS + i)" using assms(2) by (simp add: INT_MAX_def)
  then show ?thesis by (rule int_div_less)
qed

lemma ms_add_item_represents:
  assumes "ms_represents shr s M" and "0 \<le> v" and "v \<le> INT_MAX" and "unat c < 2147483648"
  shows "\<exists>s'. ms_add_item shr v c s = Inr s' \<and> ms_represents shr s' (M + replicate_mset (unat c) v)"
proof -
  let ?M = "M + replicate_mset (unat c) v"
  have sc: "sint c = int (unat c)" "c = of_nat (unat c)" using sint_small32 [OF assms(4)] by simp_all
  have "\<forall>i < length (panes s). pane_represents shr (panes s ! i) (shifted (0 + i) M)"
    using assms(1) by (simp add: ms_represents_def)
  then obtain ps where ps: "ms_add_panes shr (int (unat c)) (panes s) (v div 4 ^ 0) = Inr (ps, v div 4 ^ (0 + length (panes s)))"
    "length ps = length (panes s)" "\<forall>i < length (panes s). pane_represents shr (ps ! i) (shifted (0 + i) ?M)
       \<and> cm_depth (ps ! i) = cm_depth (panes s ! i)"
    using ms_add_panes_ok by blast
  have pl: "length (panes s) = LEVELS" "length (exact_counts s) = EXACT_LEVELS"
    using assms(1) by (auto simp: ms_represents_def)
  have "\<forall>i < length (exact_counts s). length (exact_counts s ! i) = exact_l_size (0 + i)
      \<and> (\<forall>j < exact_l_size (0 + i). exact_counts s ! i ! j = of_nat (count (shifted (LEVELS + 0 + i) M) (int j)))"
    using assms(1) by (simp add: ms_represents_def)
  moreover have "\<forall>i < length (exact_counts s). v div 4 ^ (LEVELS + 0 + i) < int (exact_l_size (0 + i))"
    using value_fits_level [OF assms(2,3)] pl(2) by simp
  ultimately obtain ex where ex: "ms_add_exact (of_nat (unat c)) 0 (exact_counts s) (v div 4 ^ (LEVELS + 0)) = Inr ex"
    "length ex = EXACT_LEVELS" "\<forall>i < EXACT_LEVELS. length (ex ! i) = exact_l_size (0 + i)
      \<and> (\<forall>j < exact_l_size (0 + i). ex ! i ! j = of_nat (count (shifted (LEVELS + 0 + i) ?M) (int j)))"
    using ms_add_exact_ok [of "exact_counts s" 0 M v "unat c"] pl(2) assms(2) by auto
  have "ms_add_item shr v c s = Inr (s \<lparr>panes := ps, exact_counts := ex\<rparr>)"
    using ps(1) ex(1) pl(1) by (simp add: ms_add_item_def sc(1))
  moreover have "ms_represents shr (s \<lparr>panes := ps, exact_counts := ex\<rparr>) ?M"
    using assms(1-3) ps(2,3) ex(2,3) pl by (auto simp: ms_represents_def split: if_splits)
  ultimately show ?thesis by blast
qed

section \<open>Range queries\<close>

text \<open>What the assertion's shift must give: at least the size of the level it guards.\<close>

definition range_assert_ok :: "shl32 \<Rightarrow> bool" where
  "range_assert_ok shl \<longleftrightarrow> (\<forall>level. LEVELS \<le> level \<longrightarrow> level < LEVELS + EXACT_LEVELS \<longrightarrow>
     4 ^ (LEVELS + EXACT_LEVELS - level) \<le> unat (shl 1 ((of_nat EXACT_LEVELS - of_nat level) * of_nat BITS_PER_LEVEL)))"

definition rng :: "int multiset \<Rightarrow> nat \<Rightarrow> nat \<Rightarrow> nat" where
  "rng N a b = size (filter_mset (\<lambda>y. int a \<le> y \<and> y < int b) N)"

lemma rng_split: "a \<le> b \<Longrightarrow> b \<le> c \<Longrightarrow> rng N a c = rng N a b + rng N b c"
  by (induction N) (auto simp: rng_def)

lemma rng_counts: "rng N a b = (\<Sum>j \<in> {a..<b}. count N (int j))"
proof (induction N)
  case (add y N)
  have "(\<Sum>j \<in> {a..<b}. count (add_mset y N) (int j)) = (\<Sum>j \<in> {a..<b}. count N (int j) + (if y = int j then 1 else 0))"
    by (intro sum.cong) auto
  also have "\<dots> = rng N a b + (\<Sum>j \<in> {a..<b}. if y = int j then 1 else 0)"
    using add by (simp add: sum.distrib)
  also have "(\<Sum>j \<in> {a..<b}. if y = int j then 1 else 0) = (if int a \<le> y \<and> y < int b then 1 else 0 :: nat)"
  proof (cases "0 \<le> y")
    case True
    then have "(\<Sum>j \<in> {a..<b}. if y = int j then 1 else 0 :: nat) = (\<Sum>j \<in> {a..<b}. if nat y = j then 1 else 0)"
      by (intro sum.cong) auto
    then show ?thesis using True by auto
  next
    case False
    then have "\<forall>j \<in> {a..<b}. y \<noteq> int j" by auto
    then show ?thesis using False by auto
  qed
  finally show ?case by (auto simp: rng_def)
qed (simp add: rng_def)

lemma rng_div4: "rng (image_mset (\<lambda>y. y div 4) N) a b = rng N (4 * a) (4 * b)"
proof -
  have "int a \<le> y div 4 \<and> y div 4 < int b \<longleftrightarrow> int (4 * a) \<le> y \<and> y < int (4 * b)" for y :: int by auto
  then show ?thesis by (simp add: rng_def filter_mset_image_mset)
qed

lemma contrib_bounds:
  assumes "ms_represents shr s M" and "range_assert_ok shl" and "size M < 4294967296"
    and "level < LEVELS + EXACT_LEVELS" and "j < 4 ^ (LEVELS + EXACT_LEVELS - level)"
  shows "\<exists>c. contrib_from_level shr shl s level (of_nat j) = Inr c
     \<and> count (shifted level M) (int j) \<le> unat c \<and> unat c \<le> size M"
proof -
  have "(4::nat) ^ (LEVELS + EXACT_LEVELS - level) \<le> 4 ^ 16"
    by (intro power_increasing) (auto simp: LEVELS_def EXACT_LEVELS_def)
  then have j: "j < 4294967296" using assms(5) by simp
  note uj = unat_of_nat32 [OF j]
  show ?thesis
  proof (cases "level \<ge> LEVELS")
    case True
    let ?i = "level - LEVELS"
    have i: "?i < EXACT_LEVELS" "LEVELS + ?i = level" using True assms(4) by auto
    have sz: "exact_l_size ?i = 4 ^ (LEVELS + EXACT_LEVELS - level)"
      using i True by (simp add: exact_l_size_4)
    have "of_nat j < shl 1 ((of_nat EXACT_LEVELS - of_nat level) * of_nat BITS_PER_LEVEL)"
      using assms(2,4,5) True uj unfolding range_assert_ok_def word_less_nat_alt by fastforce
    then have c: "contrib_from_level shr shl s level (of_nat j) = Inr (exact_counts s ! ?i ! j)"
      using True assms(1,5) i sz uj by (simp add: contrib_from_level_def ms_represents_def)
    have "exact_counts s ! ?i ! j = of_nat (count (shifted level M) (int j))"
      using assms(1,5) i sz by (auto simp: ms_represents_def)
    moreover have "count (shifted level M) (int j) \<le> size M" using count_le_size [of "shifted level M"] by simp
    ultimately show ?thesis using c assms(3) by (simp add: unat_of_nat32)
  next
    case False
    then have p: "pane_represents shr (panes s ! level) (shifted level M)" "0 < cm_depth (panes s ! level)"
      "level < length (panes s)" using assms(1) by (auto simp: ms_represents_def)
    let ?v = "sint (of_nat j :: u32)"
    obtain m where m: "cm_estimate_h shr ?v (panes s ! level) = Inr m" "count (shifted level M) ?v \<le> unat m" "unat m \<le> size M"
      using cm_estimate_h_bounds [OF p(1) _ p(2), of ?v] assms(3) by auto
    have "count (shifted level M) (int j) \<le> unat m"
    proof (cases "j < 2147483648")
      case True
      then have "?v = int j" using sint_small32 [of "of_nat j"] uj by simp
      then show ?thesis using m(2) by simp
    next
      case F: False
      have "y < int j" if y: "y \<in># shifted level M" for y
      proof -
        obtain x where "x \<in># M" "y = x div 4 ^ level" using y by (auto simp: shifted_def)
        then have x: "0 \<le> x" "x \<le> INT_MAX" "y = x div 4 ^ level" using assms(1) by (auto simp: ms_represents_def)
        have "(x + 1) * 1 \<le> (x + 1) * 4 ^ level" using x(1) by (intro mult_left_mono) auto
        then have "x < (x + 1) * 4 ^ level" by (rule less_le_trans [rotated]) simp
        then have "x div 4 ^ level < x + 1" by (rule int_div_less)
        then show ?thesis using F x(2,3) by (simp add: INT_MAX_def)
      qed
      then have "count (shifted level M) (int j) = 0" by (metis less_irrefl not_in_iff)
      then show ?thesis by simp
    qed
    then show ?thesis using m(1,3) False p(3) by (simp add: contrib_from_level_def)
  qed
qed

lemma add_contribs_bounds:
  assumes "ms_represents shr s M" and "range_assert_ok shl" and "size M < 4294967296"
    and "level < LEVELS + EXACT_LEVELS" and "\<forall>j \<in> set js. j < 4 ^ (LEVELS + EXACT_LEVELS - level)"
    and "unat acc + length js * size M < 4294967296"
  shows "\<exists>r. add_contribs shr shl s level js acc = Inr r
     \<and> unat acc + sum_list (map (\<lambda>j. count (shifted level M) (int j)) js) \<le> unat r
     \<and> unat r \<le> unat acc + length js * size M"
  using assms(5,6)
proof (induction js arbitrary: acc)
  case Nil
  then show ?case by (simp add: add_contribs_def)
next
  case (Cons j js)
  obtain c where c: "contrib_from_level shr shl s level (of_nat j) = Inr c"
    "count (shifted level M) (int j) \<le> unat c" "unat c \<le> size M"
    using contrib_bounds [OF assms(1-4)] Cons.prems(1) by auto
  have u: "unat (acc + c) = unat acc + unat c" using c(3) Cons.prems(2) by (intro unat_add_noov32) auto
  obtain r where r: "add_contribs shr shl s level js (acc + c) = Inr r"
     "unat (acc + c) + sum_list (map (\<lambda>j. count (shifted level M) (int j)) js) \<le> unat r"
     "unat r \<le> unat (acc + c) + length js * size M"
    using Cons.IH [of "acc + c"] Cons.prems u c(3) by auto
  then show ?case using c u by (auto simp: add_contribs_def)
qed


lemma range_loop_bounds:
  assumes "ms_represents shr s M" and "range_assert_ok shl"
  shows "0 < k \<Longrightarrow> level + k = LEVELS + EXACT_LEVELS \<Longrightarrow> lower \<le> upper \<Longrightarrow> upper < 4 ^ k \<Longrightarrow>
     unat acc + 8 * k * size M < 4294967296 \<Longrightarrow>
     \<exists>r. range_loop shr shl s k level lower upper acc = Inr r
       \<and> unat acc + rng (shifted level M) lower (Suc upper) \<le> unat r
       \<and> unat r \<le> unat acc + 8 * k * size M"
proof (induction k arbitrary: level lower upper acc)
  case (Suc k)
  let ?N = "shifted level M"
  define base where "base = lower - lower mod 4"
  define st where "st = (if lower \<noteq> base then base + 4 else base)"
  define en where "en = upper - upper mod 4"
  have lvl: "level < LEVELS + EXACT_LEVELS" "LEVELS + EXACT_LEVELS - level = Suc k" using Suc.prems(2) by auto
  have "1 * size M \<le> (8 * Suc k) * size M" by (intro mult_right_mono) auto
  then have M: "size M < 4294967296" using Suc.prems(5) by linarith
  have be: "base = 4 * (lower div 4)" "en = 4 * (upper div 4)"
    by (simp_all add: base_def en_def minus_mod_eq_mult_div)
  have "4 dvd base" "4 dvd en" unfolding be by simp_all
  then have b4: "4 dvd st" "4 dvd en" by (simp_all add: st_def)
  have "base \<le> lower" "lower < base + 4" using be(1) by linarith+
  then have st: "lower \<le> st" "st < lower + 4" by (auto simp: st_def)
  have en: "en \<le> upper" "upper < en + 4" using be(2) by linarith+
  note ac = add_contribs_bounds [OF assms M lvl(1)]
  have bud: "unat acc + 8 * size M + 8 * k * size M < 4294967296" using Suc.prems(5) by (simp add: algebra_simps)
  show ?case
  proof (cases "st < en")
    case True
    obtain a b where ab: "st = 4 * a" "en = 4 * b" using b4 by (auto elim!: dvdE)
    have "a < b" using True ab by simp
    have len1: "length [lower..<st] \<le> 3" "length [en..<Suc upper] \<le> 4" using st en by auto
    have up: "\<forall>j \<in> set [lower..<st]. j < 4 ^ (LEVELS + EXACT_LEVELS - level)"
      "\<forall>j \<in> set [en..<Suc upper]. j < 4 ^ (LEVELS + EXACT_LEVELS - level)"
      using Suc.prems(4) True en lvl(2) by auto
    have "length [lower..<st] * size M \<le> 3 * size M" "length [en..<Suc upper] * size M \<le> 4 * size M"
      using len1 by (intro mult_right_mono; simp)+
    note lens = this
    have c1: "unat acc + length [lower..<st] * size M < 4294967296" using lens(1) bud by linarith
    obtain r1 where r1: "add_contribs shr shl s level [lower..<st] acc = Inr r1"
      "unat acc + rng ?N lower st \<le> unat r1" "unat r1 \<le> unat acc + length [lower..<st] * size M"
      using ac [OF up(1) c1] unfolding rng_counts interv_sum_list_conv_sum_set_nat set_upt by blast
    have c2: "unat r1 + length [en..<Suc upper] * size M < 4294967296" using lens r1(3) bud by linarith
    obtain r2 where r2: "add_contribs shr shl s level [en..<Suc upper] r1 = Inr r2"
      "unat r1 + rng ?N en (Suc upper) \<le> unat r2" "unat r2 \<le> unat r1 + length [en..<Suc upper] * size M"
      using ac [OF up(2) c2] unfolding rng_counts interv_sum_list_conv_sum_set_nat set_upt by blast
    have r2u: "unat r2 \<le> unat acc + 7 * size M" using r1(3) r2(3) lens by linarith
    have eb: "(en - 1) div 4 = b - 1" "st div 4 = a" using ab \<open>a < b\<close> by auto
    have "4 * b \<le> upper" using ab en by simp
    then have "b - 1 < 4 ^ k" "0 < k" using Suc.prems(4) \<open>a < b\<close> by (auto intro: gr0I)
    then obtain r where r: "range_loop shr shl s k (Suc level) a (b - 1) r2 = Inr r"
      "unat r2 + rng (shifted (Suc level) M) a (Suc (b - 1)) \<le> unat r" "unat r \<le> unat r2 + 8 * k * size M"
      using Suc.IH [of "Suc level" a "b - 1" r2] Suc.prems(2) \<open>a < b\<close> r2u bud by force
    have "rng (shifted (Suc level) M) a (Suc (b - 1)) = rng ?N st en"
      using \<open>a < b\<close> by (simp add: shifted_Suc rng_div4 ab)
    moreover have "rng ?N lower (Suc upper) = rng ?N lower st + rng ?N st en + rng ?N en (Suc upper)"
      using rng_split [of lower st "Suc upper" ?N] rng_split [of st en "Suc upper" ?N] st en True by simp
    moreover have "st - lower < 4" "upper - en < 4" using st en by linarith+
    then have "range_loop shr shl s (Suc k) level lower upper acc = Inr r"
      using True r1(1) r2(1) r(1) eb
      by (simp add: Let_def base_def [symmetric] st_def [symmetric] en_def [symmetric] del: upt_Suc)
    moreover have "unat r \<le> unat acc + 8 * Suc k * size M" using r(3) r2u by (simp add: algebra_simps)
    ultimately show ?thesis using r1(2) r2(2) r(2) by (intro exI [of _ r]) linarith
  next
    case False
    have small: "upper - lower < 8" using False st en by linarith
    have "(4::nat) ^ Suc k \<le> 4 ^ 16" using lvl(2) by (intro power_increasing) (auto simp: LEVELS_def EXACT_LEVELS_def)
    then have "(of_nat upper - of_nat lower :: u32) = of_nat (upper - lower)"
      using Suc.prems(3) by (simp add: of_nat_diff)
    then have as: "unat (of_nat upper - of_nat lower :: u32) < 8" using small by (simp add: unat_of_nat32)
    have up: "\<forall>j \<in> set [lower..<Suc upper]. j < 4 ^ (LEVELS + EXACT_LEVELS - level)" using Suc.prems(4) lvl(2) by auto
    have ll: "length [lower..<Suc upper] * size M \<le> 8 * size M" using small by (intro mult_right_mono) auto
    then have c: "unat acc + length [lower..<Suc upper] * size M < 4294967296" using bud by linarith
    obtain r where r: "add_contribs shr shl s level [lower..<Suc upper] acc = Inr r"
      "unat acc + rng ?N lower (Suc upper) \<le> unat r" "unat r \<le> unat acc + length [lower..<Suc upper] * size M"
      using ac [OF up c] unfolding rng_counts interv_sum_list_conv_sum_set_nat set_upt by blast
    moreover have "8 * Suc k * size M = 8 * size M + 8 * k * size M" by (simp add: algebra_simps)
    then have "unat r \<le> unat acc + 8 * Suc k * size M" using r(3) ll by linarith
    ultimately have "\<exists>r. add_contribs shr shl s level [lower..<Suc upper] acc = Inr r
      \<and> unat acc + rng ?N lower (Suc upper) \<le> unat r \<and> unat r \<le> unat acc + 8 * Suc k * size M" by blast
    then show ?thesis using False as
      by (simp add: Let_def base_def [symmetric] st_def [symmetric] en_def [symmetric] del: upt_Suc)
  qed
qed simp

lemma hash_range_bounds:
  assumes "ms_represents shr s M" and "range_assert_ok shl" and "lower \<le> upper" and "upper < 4294967296"
    and "128 * size M < 4294967296"
  shows "\<exists>r. hash_range shr shl s lower upper = Inr r
     \<and> size (filter_mset (\<lambda>x. int lower \<le> x \<and> x \<le> int upper) M) \<le> unat r \<and> unat r \<le> size M"
proof -
  have up: "upper < 4 ^ (LEVELS + EXACT_LEVELS)" using assms(4) by (simp add: LEVELS_def EXACT_LEVELS_def)
  have bud: "unat (0 :: u32) + 8 * (LEVELS + EXACT_LEVELS) * size M < 4294967296"
    using assms(5) by (simp add: LEVELS_def EXACT_LEVELS_def)
  obtain r where r: "range_loop shr shl s (LEVELS + EXACT_LEVELS) 0 lower upper 0 = Inr r"
    "rng (shifted 0 M) lower (Suc upper) \<le> unat r"
    using range_loop_bounds [OF assms(1,2) _ _ assms(3) up bud, of 0] by (auto simp: LEVELS_def)
  have p0: "pane_represents shr (panes s ! 0) (shifted 0 M)" "0 < length (panes s)"
    using assms(1) by (force simp: ms_represents_def LEVELS_def)+
  then have tot: "ms_pop_seen s = Inr (of_nat (size M))" by (simp add: ms_pop_seen_def pane_represents_def)
  have ut: "unat (of_nat (size M) :: u32) = size M" using assms(5) by (simp add: unat_of_nat32)
  have rg: "rng (shifted 0 M) lower (Suc upper) = size (filter_mset (\<lambda>x. int lower \<le> x \<and> x \<le> int upper) M)"
  proof -
    have "x < int (Suc upper) \<longleftrightarrow> x \<le> int upper" for x by auto
    then show ?thesis by (simp add: rng_def shifted_def)
  qed
  have le: "size (filter_mset (\<lambda>x. int lower \<le> x \<and> x \<le> int upper) M) \<le> size M" by (rule size_filter_mset_lesseq)
  show ?thesis
  proof (cases "r > of_nat (size M)")
    case True
    then show ?thesis using r(1) tot ut le by (simp add: hash_range_def)
  next
    case False
    then have "unat r \<le> size M" using ut by (simp add: word_less_nat_alt not_less)
    then show ?thesis using r tot rg False by (simp add: hash_range_def)
  qed
qed

lemma bisect_total: "(\<And>m. lo \<le> m \<Longrightarrow> m \<le> hi \<Longrightarrow> is_ok (test m)) \<Longrightarrow> 0 \<le> lo \<Longrightarrow> lo \<le> hi \<Longrightarrow>
    \<exists>r. bisect test k lo hi = Inr r \<and> lo \<le> r \<and> r \<le> hi"
proof (induction k arbitrary: lo hi)
  case (Suc k)
  show ?case
  proof (cases "hi > lo + 1")
    case True
    let ?m = "hi div 2 + lo div 2"
    have m: "lo \<le> ?m" "?m \<le> hi" using True Suc.prems(2) by linarith+
    obtain t where t: "test ?m = Inr t" using Suc.prems(1) [OF m] by (auto simp: is_ok_iff)
    show ?thesis
    proof (cases t)
      case b: True
      obtain r where "bisect test k lo ?m = Inr r" "lo \<le> r" "r \<le> ?m"
        using Suc.IH [of lo ?m] Suc.prems m by auto
      then show ?thesis using True t b m by (auto simp: Let_def)
    next
      case b: False
      obtain r where "bisect test k ?m hi = Inr r" "?m \<le> r" "r \<le> hi"
        using Suc.IH [of ?m hi] Suc.prems m by auto
      then show ?thesis using True t b m by (auto simp: Let_def)
    qed
  next
    case False
    then show ?thesis using Suc.prems by auto
  qed
qed simp

section \<open>Serialisation\<close>

lemma bytes_to_word_to_bytes:
  "bytes_to_word (ucast w) (ucast (drop_bit 8 w)) (ucast (drop_bit 16 w)) (ucast (drop_bit 24 w)) = w"
proof (rule bit_word_eqI)
  fix n assume n: "n < LENGTH(32)"
  consider "n < 8" | "8 \<le> n" "n < 16" | "16 \<le> n" "n < 24" | "24 \<le> n" by linarith
  then show "bit (bytes_to_word (ucast w) (ucast (drop_bit 8 w)) (ucast (drop_bit 16 w)) (ucast (drop_bit 24 w))) n = bit w n"
    using n by cases (auto simp: bytes_to_word_def bit_or_iff bit_push_bit_iff bit_ucast_iff bit_drop_bit_eq)
qed

lemma bytes_to_words_to_bytes: "bytes_to_words (words_to_bytes ws) = ws"
  by (induction ws) (auto simp: words_to_bytes_def word_to_bytes_def bytes_to_word_to_bytes)

lemma words_to_bytes_length: "length (words_to_bytes ws) = 4 * length ws"
  by (induction ws) (auto simp: words_to_bytes_def word_to_bytes_def)

lemma log_w_loop_pow: "log_w_loop (2 ^ w) = w"
proof (induction w)
  case 0
  then show ?case by (simp add: log_w_loop.simps)
next
  case (Suc w)
  have "(1::nat) \<le> 2 ^ w" by simp
  then have "(1::nat) < 2 ^ Suc w" unfolding power_Suc by linarith
  then show ?case using Suc by (subst log_w_loop.simps) simp
qed

text \<open>The parameters a sketch was made with; all its panes have counted the same items.\<close>

definition ms_params :: "(int \<Rightarrow> nat \<Rightarrow> (int \<times> int) list) \<Rightarrow> nat \<Rightarrow> nat \<Rightarrow> CMMultiSketch \<Rightarrow> bool" where
  "ms_params rh w d s \<longleftrightarrow> 2 < w \<and> w < 12 \<and> d < 4294967296 \<and> in_int (ms_rand_seed s)
     \<and> length (panes s) = LEVELS \<and> length (exact_counts s) = EXACT_LEVELS
     \<and> (\<forall>i < EXACT_LEVELS. length (exact_counts s ! i) = exact_l_size i)
     \<and> (\<forall>p \<in> set (panes s). hashes p = rh (ms_rand_seed s) d \<and> width p = 2 ^ w \<and> cm_depth p = d
          \<and> length (matrix p) = d * 2 ^ w \<and> total_count p = total_count (panes s ! 0))"

lemma cm_refill:
  assumes "hashes p = rh seed d" and "width p = 2 ^ w" and "cm_depth p = d" and "length (matrix p) = d * 2 ^ w"
    and "2 < w" and "w < 12"
  shows "\<exists>p0. cm_init rh w d seed = Inr p0 \<and> cm_matrix_bytes p0 = length (words_to_bytes (matrix p))
     \<and> p0 \<lparr>total_count := total_count p, matrix := matrix p\<rparr> = p"
  using assms by (cases p) (auto simp: cm_init_def cm_matrix_bytes_def words_to_bytes_length)

lemma ms_serialize_empty:
  assumes "ms_params rh w d s"
  shows "ms_serialize_to s empty_summary = Inr (empty_summary \<lparr>sketch := Some \<lparr>sk_d = of_nat d, sk_w = of_nat w,
     rand_seed = word_of_int (ms_rand_seed s), sk_exact_levels = map words_to_bytes (exact_counts s),
     sk_panes = map (\<lambda>p. words_to_bytes (matrix p)) (panes s), sk_total_items = total_count (panes s ! 0)\<rparr>\<rparr>)"
proof -
  have "panes s ! 0 \<in> set (panes s)" "0 < length (panes s)" using assms by (auto simp: ms_params_def LEVELS_def)
  then have "cm_depth (panes s ! 0) = d" "width (panes s ! 0) = 2 ^ w" "nthE (panes s) 0 = Inr (panes s ! 0)"
    using assms unfolding ms_params_def by (blast, blast, simp)
  then show ?thesis by (simp add: ms_serialize_to_def log_w_loop_pow empty_summary_def)
qed

lemma ms_fillIn_serialized:
  assumes "ms_params rh w d s"
  shows "ms_fillIn rh junk \<lparr>sk_d = of_nat d, sk_w = of_nat w,
     rand_seed = word_of_int (ms_rand_seed s), sk_exact_levels = map words_to_bytes (exact_counts s),
     sk_panes = map (\<lambda>p. words_to_bytes (matrix p)) (panes s), sk_total_items = total_count (panes s ! 0)\<rparr>
    = Inr (s \<lparr>ms_rand_seed := junk\<rparr>)"
proof -
  have P: "2 < w" "w < 12" "d < 4294967296" "in_int (ms_rand_seed s)" "length (panes s) = LEVELS"
    "length (exact_counts s) = EXACT_LEVELS" "\<forall>i < EXACT_LEVELS. length (exact_counts s ! i) = exact_l_size i"
    using assms by (auto simp: ms_params_def)
  have u: "unat (of_nat d :: u32) = d" "unat (of_nat w :: u32) = w" using P(2,3) by (auto intro!: unat_of_nat32)
  have sd: "sint (word_of_int (ms_rand_seed s) :: u32) = ms_rand_seed s" using to_int32_id [OF P(4)] by (simp add: to_int32_def)
  let ?ex = "\<lambda>i. bindE (nthE (map words_to_bytes (exact_counts s)) i) (\<lambda>bs.
              assertE (length bs = 4 * exact_l_size i) (Inr (bytes_to_words bs)))"
  have "mapE ?ex [0..<EXACT_LEVELS] = Inr (map (\<lambda>i. exact_counts s ! i) [0..<EXACT_LEVELS])"
    using P(6,7) by (intro mapE_Inr) (auto simp: words_to_bytes_length bytes_to_words_to_bytes)
  then have ex: "mapE ?ex [0..<EXACT_LEVELS] = Inr (exact_counts s)" using map_nth [of "exact_counts s"] P(6) by simp
  let ?pn = "\<lambda>i. bindE (cm_init rh w d (ms_rand_seed s)) (\<lambda>p.
              bindE (nthE (map (\<lambda>p. words_to_bytes (matrix p)) (panes s)) i) (\<lambda>bs.
              checkE (cm_matrix_bytes p \<le> length bs) OutOfBounds
                (Inr (p \<lparr>total_count := total_count (panes s ! 0),
                         matrix := bytes_to_words (take (cm_matrix_bytes p) bs)\<rparr>))))"
  have pn1: "?pn i = Inr (panes s ! i)" if i: "i < LEVELS" for i
  proof -
    have "panes s ! i \<in> set (panes s)" using i P(5) by simp
    then obtain p0 where "cm_init rh w d (ms_rand_seed s) = Inr p0"
      "cm_matrix_bytes p0 = length (words_to_bytes (matrix (panes s ! i)))"
      "p0 \<lparr>total_count := total_count (panes s ! i), matrix := matrix (panes s ! i)\<rparr> = panes s ! i"
      "total_count (panes s ! i) = total_count (panes s ! 0)"
      using cm_refill [of "panes s ! i" rh "ms_rand_seed s" d w] assms by (auto simp: ms_params_def)
    then show ?thesis using i P(5) by (simp add: bytes_to_words_to_bytes)
  qed
  have "mapE ?pn [0..<LEVELS] = Inr (map (\<lambda>i. panes s ! i) [0..<LEVELS])" using pn1 by (intro mapE_Inr) auto
  then have pn: "mapE ?pn [0..<LEVELS] = Inr (panes s)" using map_nth [of "panes s"] P(5) by simp
  show ?thesis by (simp add: ms_fillIn_def u sd ex pn)
qed

section \<open>Properties\<close>

lemma ms_add_all_represents:
  assumes "ms_represents shr s M" and "\<forall>x \<in> set xs. 0 \<le> x \<and> x \<le> INT_MAX"
  shows "\<exists>s'. foldE (\<lambda>v. ms_add_item shr v 1) xs s = Inr s' \<and> ms_represents shr s' (M + mset xs)"
  using assms
proof (induction xs arbitrary: s M)
  case (Cons x xs)
  obtain s1 where s1: "ms_add_item shr x 1 s = Inr s1" "ms_represents shr s1 (M + {#x#})"
    using ms_add_item_represents [OF Cons.prems(1), of x 1] Cons.prems(2) by auto
  then show ?case using Cons.IH [OF s1(2)] Cons.prems(2) by auto
qed simp

definition sample_hashes :: "int \<Rightarrow> nat \<Rightarrow> (int \<times> int) list" where
  "sample_hashes seed d = replicate d (3, 5)"

definition shr_x86 :: shr64 where
  "shr_x86 r n = drop_bit (unat (and n 63)) r"

definition shl_x86 :: shl32 where
  "shl_x86 a n = push_bit (unat (and n 31)) a"

lemma new_sketch_total:
  assumes "2 < w" and "w < 12"
  shows "\<exists>s. new_CMMultiSketch rh w d seed = Inr s"
proof -
  obtain p where "cm_init rh w d seed = Inr p" using assms by (auto simp: cm_init_def)
  then have "mapE (\<lambda>i. cm_init rh w d seed) [0..<LEVELS] = Inr (map (\<lambda>i. p) [0..<LEVELS])"
    by (intro mapE_Inr) auto
  then show ?thesis by (simp add: new_CMMultiSketch_def)
qed

lemma shl_x86_ok: "range_assert_ok shl_x86"
  unfolding range_assert_ok_def LEVELS_def EXACT_LEVELS_def BITS_PER_LEVEL_def
proof (intro allI impI)
  fix level :: nat
  assume "10 \<le> level" "level < 10 + 6"
  then have "level = 10 \<or> level = 11 \<or> level = 12 \<or> level = 13 \<or> level = 14 \<or> level = 15" by linarith
  then show "4 ^ (10 + 6 - level) \<le> unat (shl_x86 1 ((of_nat 6 - of_nat level) * of_nat 2))"
    by (elim disjE) (simp_all add: shl_x86_def)
qed

text \<open>
  Property C27: inserting any values that are not negative into a new sketch succeeds, whatever
  the hash functions and the machine's shift, and afterwards the estimate of every value is at
  least its true count and at most the number of values inserted.
\<close>

theorem sketch_estimate_bounds:
  assumes "2 < w" and "w < 12" and "0 < d" and "length (rh seed d) = d"
    and "\<forall>x \<in> set xs. 0 \<le> x \<and> x \<le> INT_MAX" and "length xs < 4294967296"
  shows "\<exists>s s' m. new_CMMultiSketch rh w d seed = Inr s \<and> foldE (\<lambda>v. ms_add_item shr v 1) xs s = Inr s'
     \<and> ms_estimate_point shr v s' = Inr m \<and> count_list xs v \<le> unat m \<and> unat m \<le> length xs"
proof -
  obtain s where s: "new_CMMultiSketch rh w d seed = Inr s" using new_sketch_total [OF assms(1,2)] by blast
  obtain s' where s': "foldE (\<lambda>v. ms_add_item shr v 1) xs s = Inr s'" "ms_represents shr s' (mset xs)"
    using ms_add_all_represents [OF ms_new_represents [OF s assms(4,3)] assms(5)] by auto
  have p: "pane_represents shr (panes s' ! 0) (mset xs)" "0 < cm_depth (panes s' ! 0)" "0 < length (panes s')"
    using s'(2) by (force simp: ms_represents_def LEVELS_def)+
  obtain m where "cm_estimate_h shr v (panes s' ! 0) = Inr m" "count (mset xs) v \<le> unat m" "unat m \<le> size (mset xs)"
    using cm_estimate_h_bounds [OF p(1) _ p(2)] assms(6) by auto
  then show ?thesis using s s'(1) p(3) by (simp add: ms_estimate_point_def count_mset)
qed

theorem sketch_estimate_bounds_witness:
  "\<exists>s s' m. new_CMMultiSketch sample_hashes 4 2 7 = Inr s \<and> foldE (\<lambda>v. ms_add_item shr_x86 v 1) [8, 9, 8] s = Inr s'
     \<and> ms_estimate_point shr_x86 8 s' = Inr m \<and> count_list [8, 9, 8 :: int] 8 \<le> unat m \<and> unat m \<le> length [8, 9, 8 :: int]"
  by (rule sketch_estimate_bounds) (simp_all add: sample_hashes_def INT_MAX_def)

text \<open>
  The dyadic decomposition of a range query is complete: for a sketch that
  represents a multiset of values, hash_range(lower, upper) returns at least the number of values
  in the closed interval and at most the number of all values.
\<close>

theorem sketch_range_bounds:
  assumes "ms_represents shr s M" and "range_assert_ok shl" and "lower \<le> upper" and "upper < 4294967296"
    and "128 * size M < 4294967296"
  shows "\<exists>r. hash_range shr shl s lower upper = Inr r
     \<and> size (filter_mset (\<lambda>x. int lower \<le> x \<and> x \<le> int upper) M) \<le> unat r \<and> unat r \<le> size M"
  by (rule hash_range_bounds [OF assms])

theorem sketch_range_bounds_witness:
  "\<exists>s r. ms_represents shr_x86 s {#5, 1000#} \<and> hash_range shr_x86 shl_x86 s 3 999 = Inr r \<and> 1 \<le> unat r \<and> unat r \<le> 2"
proof -
  obtain s0 where s0: "new_CMMultiSketch sample_hashes 4 2 7 = Inr s0" using new_sketch_total [of 4 sample_hashes 2 7] by auto
  have r0: "ms_represents shr_x86 s0 {#}" by (rule ms_new_represents [OF s0]) (simp_all add: sample_hashes_def)
  obtain s where s: "ms_represents shr_x86 s {#5, 1000#}"
    using ms_add_all_represents [OF r0, of "[5, 1000]"] by (auto simp: INT_MAX_def)
  then show ?thesis using sketch_range_bounds [OF s shl_x86_ok, of 3 999] by auto
qed

text \<open>
  Property C28: a serialised sketch read back has the same panes and exact counts, provided the
  generator yields the same hash functions for the same seed; but the member rand_seed of the
  restored sketch is whatever the memory held.
\<close>

theorem sketch_roundtrip:
  assumes "ms_params rh w d s"
  shows "\<exists>q ser. ms_serialize_to s empty_summary = Inr q \<and> sketch q = Some ser
     \<and> ms_fillIn rh junk ser = Inr (s \<lparr>ms_rand_seed := junk\<rparr>)"
  using ms_serialize_empty [OF assms] ms_fillIn_serialized [OF assms] by simp

definition blank_sketch :: CMMultiSketch where
  "blank_sketch = \<lparr>panes = replicate LEVELS \<lparr>matrix = replicate 16 0, hashes = [(3, 5), (3, 5)], width = 8,
      cm_depth = 2, total_count = 0\<rparr>,
    exact_counts = map (\<lambda>i. replicate (exact_l_size i) 0) [0..<EXACT_LEVELS], ms_rand_seed = 7\<rparr>"

theorem sketch_roundtrip_witness:
  "\<exists>q ser. ms_serialize_to blank_sketch empty_summary = Inr q \<and> sketch q = Some ser
     \<and> ms_fillIn sample_hashes 99 ser = Inr (blank_sketch \<lparr>ms_rand_seed := 99\<rparr>)"
proof (rule sketch_roundtrip [of sample_hashes 3 2])
  have "replicate 2 (3, 5) = [(3, 5), (3 :: int, 5 :: int)]" by (simp add: numeral_2_eq_2)
  then show "ms_params sample_hashes 3 2 blank_sketch"
    by (simp add: ms_params_def blank_sketch_def sample_hashes_def in_int_def INT_MIN_def INT_MAX_def LEVELS_def)
qed

text \<open>
  Merging one sketch into another of the same shape replaces its counts instead of
  adding to them: afterwards every estimate is the estimate of the right-hand side alone, while
  the total claims the sum of both.
\<close>

theorem sketch_merge_overwrites:
  assumes "wf_pane s" and "wf_pane rhs" and "cm_can_accept s rhs" and "cm_depth s = cm_depth rhs"
  shows "\<exists>s'. cm_merge_in s rhs = (True, s') \<and> total_count s' = total_count s + total_count rhs
     \<and> (\<forall>v. cm_estimate_h shr v s' = cm_estimate_h shr v rhs)"
proof -
  let ?s' = "s \<lparr>cm_depth := cm_depth rhs, matrix := matrix rhs, total_count := total_count s + total_count rhs\<rparr>"
  have w: "width s = width rhs" "hashes s = hashes rhs"
    using assms by (auto simp: cm_can_accept_def wf_pane_def intro: nth_equalityI)
  have "take (cm_depth s * width s) (matrix rhs) @ drop (cm_depth s * width s) (matrix s) = matrix rhs"
    using assms w by (simp add: wf_pane_def)
  then have "cm_merge_in s rhs = (True, ?s')" using assms(3,4) by (simp add: cm_merge_in_def Let_def)
  moreover have "cm_cell shr ?s' v i = cm_cell shr rhs v i" for v i
    using w by (simp add: cm_cell_def cm_hash_def cm_val_index_def)
  then have "cm_estimate_h shr v ?s' = cm_estimate_h shr v rhs" for v
    by (simp add: cm_estimate_h_def)
  ultimately show ?thesis by simp
qed

theorem sketch_merge_overwrites_witness:
  "\<exists>s'. cm_merge_in (panes blank_sketch ! 0) (panes blank_sketch ! 1) = (True, s') \<and> total_count s' = 0 + 0
     \<and> (\<forall>v. cm_estimate_h shr_x86 v s' = cm_estimate_h shr_x86 v (panes blank_sketch ! 1))"
proof -
  have "wf_pane (panes blank_sketch ! i)" if "i < 2" for i
    using that by (auto simp: wf_pane_def blank_sketch_def LEVELS_def intro!: exI [of _ 3])
  moreover have "cm_can_accept (panes blank_sketch ! 0) (panes blank_sketch ! 1)"
    "cm_depth (panes blank_sketch ! 0) = cm_depth (panes blank_sketch ! 1)"
    "total_count (panes blank_sketch ! 0) = 0" "total_count (panes blank_sketch ! 1) = 0"
    by (simp_all add: cm_can_accept_def blank_sketch_def LEVELS_def)
  ultimately show ?thesis
    using sketch_merge_overwrites [of "panes blank_sketch ! 0" "panes blank_sketch ! 1" shr_x86] by simp
qed

end
