(* ===== verification/JS_Operators.thy ===== *)
theory JS_Operators
  imports JS_Chain JS_Sketch
begin

text \<open>
  The general-purpose operators (\<^verbatim>\<open>dataplane/base_operators.h\<close>,
  \<^verbatim>\<open>dataplane/base_operators.cc\<close>) and the sampling operators that follow the congestion policy
  (\<^verbatim>\<open>dataplane/variable_sampling.h\<close>, \<^verbatim>\<open>dataplane/variable_sampling.cc\<close>).

  Regular expressions, the CSV tokenizer, the host name, the random generator, the bytes of a
  double in memory and the clock are arguments.  A configuration is a map of strings; where the
  code walks through it in key order it is the sorted list of its entries.
\<close>

section \<open>Parsing fields\<close>

definition parse_with_types :: "string \<Rightarrow> char \<Rightarrow> Element \<Rightarrow> Element res" where
  "parse_with_types s typecode el =
     (if typecode = CHR ''I'' then Inr (el \<lparr>i_val := Some (fst (read_int s))\<rparr>)
      else if typecode = CHR ''D'' then Inr (el \<lparr>d_val := Some (fst (read_double s))\<rparr>)
      else if typecode = CHR ''S'' then Inr (el \<lparr>s_val := Some s\<rparr>)
      else Inl LogFatal)"

definition to_upper :: "string \<Rightarrow> string" where
  "to_upper s = map (\<lambda>c. if (97 :: nat) \<le> of_char c \<and> (of_char c :: nat) \<le> 122 then char_of (of_char c - 32 :: nat) else c) s"

definition to_lower :: "string \<Rightarrow> string" where
  "to_lower s = map (\<lambda>c. if (65 :: nat) \<le> of_char c \<and> (of_char c :: nat) \<le> 90 then char_of (of_char c + 32 :: nat) else c) s"

text \<open>The pattern \<^verbatim>\<open>[SDI]+\<close>.\<close>

definition valid_types :: "string \<Rightarrow> bool" where
  "valid_types s \<longleftrightarrow> s \<noteq> [] \<and> list_all (\<lambda>c. c \<in> set ''SDI'') s"

text \<open>Reading a bool with boolalpha: a failed read stores false.\<close>

definition read_bool :: "string \<Rightarrow> bool" where
  "read_bool s = (let r = skip_blanks s in take 4 r = ''true'')"

section \<open>CFileRead\<close>

definition LINES_PER_EMIT :: nat where "LINES_PER_EMIT = 4000"

text \<open>
  The open file is the text not read yet and whether the stream is still good; \<^verbatim>\<open>None\<close> before
  it is opened.  A getline that reaches the end sets the end-of-file state.
\<close>

record CFileRead =
  f_name :: string
  skip_empty :: bool
  in_file :: "(string \<times> bool) option"
  lineno :: u32

definition configure_file_read :: "op_config \<Rightarrow> CFileRead \<Rightarrow> operator_err_t \<times> CFileRead" where
  "configure_file_read cfg op =
     (let op1 = op \<lparr>f_name := cfg_get cfg ''file''\<rparr> in
      if f_name op1 = [] then (''option '' @ [CHR 0x27] @ ''file'' @ [CHR 0x27] @ '' not specified'', op1)
      else ([], op1 \<lparr>skip_empty := read_bool (to_lower (cfg_get cfg ''skip_empty''))\<rparr>))"

definition newline :: char where "newline = CHR 0x0A"

fun get_line :: "string \<Rightarrow> string \<times> string \<times> bool" where
  "get_line [] = ([], [], False)"
| "get_line (c # cs) = (if c = newline then ([], cs, True)
     else let (l, r, good) = get_line cs in (c # l, r, good))"

definition line_tuple :: "string \<Rightarrow> u32 \<Rightarrow> Tuple" where
  "line_tuple line n = (add_e empty_tuple (string_element line)) \<lparr>version := Some (ucast n)\<rparr>"

fun read_lines :: "nat \<Rightarrow> bool \<Rightarrow> string \<times> bool \<Rightarrow> u32 \<Rightarrow> Tuple list \<times> (string \<times> bool) \<times> u32" where
  "read_lines 0 skip f n = ([], f, n)"
| "read_lines (Suc k) skip (s, good) n =
     (if \<not> good then ([], (s, good), n)
      else let (line, s', good') = get_line s in
        if skip \<and> line = [] then read_lines k skip (s', good') n
        else let (ts, f', n') = read_lines k skip (s', good') (n + 1) in (line_tuple line n # ts, f', n'))"

text \<open>
  \<^verbatim>\<open>emit_data\<close>: the delay to the next call (negative to stop), the tuples sent to the chain
  (None when the file cannot be opened and nothing is sent), and the new state.
\<close>

definition emit_file_data :: "(string \<Rightarrow> string option) \<Rightarrow> CFileRead \<Rightarrow> int \<times> Tuple list option \<times> CFileRead" where
  "emit_file_data open_file op =
     (case (case in_file op of Some f \<Rightarrow> Some f | None \<Rightarrow> map_option (\<lambda>s. (s, True)) (open_file (f_name op))) of
        None \<Rightarrow> (- 1, None, op)
      | Some f \<Rightarrow> (let (ts, f', n) = read_lines LINES_PER_EMIT (skip_empty op) f (lineno op) in
          (if snd f' then 0 else - 1, Some ts, op \<lparr>in_file := Some f', lineno := n\<rparr>)))"

section \<open>ExtendOperator\<close>

definition process_extend :: "Element list \<Rightarrow> Tuple \<Rightarrow> Tuple" where
  "process_extend new_data t = t \<lparr>e := e t @ new_data\<rparr>"

text \<open>
  The entries walked through run from key \<^verbatim>\<open>0\<close> up to the first key after the colon.  Without a
  key \<^verbatim>\<open>0\<close> the walk starts at the end of the map, which it dereferences.
\<close>

definition extend_entries :: "(string \<times> string) list \<Rightarrow> string list res" where
  "extend_entries cfg = (case dropWhile (\<lambda>(k, v). k \<noteq> ''0'') cfg of
      [] \<Rightarrow> Inl OutOfBounds
    | rest \<Rightarrow> Inr (map snd (takeWhile (\<lambda>(k, v). \<not> str_less '':'' k) rest)))"

fun extend_data :: "string \<Rightarrow> string \<Rightarrow> string list \<Rightarrow> Element list res" where
  "extend_data host [] vs = Inr []"
| "extend_data host (ty # tys) [] = Inr []"
| "extend_data host (ty # tys) (v # vs) =
     bindE (if v = ''${HOSTNAME}'' then assertE (ty = CHR ''S'') (Inr (string_element host))
            else parse_with_types v ty empty_element) (\<lambda>el.
     bindE (extend_data host tys vs) (\<lambda>els. Inr (el # els)))"

definition configure_extend ::
  "string \<Rightarrow> (string \<times> string) list \<Rightarrow> Element list \<Rightarrow> (operator_err_t \<times> Element list) res" where
  "configure_extend host cfg new_data =
     (let field_types = to_upper (cfg_get (map_of cfg) ''types'') in
      if \<not> valid_types field_types
      then Inr (''Invalid types for regex fields; got '' @ field_types, new_data)
      else bindE (extend_entries cfg) (\<lambda>vs.
        bindE (extend_data host field_types vs) (\<lambda>els.
        Inr (if length vs < length field_types then ''too many type specifiers for operator''
             else if length field_types < length vs then ''not enough type specifiers for operator''
             else [], new_data @ els))))"

section \<open>CSVParse\<close>

record CSVParse =
  csv_types :: string
  keep_fields :: "bool list"
  n_fields :: int
  discard_off_size :: bool

text \<open>
  The integers read one after the other from \<^verbatim>\<open>fields_to_keep\<close>; the range ends at the first
  failed read, so the test of the stream inside the loop never fires.
\<close>

fun read_ints :: "nat \<Rightarrow> string \<Rightarrow> int list" where
  "read_ints 0 s = []"
| "read_ints (Suc k) s = (case stream_integer s of None \<Rightarrow> []
     | Some (i, rest) \<Rightarrow> if in_int i then i # read_ints k rest else [])"

fun mark_fields :: "int \<Rightarrow> int list \<Rightarrow> bool list \<Rightarrow> (operator_err_t \<times> bool list) res" where
  "mark_fields n [] keep = Inr ([], keep)"
| "mark_fields n (f # fs) keep =
     (if f \<ge> n then Inr (show_int n @ '' types given; '' @ show_int f @ '' is too high for field index.'', keep)
      else if f < 0 then Inl OutOfBounds
      else bindE (updE keep (nat f) True) (mark_fields n fs))"

definition configure_csv :: "op_config \<Rightarrow> CSVParse \<Rightarrow> (operator_err_t \<times> CSVParse) res" where
  "configure_csv cfg op =
     (let types = cfg_get cfg ''types''; keep = cfg_get cfg ''fields_to_keep''; d = cfg_get cfg ''discard_off_size'';
          n = length types;
          op1 = op \<lparr>csv_types := types, n_fields := int n, discard_off_size := (d = [] \<or> d \<noteq> ''false'')\<rparr>
      in if keep = ''all'' then Inr ([], op1 \<lparr>keep_fields := keep_fields op1 @ replicate n True\<rparr>)
         else bindE (mark_fields (int n) (read_ints (length keep) keep) (keep_fields op1 @ replicate n False))
           (\<lambda>(err, ks). Inr (err, op1 \<lparr>keep_fields := ks\<rparr>)))"

text \<open>
  The tokenizer gives the tokens it can read and whether it then runs into a malformed escape.
\<close>

fun csv_loop :: "CSVParse \<Rightarrow> string list \<Rightarrow> int \<Rightarrow> Tuple \<Rightarrow> (int \<times> Tuple) res" where
  "csv_loop op [] i t2 = Inr (i, t2)"
| "csv_loop op (f # fs) i t2 =
     bindE (if i \<ge> n_fields op then checkE (discard_off_size op) LogFatal (Inr t2)
            else bindE (nthE (keep_fields op) (nat i)) (\<lambda>k.
              if k then bindE (nthE (csv_types op) (nat i)) (\<lambda>ty.
                        bindE (parse_with_types f ty empty_element) (\<lambda>el. Inr (add_e t2 el)))
              else Inr t2)) (\<lambda>t3.
     csv_loop op fs (i + 1) t3)"

definition process_csv :: "(string \<Rightarrow> string list \<times> bool) \<Rightarrow> CSVParse \<Rightarrow> Tuple \<Rightarrow> Tuple option res" where
  "process_csv tokenize op t =
     bindE (nthE (e t) 0) (\<lambda>el. case s_val el of None \<Rightarrow> Inr None
     | Some s \<Rightarrow> (let (fields, malformed) = tokenize s in
         bindE (csv_loop op fields 0 (empty_tuple \<lparr>version := Some (get_version t)\<rparr>)) (\<lambda>(i, t2).
         Inr (if malformed then Some t
              else if \<not> discard_off_size op \<or> i = n_fields op then Some t2 else None))))"

section \<open>StringGrep and GenericParse\<close>

record StringGrep =
  grep_re :: "string option"
  fieldID :: int

definition configure_grep :: "op_config \<Rightarrow> StringGrep \<Rightarrow> operator_err_t \<times> StringGrep" where
  "configure_grep cfg op =
     (let pattern = cfg_get cfg ''pattern''; op1 = op \<lparr>fieldID := fst (read_int (cfg_get cfg ''id''))\<rparr> in
      if pattern = [] then (''No regex specified (option '' @ [CHR 0x27] @ ''pattern'' @ [CHR 0x27] @ '')'', op1)
      else ([], op1 \<lparr>grep_re := Some pattern\<rparr>))"

definition grep_should_emit :: "(string \<Rightarrow> string \<Rightarrow> bool) \<Rightarrow> StringGrep \<Rightarrow> Tuple \<Rightarrow> bool res" where
  "grep_should_emit regex_search op t =
     (case grep_re op of None \<Rightarrow> Inr False
      | Some re \<Rightarrow> if e t = [] then Inr False
          else if fieldID op < 0 then Inl OutOfBounds
          else bindE (nthE (e t) (nat (fieldID op))) (\<lambda>el.
            case s_val el of None \<Rightarrow> Inr False | Some s \<Rightarrow> Inr (regex_search s re)))"

record GenericParse =
  gp_re :: string
  gp_field_types :: string
  fld_to_parse :: int
  keep_unparsed :: bool

text \<open>\<^verbatim>\<open>compiles\<close> gives the message of the exception when a pattern is malformed.\<close>

definition configure_parse :: "(string \<Rightarrow> string option) \<Rightarrow> op_config \<Rightarrow> GenericParse \<Rightarrow> operator_err_t \<times> GenericParse" where
  "configure_parse compiles cfg op =
     (let pattern = cfg_get cfg ''pattern'';
          op1 = op \<lparr>keep_unparsed := read_bool (to_lower (cfg_get cfg ''keep_unparsed''))\<rparr>
      in case compiles pattern of
           Some what \<Rightarrow> (''regex '' @ pattern @ '' did not compile:'' @ what, op1)
         | None \<Rightarrow>
           (let op2 = op1 \<lparr>gp_re := pattern, fld_to_parse := fst (read_int (cfg_get cfg ''field_to_parse'')),
                          gp_field_types := to_upper (cfg_get cfg ''types'')\<rparr>
            in if \<not> valid_types (gp_field_types op2)
               then (''Invalid types for regex fields; got '' @ gp_field_types op2, op2)
               else if pattern = [] then (''no regexp pattern specified'', op2)
               else ([], op2)))"

text \<open>\<^verbatim>\<open>regex_match\<close> gives the groups of a full match.\<close>

definition parse_groups :: "string \<Rightarrow> string list \<Rightarrow> Element list res" where
  "parse_groups field_types groups =
     (if length groups \<noteq> length field_types then Inl LogFatal
      else mapE (\<lambda>(s, ty). parse_with_types s ty empty_element) (zip groups field_types))"

definition process_parse :: "(string \<Rightarrow> string \<Rightarrow> string list option) \<Rightarrow> GenericParse \<Rightarrow> Tuple \<Rightarrow> Tuple res" where
  "process_parse regex_match op t =
     (let f = fld_to_parse op;
          before = (if keep_unparsed op then take (nat f) (e t) else []);
          ver = (if keep_unparsed op then Some (get_version t) else None)
      in if f < 0 then Inl OutOfBounds
         else bindE (nthE (e t) (nat f)) (\<lambda>el.
           case regex_match (get_s_val el) (gp_re op) of
             None \<Rightarrow> Inr t
           | Some groups \<Rightarrow> bindE (parse_groups (gp_field_types op) groups) (\<lambda>els.
               Inr \<lparr>e = before @ els @ (if keep_unparsed op then drop (Suc (nat f)) (e t) else []), version = ver\<rparr>)))"

section \<open>Sampling filters\<close>

text \<open>The threshold \<^verbatim>\<open>frac_to_drop * 4294967295\<close> as a 32-bit unsigned integer.\<close>

definition drop_threshold :: "double \<Rightarrow> u32 res" where
  "drop_threshold frac_to_drop = bindE (dtrunc 0 4294967295 (dmul frac_to_drop (Fin 4294967295))) (\<lambda>n. Inr (word_of_int n))"

record 'g SampleOperator =
  smp_gen :: 'g
  smp_threshold :: u32

definition configure_sample :: "(int \<Rightarrow> 'g) \<Rightarrow> op_config \<Rightarrow> 'g SampleOperator \<Rightarrow> (operator_err_t \<times> 'g SampleOperator) res" where
  "configure_sample seeded cfg op =
     bindE (drop_threshold (fst (read_double (cfg_get cfg ''fraction'')))) (\<lambda>th.
     Inr ([], op \<lparr>smp_threshold := th, smp_gen := seeded (fst (read_int (cfg_get cfg ''seed'')))\<rparr>))"

definition sample_should_emit :: "('g \<Rightarrow> u32 \<times> 'g) \<Rightarrow> 'g SampleOperator \<Rightarrow> Tuple \<Rightarrow> (bool \<times> 'g SampleOperator) res" where
  "sample_should_emit draw op t = (let (v, g) = draw (smp_gen op) in
     Inr (v \<ge> smp_threshold op, op \<lparr>smp_gen := g\<rparr>))"

record HashSampleOperator =
  hs_threshold :: u32
  hash_field :: int
  hash_type :: char

text \<open>The constructor leaves the threshold uninitialised.\<close>

definition new_HashSampleOperator :: "u32 \<Rightarrow> HashSampleOperator" where
  "new_HashSampleOperator junk = \<lparr>hs_threshold = junk, hash_field = 0, hash_type = CHR '' ''\<rparr>"

text \<open>Integers are hashed as the bytes they occupy, least significant first.\<close>

definition le_bytes :: "nat \<Rightarrow> int \<Rightarrow> u8 list" where
  "le_bytes n v = map (\<lambda>i. word_of_int (drop_bit (8 * i) v)) [0..<n]"

definition str_bytes :: "string \<Rightarrow> u8 list" where
  "str_bytes s = map (\<lambda>c. of_nat (of_char c)) s"

definition sample_hash :: "(double \<Rightarrow> u8 list) \<Rightarrow> char \<Rightarrow> Element \<Rightarrow> u32 res" where
  "sample_hash dbl_bytes ty el =
     (if ty = CHR ''I'' then Inr (jenkins_one_at_a_time_hash (le_bytes 4 (get_i_val el)))
      else if ty = CHR ''D'' then Inr (jenkins_one_at_a_time_hash (dbl_bytes (get_d_val el)))
      else if ty = CHR ''S'' then Inr (jenkins_one_at_a_time_hash (str_bytes (get_s_val el)))
      else if ty = CHR ''T'' then Inr (jenkins_one_at_a_time_hash (le_bytes 8 (get_t_val el)))
      else Inl LogFatal)"

definition hash_should_emit :: "(double \<Rightarrow> u8 list) \<Rightarrow> HashSampleOperator \<Rightarrow> Tuple \<Rightarrow> bool res" where
  "hash_should_emit dbl_bytes op t =
     (if hash_field op < 0 then Inl OutOfBounds
      else bindE (nthE (e t) (nat (hash_field op))) (\<lambda>el.
        bindE (sample_hash dbl_bytes (hash_type op) el) (\<lambda>hashval. Inr (hashval \<ge> hs_threshold op))))"

definition configure_hash_sample :: "op_config \<Rightarrow> HashSampleOperator \<Rightarrow> (operator_err_t \<times> HashSampleOperator) res" where
  "configure_hash_sample cfg op =
     bindE (drop_threshold (fst (read_double (cfg_get cfg ''fraction'')))) (\<lambda>th.
     let op1 = op \<lparr>hs_threshold := th\<rparr> in
     Inr (case stream_int (cfg_get cfg ''hash_field'') of
        None \<Rightarrow> (''hash_field must be an int'', op1)
      | Some f \<Rightarrow> (let op2 = op1 \<lparr>hash_field := f\<rparr> in
          case cfg_get cfg ''hash_type'' of
            [] \<Rightarrow> (''hash_type must be defined'', op2)
          | c # _ \<Rightarrow> ([], op2 \<lparr>hash_type := c\<rparr>))))"

section \<open>TRoundingOperator, TimestampOperator, URLToDomain, ProjectionOperator\<close>

text \<open>Division of C++ integers truncates; by zero it traps.\<close>

definition tdiv :: "int \<Rightarrow> int \<Rightarrow> int" where
  "tdiv a b = sgn a * sgn b * (\<bar>a\<bar> div \<bar>b\<bar>)"

definition tdivE :: "int \<Rightarrow> int \<Rightarrow> int res" where
  "tdivE a b = (if b = 0 then Inl (Thrown ''SIGFPE'') else Inr (tdiv a b))"

definition in_int64 :: "int \<Rightarrow> bool" where
  "in_int64 x \<longleftrightarrow> - 9223372036854775808 \<le> x \<and> x \<le> 9223372036854775807"

datatype InFormat = Fmt_T | Fmt_I | Fmt_D

record TRoundingOperator =
  in_type :: InFormat
  fld_offset :: u32
  round_to :: int
  add_offset :: int

definition round_value :: "TRoundingOperator \<Rightarrow> Element \<Rightarrow> Element res" where
  "round_value op el = (case in_type op of
      Fmt_T \<Rightarrow> bindE (tdivE (get_t_val el) (round_to op)) (\<lambda>q.
        Inr (el \<lparr>t_val := Some (to_int32 (q * round_to op + add_offset op))\<rparr>))
    | Fmt_I \<Rightarrow> bindE (tdivE (get_i_val el) (round_to op)) (\<lambda>q0. bindE (intE q0) (\<lambda>q.
        bindE (intE (q * round_to op)) (\<lambda>r.
        Inr (el \<lparr>i_val := None, t_val := Some (to_int32 (r + add_offset op))\<rparr>))))
    | Fmt_D \<Rightarrow> (case dtrunc (- 9223372036854775808) 9223372036854775807 (ddiv (get_d_val el) (dof_int (round_to op))) of
          Inl _ \<Rightarrow> Inl (Thrown ''bad_numeric_cast'')
        | Inr q \<Rightarrow> checkE (in_int64 (q * round_to op) \<and> in_int64 (q * round_to op + add_offset op)) IntOverflow
            (Inr (el \<lparr>d_val := None, t_val := Some (to_int32 (q * round_to op + add_offset op))\<rparr>))))"

definition process_round :: "TRoundingOperator \<Rightarrow> Tuple \<Rightarrow> Tuple res" where
  "process_round op t = bindE (nthE (e t) (unat (fld_offset op))) (\<lambda>el.
     bindE (round_value op el) (\<lambda>el'. Inr (t \<lparr>e := (e t)[unat (fld_offset op) := el']\<rparr>)))"

definition configure_round :: "op_config \<Rightarrow> TRoundingOperator \<Rightarrow> operator_err_t \<times> TRoundingOperator" where
  "configure_round cfg op =
     (case stream_int (cfg_get cfg ''round_to'') of
        None \<Rightarrow> (''must specify an int as round_to'', op)
      | Some r \<Rightarrow> (let op1 = op \<lparr>round_to := r\<rparr> in
        case stream_u32 (cfg_get cfg ''fld_offset'') of
          None \<Rightarrow> (''must specify an int as fld_offset; got '' @ cfg_get cfg ''fld_offset'' @ '' instead'', op1)
        | Some f \<Rightarrow> (let op2 = op1 \<lparr>fld_offset := f\<rparr> in
          case stream_int (cfg_get cfg ''add_offset'') of
            None \<Rightarrow> (''must specify number to add to result; got '' @ cfg_get cfg ''add_offset'' @ ''instead'', op2)
          | Some a \<Rightarrow> (let op3 = op2 \<lparr>add_offset := a\<rparr>; ty = cfg_get cfg ''in_type'' in
              if ty = ''T'' then ([], op3 \<lparr>in_type := Fmt_T\<rparr>)
              else if ty = ''D'' then ([], op3 \<lparr>in_type := Fmt_D\<rparr>)
              else if ty = ''I'' then ([], op3 \<lparr>in_type := Fmt_I\<rparr>)
              else (''Invalid input type: '' @ ty, op3)))))"

datatype TimeType = TT_S | TT_MS | TT_US

definition configure_timestamp :: "op_config \<Rightarrow> operator_err_t \<times> TimeType option" where
  "configure_timestamp cfg =
     (if cfg_get cfg ''type'' = ''s'' then ([], Some TT_S)
      else if cfg_get cfg ''type'' = ''ms'' then ([], Some TT_MS)
      else if cfg_get cfg ''type'' = ''us'' then ([], Some TT_US)
      else (''type is not s, ms, us'', None))"

definition process_timestamp :: "u64 \<Rightarrow> u64 \<Rightarrow> TimeType \<Rightarrow> Tuple \<Rightarrow> Tuple" where
  "process_timestamp tv_sec tv_nsec ty t = add_e t (case ty of
      TT_S \<Rightarrow> int_element (sint (ucast tv_sec :: u32))
    | TT_MS \<Rightarrow> double_element (dof_u64 (get_usec tv_sec tv_nsec div 1000))
    | TT_US \<Rightarrow> double_element (dof_u64 (get_usec tv_sec tv_nsec)))"

fun split_on :: "char \<Rightarrow> string \<Rightarrow> string list" where
  "split_on c [] = [[]]"
| "split_on c (x # xs) = (if x = c then [] # split_on c xs
     else case split_on c xs of [] \<Rightarrow> [[x]] | p # ps \<Rightarrow> (x # p) # ps)"

definition process_url :: "u32 \<Rightarrow> Tuple \<Rightarrow> Tuple res" where
  "process_url field_id t = bindE (nthE (e t) (unat field_id)) (\<lambda>el.
     let chunks = split_on (CHR ''/'') (get_s_val el) in
     Inr (if length chunks \<ge> 3 then t \<lparr>e := (e t)[unat field_id := el \<lparr>s_val := Some (chunks ! 2)\<rparr>]\<rparr> else t))"

definition configure_url :: "op_config \<Rightarrow> operator_err_t \<times> u32 option" where
  "configure_url cfg = (case stream_u32 (cfg_get cfg ''field'') of
      None \<Rightarrow> (''must specify an int as field; got '' @ cfg_get cfg ''field'' @ '' instead'', None)
    | Some f \<Rightarrow> ([], Some f))"

text \<open>The field to drop is swapped to the end, one position at a time, and removed there.\<close>

function swap_up :: "nat \<Rightarrow> nat \<Rightarrow> 'a list \<Rightarrow> 'a list" where
  "swap_up i new_size xs = (if i < new_size
     then swap_up (Suc i) new_size (xs[i := xs ! Suc i, Suc i := xs ! i]) else xs)"
  by pat_completeness auto

termination
  by (relation "measure (\<lambda>(i, new_size, xs). new_size - i)") auto

declare swap_up.simps [simp del]

definition process_project :: "u32 \<Rightarrow> Tuple \<Rightarrow> Tuple res" where
  "process_project field_id t =
     checkE (e t \<noteq> []) OutOfBounds
     (Inr (t \<lparr>e := butlast (swap_up (unat field_id) (length (e t) - 1) (e t))\<rparr>))"

definition configure_project :: "op_config \<Rightarrow> operator_err_t \<times> u32 option" where
  "configure_project cfg =
     (if cfg ''field'' = None then (''must specify an int as field; got '' @ cfg_get cfg ''field'' @ '' instead'', None)
      else case stream_u32 (cfg_get cfg ''field'') of
        None \<Rightarrow> (''must specify an int as field; got '' @ cfg_get cfg ''field'' @ '' instead'', None)
      | Some f \<Rightarrow> ([], Some f))"

section \<open>Comparison filters\<close>

record GreaterThan =
  gt_field_id :: u32
  gt_bound :: int

definition gt_should_emit :: "GreaterThan \<Rightarrow> Tuple \<Rightarrow> bool res" where
  "gt_should_emit op t = bindE (numeric t (unat (gt_field_id op))) (\<lambda>val. Inr (dlt (dof_int (gt_bound op)) val))"

definition configure_gt :: "op_config \<Rightarrow> GreaterThan \<Rightarrow> operator_err_t \<times> GreaterThan" where
  "configure_gt cfg op = (case stream_u32 (cfg_get cfg ''field'') of
      None \<Rightarrow> (''must specify an int as field; got '' @ cfg_get cfg ''field'' @ '' instead'', op)
    | Some f \<Rightarrow> (let op1 = op \<lparr>gt_field_id := f\<rparr> in
       case stream_int (cfg_get cfg ''bound'') of
         None \<Rightarrow> (''must specify bound; got '' @ cfg_get cfg ''bound'' @ '' instead'', op1)
       | Some b \<Rightarrow> ([], op1 \<lparr>gt_bound := b\<rparr>)))"

record IEqualityFilter =
  ie_field_id :: u32
  targ :: int

definition ie_should_emit :: "IEqualityFilter \<Rightarrow> Tuple \<Rightarrow> bool res" where
  "ie_should_emit op t = bindE (nthE (e t) (unat (ie_field_id op))) (\<lambda>el. Inr (get_i_val el = targ op))"

definition configure_ie :: "op_config \<Rightarrow> IEqualityFilter \<Rightarrow> operator_err_t \<times> IEqualityFilter" where
  "configure_ie cfg op = (case stream_u32 (cfg_get cfg ''field'') of
      None \<Rightarrow> (''must specify an int as field; got '' @ cfg_get cfg ''field'' @ '' instead'', op)
    | Some f \<Rightarrow> (let op1 = op \<lparr>ie_field_id := f\<rparr> in
       case stream_int (cfg_get cfg ''targ'') of
         None \<Rightarrow> (''must specify targ; got '' @ cfg_get cfg ''targ'' @ '' instead'', op1)
       | Some b \<Rightarrow> ([], op1 \<lparr>targ := b\<rparr>)))"

record RatioFilter =
  numer_field_id :: u32
  denom_field_id :: u32
  ratio_bound :: double

definition ratio_should_emit :: "RatioFilter \<Rightarrow> Tuple \<Rightarrow> bool res" where
  "ratio_should_emit op t = bindE (numeric t (unat (denom_field_id op))) (\<lambda>denom.
     bindE (numeric t (unat (numer_field_id op))) (\<lambda>numer.
     Inr (denom = Fin 0 \<or> dlt (ratio_bound op) (ddiv numer denom))))"

definition configure_ratio :: "op_config \<Rightarrow> RatioFilter \<Rightarrow> operator_err_t \<times> RatioFilter" where
  "configure_ratio cfg op = (case stream_u32 (cfg_get cfg ''denom_field'') of
      None \<Rightarrow> (''must specify an int as field; got '' @ cfg_get cfg ''denom_field'' @ '' instead'', op)
    | Some d \<Rightarrow> (let op1 = op \<lparr>denom_field_id := d\<rparr> in
       case stream_u32 (cfg_get cfg ''numer_field'') of
         None \<Rightarrow> (''must specify an int as field; got '' @ cfg_get cfg ''numer_field'' @ '' instead'', op1)
       | Some n \<Rightarrow> (let op2 = op1 \<lparr>numer_field_id := n\<rparr> in
          case stream_double (cfg_get cfg ''bound'') of
            None \<Rightarrow> (''must specify bound; got '' @ cfg_get cfg ''bound'' @ '' instead'', op2)
          | Some b \<Rightarrow> ([], op2 \<lparr>ratio_bound := b\<rparr>))))"

section \<open>WindowLenFilter\<close>

record 'm WindowLenFilter =
  wl_id :: operator_id_t
  k_in_win :: u32
  wl_bound :: u32
  err_bound_lev :: int
  err_field :: int
  wl_policy :: "'m CongestionPolicy option"

definition configure_window_len :: "op_config \<Rightarrow> 'm WindowLenFilter \<Rightarrow> operator_err_t \<times> 'm WindowLenFilter" where
  "configure_window_len cfg op =
     (let op1 = op \<lparr>wl_bound := - 1, err_bound_lev := 0, err_field := - 1\<rparr>; f = cfg_get cfg ''err_field'' in
      if f = [] then ([], op1)
      else case stream_int f of
        None \<Rightarrow> (''must specify err_field as int; got '' @ f @ '' instead'', op1)
      | Some i \<Rightarrow> ([], op1 \<lparr>err_field := i\<rparr>))"

definition WL_LEVELS :: nat where "WL_LEVELS = 20"

definition window_cutoff :: "'m WindowLenFilter \<Rightarrow> tuple_buf \<Rightarrow> ('m WindowLenFilter \<times> tuple_buf) res" where
  "window_cutoff op tuples =
     (if unat (k_in_win op) + length tuples > unat (wl_bound op) then
        let tuples_to_pass = unat (wl_bound op - k_in_win op) in
        bindE (if err_field op > - 1 \<and> err_bound_lev op = 0
               then bindE (nthE tuples tuples_to_pass) (\<lambda>p. case p of None \<Rightarrow> Inl NullDeref
                 | Some t \<Rightarrow> bindE (numeric t (nat (err_field op))) (\<lambda>d.
                     bindE (d_to_int d) (\<lambda>i. Inr (op \<lparr>err_bound_lev := i\<rparr>))))
               else Inr op) (\<lambda>op1.
        Inr (op1, take tuples_to_pass tuples @ replicate (tuples_to_pass - length tuples) None))
      else Inr (op, tuples))"

definition level_ratio :: "nat \<Rightarrow> double" where
  "level_ratio i = ddiv (dof_int (int i + 1)) (dof_int (int WL_LEVELS))"

definition level_bounds :: "u32 \<Rightarrow> u32 list res" where
  "level_bounds k = mapE (\<lambda>i. bindE (dtrunc 0 4294967295
       (ddiv (dmul (dof_u32 k) (dof_int (int i + 1))) (dof_int (int WL_LEVELS)))) (\<lambda>n. Inr (word_of_int n))) [0..<WL_LEVELS]"

fun first_level :: "u32 \<Rightarrow> u32 list \<Rightarrow> nat \<Rightarrow> nat" where
  "first_level bnd [] i = WL_LEVELS - 1"
| "first_level bnd (b # bs) i = (if b \<ge> bnd then i else first_level bnd bs (Suc i))"

definition process_window_len ::
  "msec_t \<Rightarrow> ('m \<Rightarrow> msec_t) \<Rightarrow> ('m \<Rightarrow> (double \<times> 'm) res) \<Rightarrow> 'm option option \<Rightarrow> 'm WindowLenFilter op_process" where
  "process_window_len now mtime cap chain_mon op tuples msg =
     bindE (window_cutoff op tuples) (\<lambda>(op1, tuples').
     let op2 = op1 \<lparr>k_in_win := k_in_win op1 + of_nat (length tuples')\<rparr> in
     if dp_type msg = END_OF_WINDOW then
       bindE (level_bounds (k_in_win op2)) (\<lambda>bounds.
       let cur_level = first_level (wl_bound op2) bounds 0;
           bounds' = bounds[WL_LEVELS - 1 := - 1];
           ratios = map level_ratio [0..<WL_LEVELS]
       in case wl_policy op2 of None \<Rightarrow> Inl NullDeref
         | Some pol \<Rightarrow>
           bindE (get_step now mtime cap chain_mon (wl_id op2) ratios (of_nat WL_LEVELS) (of_nat cur_level) pol) (\<lambda>(delta, pol').
           bindE (nthE bounds' (unat (of_nat cur_level + word_of_int delta :: u32))) (\<lambda>b.
           Inr (op2 \<lparr>wl_bound := b, k_in_win := 0, err_bound_lev := 0, wl_policy := Some pol'\<rparr>, tuples',
                msg \<lparr>tput_r2_threshold := Some (dof_int (err_bound_lev op2))\<rparr>))))
     else Inr (op2, tuples', msg))"

section \<open>VariableSamplingOperator and IntervalSamplingOperator\<close>

record 'm VariableSamplingOperator = HashSampleOperator +
  vs_id :: operator_id_t
  vs_cur_step :: u32
  vs_steps :: "double list"
  num_steps :: u32
  vs_policy :: "'m CongestionPolicy option"

definition sampling_steps :: "u32 \<Rightarrow> double list" where
  "sampling_steps n = map (\<lambda>i. ddiv (dof_int (int i)) (dof_u32 (n - 1))) [0..<unat n]"

definition configure_variable ::
  "op_config \<Rightarrow> 'm VariableSamplingOperator \<Rightarrow> (operator_err_t \<times> 'm VariableSamplingOperator) res" where
  "configure_variable cfg op =
     (let sc = cfg_get cfg ''steps'' in
      case (if sc = [] then Some (num_steps op) else stream_u32 sc) of
        None \<Rightarrow> Inr (''steps must be an int'', op)
      | Some n \<Rightarrow>
         (let op1 = op \<lparr>num_steps := n, vs_steps := vs_steps op @ sampling_steps n, vs_cur_step := n - 1, hs_threshold := 0\<rparr>
          in bindE (configure_hash_sample cfg (HashSampleOperator.truncate op1)) (\<lambda>(err, h).
             Inr (err, op1 \<lparr>hs_threshold := hs_threshold h, hash_field := hash_field h, hash_type := hash_type h\<rparr>))))"

definition variable_end_of_window ::
  "msec_t \<Rightarrow> ('m \<Rightarrow> msec_t) \<Rightarrow> ('m \<Rightarrow> (double \<times> 'm) res) \<Rightarrow> 'm option option \<Rightarrow>
   'm VariableSamplingOperator \<Rightarrow> DataplaneMessage \<Rightarrow> ('m VariableSamplingOperator \<times> DataplaneMessage) res" where
  "variable_end_of_window now mtime cap chain_mon op msg =
     (case vs_policy op of None \<Rightarrow> Inl NullDeref
      | Some pol \<Rightarrow>
        bindE (get_step now mtime cap chain_mon (vs_id op) (vs_steps op) (of_nat (length (vs_steps op))) (vs_cur_step op) pol)
          (\<lambda>(delta, pol').
        let op1 = op \<lparr>vs_policy := Some pol'\<rparr> in
        bindE (if delta \<noteq> 0 then
                 (let cur = vs_cur_step op + word_of_int delta in
                  bindE (nthE (vs_steps op) (unat cur)) (\<lambda>s.
                  bindE (drop_threshold (dsub (Fin 1) s)) (\<lambda>th.
                  Inr (op1 \<lparr>vs_cur_step := cur, hs_threshold := th\<rparr>))))
               else Inr op1) (\<lambda>op2.
        bindE (nthE (vs_steps op2) (unat (vs_cur_step op2))) (\<lambda>s.
        Inr (op2, msg \<lparr>filter_level := Some s\<rparr>)))))"

record 'm IntervalSamplingOperator =
  is_id :: operator_id_t
  cntr :: u32
  deg_level :: u32
  max_drops :: u32
  is_steps :: "double list"
  is_policy :: "'m CongestionPolicy option"

definition new_IntervalSampling :: "operator_id_t \<Rightarrow> 'm IntervalSamplingOperator" where
  "new_IntervalSampling i = \<lparr>is_id = i, cntr = 0, deg_level = 0, max_drops = 0, is_steps = [], is_policy = None\<rparr>"

definition interval_steps :: "int \<Rightarrow> double list" where
  "interval_steps mx = Fin 0 # map (\<lambda>d. ddiv (Fin 1) (dof_int (1 + int d))) (rev [0..<nat (mx + 1)])"

definition configure_interval :: "op_config \<Rightarrow> 'm IntervalSamplingOperator \<Rightarrow> operator_err_t \<times> 'm IntervalSamplingOperator" where
  "configure_interval cfg op =
     (let sc = cfg_get cfg ''max_drops'' in
      case (if sc = [] then Some (max_drops op) else stream_u32 sc) of
        None \<Rightarrow> (''max_drops must be an int'', op)
      | Some n \<Rightarrow> ([], op \<lparr>max_drops := n, is_steps := is_steps op @ interval_steps (sint n), deg_level := n + 1\<rparr>))"

definition interval_should_emit ::
  "msec_t \<Rightarrow> ('m \<Rightarrow> msec_t) \<Rightarrow> ('m \<Rightarrow> (double \<times> 'm) res) \<Rightarrow> 'm option option \<Rightarrow>
   'm IntervalSamplingOperator \<Rightarrow> Tuple \<Rightarrow> (bool \<times> 'm IntervalSamplingOperator) res" where
  "interval_should_emit now mtime cap chain_mon op t =
     (case is_policy op of None \<Rightarrow> Inl NullDeref
      | Some pol \<Rightarrow>
        bindE (get_step now mtime cap chain_mon (is_id op) (is_steps op) (of_nat (length (is_steps op))) (deg_level op) pol)
          (\<lambda>(delta, pol').
        let lvl = deg_level op + word_of_int delta;
            drops_per_keep = of_nat (length (is_steps op)) - lvl - 1 :: u32;
            c = cntr op + 1;
            op1 = op \<lparr>deg_level := lvl, cntr := c, is_policy := Some pol'\<rparr>
        in if lvl = 0 then Inr (False, op1)
           else if drops_per_keep + 1 = 0 then Inl (Thrown ''SIGFPE'')
           else Inr (c mod (drops_per_keep + 1) = 0, op1)))"

section \<open>Chain members\<close>

text \<open>The operators without state of their own, as members of a chain.\<close>

datatype c_op =
    OpCSV CSVParse | OpGrep StringGrep | OpParse GenericParse | OpExtend "Element list"
  | OpHash HashSampleOperator | OpRound TRoundingOperator | OpUrl u32 | OpProject u32
  | OpGreater GreaterThan | OpEqual IEqualityFilter | OpRatio RatioFilter

record op_env =
  env_tokenize :: "string \<Rightarrow> string list \<times> bool"
  env_search :: "string \<Rightarrow> string \<Rightarrow> bool"
  env_match :: "string \<Rightarrow> string \<Rightarrow> string list option"
  env_dbl_bytes :: "double \<Rightarrow> u8 list"

definition stateless_each :: "('o \<Rightarrow> Tuple \<Rightarrow> Tuple option res) \<Rightarrow> 'o \<Rightarrow> Tuple \<Rightarrow> ('o \<times> Tuple option) res" where
  "stateless_each f op t = bindE (f op t) (\<lambda>u. Inr (op, u))"

definition stateless_filter :: "('o \<Rightarrow> Tuple \<Rightarrow> bool res) \<Rightarrow> 'o \<Rightarrow> Tuple \<Rightarrow> (bool \<times> 'o) res" where
  "stateless_filter f op t = bindE (f op t) (\<lambda>b. Inr (b, op))"

definition some_tuple :: "Tuple res \<Rightarrow> Tuple option res" where
  "some_tuple r = bindE r (\<lambda>t. Inr (Some t))"

text \<open>What each member does with one tuple: a mapped tuple (or none), or a verdict.\<close>

datatype tuple_action = Mapped "Tuple option res" | Verdict "bool res"

fun act :: "op_env \<Rightarrow> c_op \<Rightarrow> Tuple \<Rightarrow> tuple_action" where
  "act env (OpCSV op) t = Mapped (process_csv (env_tokenize env) op t)"
| "act env (OpGrep op) t = Verdict (grep_should_emit (env_search env) op t)"
| "act env (OpParse op) t = Mapped (some_tuple (process_parse (env_match env) op t))"
| "act env (OpExtend els) t = Mapped (Inr (Some (process_extend els t)))"
| "act env (OpHash op) t = Verdict (hash_should_emit (env_dbl_bytes env) op t)"
| "act env (OpRound op) t = Mapped (some_tuple (process_round op t))"
| "act env (OpUrl f) t = Mapped (some_tuple (process_url f t))"
| "act env (OpProject f) t = Mapped (some_tuple (process_project f t))"
| "act env (OpGreater op) t = Verdict (gt_should_emit op t)"
| "act env (OpEqual op) t = Verdict (ie_should_emit op t)"
| "act env (OpRatio op) t = Verdict (ratio_should_emit op t)"

fun is_filter_op :: "c_op \<Rightarrow> bool" where
  "is_filter_op (OpGrep _) = True" | "is_filter_op (OpHash _) = True" | "is_filter_op (OpGreater _) = True"
| "is_filter_op (OpEqual _) = True" | "is_filter_op (OpRatio _) = True" | "is_filter_op _ = False"

definition map_one :: "op_env \<Rightarrow> c_op \<Rightarrow> Tuple \<Rightarrow> Tuple option res" where
  "map_one env op t = (case act env op t of Mapped r \<Rightarrow> r | Verdict _ \<Rightarrow> Inr (Some t))"

definition verdict :: "op_env \<Rightarrow> c_op \<Rightarrow> Tuple \<Rightarrow> bool res" where
  "verdict env op t = (case act env op t of Verdict r \<Rightarrow> r | Mapped _ \<Rightarrow> Inr True)"

definition run_c_op :: "op_env \<Rightarrow> c_op op_process" where
  "run_c_op env op d m =
     (if is_filter_op op then cfilter_process (stateless_filter (verdict env)) no_meta op d m
      else ceach_process (stateless_each (map_one env)) no_meta op d m)"

lemma run_c_op_filter:
  "is_filter_op op \<Longrightarrow> run_c_op env op (map Some ts) m
     = bindE (keep_tuples (stateless_filter (verdict env)) op ts) (\<lambda>(op', us). Inr (op', map Some us, m))"
  unfolding run_c_op_def by (simp add: cfilter_process_keep no_meta_def)

lemma keep_stateless:
  "keep_tuples (stateless_filter f) op ts = Inr (op', us) \<longleftrightarrow>
     op' = op \<and> (\<forall>t \<in> set ts. is_ok (f op t)) \<and> us = filter (\<lambda>t. f op t = Inr True) ts"
proof (induction ts arbitrary: us op')
  case (Cons t ts)
  show ?case
  proof (cases "f op t")
    case (Inr b)
    have "keep_tuples (stateless_filter f) op (t # ts) = Inr (op', us) \<longleftrightarrow>
        (\<exists>us'. keep_tuples (stateless_filter f) op ts = Inr (op', us') \<and> us = (if b then t # us' else us'))"
      using Inr by (auto simp: stateless_filter_def res_simps)
    then show ?thesis using Cons.IH Inr by auto
  qed (simp add: stateless_filter_def)
qed auto

lemma run_c_op_msg: "run_c_op env op d m = Inr (op', d', m') \<Longrightarrow> m' = m"
  by (auto simp: run_c_op_def cfilter_process_def ceach_process_def no_meta_def res_simps split: if_splits)

lemma run_c_op_kind:
  assumes "run_c_op env op d m = Inr (op', d', m')"
  shows "is_filter_op op' = is_filter_op op"
proof (cases "is_filter_op op")
  case True
  then obtain ts where "d = map Some ts" using assms cfilter_process_not_null by (fastforce simp: run_c_op_def)
  then show ?thesis using assms True run_c_op_filter [OF True, of env ts m]
    by (auto simp: res_simps keep_stateless)
next
  case False
  have "each_process (stateless_each f) op d = Inr (op', u) \<Longrightarrow> op' = op" for f u
  proof (induction d arbitrary: u)
    case (Cons x d)
    then show ?case by (cases x) (auto simp: stateless_each_def res_simps)
  qed simp
  then show ?thesis using assms False
    by (auto simp: run_c_op_def ceach_process_def no_meta_def res_simps)
qed

interpretation c_ops: stream_operator "run_c_op env" for env
proof
  fix m op d op' d' m' assume "run_c_op env op d m = Inr (op', d', m')"
  then show "m' = m" by (rule run_c_op_msg)
next
  fix m op d1 op1 u1 m1 d2 op2 u2 m2
  assume 1: "run_c_op env op d1 m = Inr (op1, u1, m1)" and 2: "run_c_op env op1 d2 m = Inr (op2, u2, m2)"
  have k: "is_filter_op op1 = is_filter_op op" using run_c_op_kind [OF 1] .
  show "run_c_op env op (d1 @ d2) m = Inr (op2, u1 @ u2, m)"
  proof (cases "is_filter_op op")
    case True
    obtain t1 t2 where t: "d1 = map Some t1" "d2 = map Some t2"
      using 1 2 True k cfilter_process_not_null unfolding run_c_op_def by metis
    have "run_c_op env op (map Some (t1 @ t2)) m = Inr (op2, u1 @ u2, m)"
      using 1 2 True k unfolding t
      by (auto simp: run_c_op_filter keep_tuples_append res_simps simp del: map_append) simp
    then show ?thesis using t by simp
  next
    case False
    then show ?thesis using 1 2 k
      by (auto simp: run_c_op_def ceach_process_def no_meta_def each_process_append res_simps)
  qed
qed

section \<open>Projection\<close>

lemma swap_up_eq:
  assumes "i \<le> n" and "length xs = Suc n"
  shows "swap_up i n xs = take i xs @ drop (Suc i) xs @ [xs ! i]"
  using assms
proof (induction i n xs rule: swap_up.induct)
  case (1 i n xs)
  show ?case
  proof (cases "i < n")
    case True
    let ?ys = "xs[i := xs ! Suc i, Suc i := xs ! i]"
    have "take (Suc i) ?ys = take i xs @ [xs ! Suc i]"
      using True 1(3) by (simp add: take_Suc_conv_app_nth)
    moreover have "drop (Suc (Suc i)) ?ys = drop (Suc (Suc i)) xs"
      by (simp add: drop_update_cancel)
    moreover have "drop (Suc i) xs = xs ! Suc i # drop (Suc (Suc i)) xs"
      using True 1(3) by (simp add: Cons_nth_drop_Suc)
    ultimately show ?thesis using 1 True by (subst swap_up.simps) auto
  next
    case False
    then have "i = n" using 1(2) by simp
    then show ?thesis using 1(3) False
      by (subst swap_up.simps) (simp add: take_Suc_conv_app_nth flip: take_Suc_conv_app_nth)
  qed
qed

section \<open>Interval sampling without congestion\<close>

lemma get_step_idle:
  "congest pol = None \<Longrightarrow> get_step now mtime cap None oper levels len cur pol = Inr (0, pol)"
  by (simp add: get_step_def)

definition interval_op :: "operator_id_t \<Rightarrow> double list \<Rightarrow> u32 \<Rightarrow> u32 \<Rightarrow> u32 \<Rightarrow> 'm IntervalSamplingOperator" where
  "interval_op i steps0 lvl mx c = \<lparr>is_id = i, cntr = c, deg_level = lvl, max_drops = mx, is_steps = steps0,
     is_policy = Some new_CongestionPolicy\<rparr>"

lemma interval_step:
  assumes "lvl \<noteq> 0" and "of_nat (length ss) - lvl \<noteq> (0 :: u32)"
  shows "interval_should_emit now mtime cap None (interval_op i ss lvl mx c) t
    = Inr ((c + 1) mod (of_nat (length ss) - lvl) = 0, interval_op i ss lvl mx (c + 1))"
  using assms by (simp add: interval_should_emit_def interval_op_def get_step_idle new_CongestionPolicy_def Let_def)

text \<open>How many of the numbers c+1, ..., c+n are multiples of d.\<close>

lemma interval_keep_count:
  assumes "lvl \<noteq> 0" and "d = of_nat (length ss) - lvl" and "d \<noteq> (0 :: u32)" and "unat c + length ts < 4294967296"
  shows "\<exists>us. keep_tuples (interval_should_emit now mtime cap None) (interval_op i ss lvl mx c) ts
      = Inr (interval_op i ss lvl mx (c + of_nat (length ts)), us)
     \<and> length us + unat c div unat d = (unat c + length ts) div unat d"
  using assms(4)
proof (induction ts arbitrary: c)
  case (Cons t ts)
  have c: "unat (c + 1) = unat c + 1" using Cons.prems by (simp add: unat_add_noov32)
  obtain us where us: "keep_tuples (interval_should_emit now mtime cap None) (interval_op i ss lvl mx (c + 1)) ts
      = Inr (interval_op i ss lvl mx (c + 1 + of_nat (length ts)), us)"
    "length us + unat (c + 1) div unat d = (unat (c + 1) + length ts) div unat d"
    using Cons.IH [of "c + 1"] Cons.prems c by auto
  have m: "(c + 1) mod d = 0 \<longleftrightarrow> (unat c + 1) mod unat d = 0"
  proof -
    have "(c + 1) mod d = 0 \<longleftrightarrow> unat ((c + 1) mod d) = 0" by (simp only: unat_eq_0)
    then show ?thesis by (simp only: unat_mod c)
  qed
  have "(unat c + 1) div unat d = unat c div unat d + (if (unat c + 1) mod unat d = 0 then 1 else 0)"
    using div_Suc [of "unat c" "unat d"] by auto
  then show ?case
    using us c m assms(1-3) by (auto simp: interval_step add.assoc)
qed simp

section \<open>Window cutoff\<close>

lemma window_cutoff_prefix:
  assumes "window_cutoff op tuples = Inr (op1, out)" and "unat (k_in_win op) \<le> unat (wl_bound op)"
  shows "out = take (unat (wl_bound op) - unat (k_in_win op)) tuples
     \<and> k_in_win op1 = k_in_win op \<and> wl_bound op1 = wl_bound op \<and> wl_policy op1 = wl_policy op"
proof -
  have s: "unat (wl_bound op - k_in_win op) = unat (wl_bound op) - unat (k_in_win op)"
    using assms(2) by (simp add: unat_sub word_le_nat_alt)
  show ?thesis
    using assms by (auto simp: window_cutoff_def Let_def s res_simps split: if_splits option.splits)
qed

lemma level_bounds_length: "level_bounds k = Inr bs \<Longrightarrow> length bs = WL_LEVELS"
  unfolding level_bounds_def by (drule mapE_length) simp

section \<open>Reading lines\<close>

lemma split_on_nonempty: "split_on c s \<noteq> []"
  by (induction s) (auto split: list.splits)

lemma split_on_line:
  "split_on newline s = fst (get_line s) # (if snd (snd (get_line s)) then split_on newline (fst (snd (get_line s))) else [])"
proof (induction s)
  case (Cons x xs)
  show ?case
  proof (cases "x = newline")
    case False
    then show ?thesis using Cons by (auto simp: split_def Let_def)
  qed simp
qed simp

lemma get_line_eof: "snd (snd (get_line s)) = False \<Longrightarrow> fst (snd (get_line s)) = []"
  by (induction s rule: get_line.induct) (auto simp: split_def Let_def split: if_splits)

fun number_lines :: "string list \<Rightarrow> u32 \<Rightarrow> Tuple list" where
  "number_lines [] n = []"
| "number_lines (l # ls) n = line_tuple l n # number_lines ls (n + 1)"

lemma read_lines_all:
  "length (split_on newline s) \<le> k \<Longrightarrow>
     read_lines k False (s, True) n = (number_lines (split_on newline s) n, ([], False), n + of_nat (length (split_on newline s)))"
proof (induction k arbitrary: s n)
  case 0
  then show ?case using split_on_nonempty by simp
next
  case (Suc k)
  obtain l s' g where gl: "get_line s = (l, s', g)" by (cases "get_line s") auto
  note sp = split_on_line [of s]
  show ?case
  proof (cases g)
    case True
    then have "length (split_on newline s') \<le> k" using Suc.prems sp gl by simp
    then show ?thesis using Suc.IH [of s' "n + 1"] sp gl True by (simp add: ac_simps)
  next
    case False
    then have "s' = []" using get_line_eof [of s] gl by simp
    moreover have "read_lines k False ([], False) m = ([], ([], False), m)" for m by (cases k) auto
    ultimately show ?thesis using sp gl False by simp
  qed
qed

section \<open>Properties\<close>


definition idle_env :: op_env where
  "idle_env = \<lparr>env_tokenize = (\<lambda>s. ([s], False)), env_search = (\<lambda>s p. s = p), env_match = (\<lambda>s p. None),
     env_dbl_bytes = (\<lambda>d. [])\<rparr>"

definition filter_chain :: "c_op OperatorChain" where
  "filter_chain = add_member (Some (OpProject 1)) (add_member (Some (OpEqual \<lparr>ie_field_id = 0, targ = 7\<rparr>))
     (add_member None new_OperatorChain))"

definition pair_tuple :: "int \<Rightarrow> int \<Rightarrow> Tuple" where
  "pair_tuple a b = extend_tuple_int (extend_tuple_int empty_tuple a) b"


text \<open>
  Projecting out a field keeps all the other fields in their order; when the field
  number is beyond the tuple it is the last field that disappears.
\<close>

theorem projection_removes_field:
  assumes "e t \<noteq> []"
  shows "\<exists>t'. process_project f t = Inr t' \<and> version t' = version t
     \<and> e t' = (if unat f < length (e t) then take (unat f) (e t) @ drop (Suc (unat f)) (e t) else butlast (e t))"
proof -
  have l: "length (e t) = Suc (length (e t) - 1)" using assms by simp
  show ?thesis
  proof (cases "unat f < length (e t)")
    case True
    then show ?thesis using swap_up_eq [of "unat f" "length (e t) - 1" "e t"] l assms
      by (auto simp: process_project_def butlast_append)
  next
    case False
    then have "swap_up (unat f) (length (e t) - 1) (e t) = e t" by (subst swap_up.simps) auto
    then show ?thesis using False assms by (simp add: process_project_def)
  qed
qed

theorem projection_removes_field_witness:
  "\<exists>t'. process_project 0 (pair_tuple 4 5) = Inr t' \<and> version t' = None \<and> e t' = [int_element 5]"
  using projection_removes_field [of "pair_tuple 4 5" 0]
  by (auto simp: pair_tuple_def extend_tuple_int_def add_e_def empty_tuple_def)

text \<open>
  Interval sampling at a fixed degradation level lets through one tuple in
  (drops per keep + 1): of n tuples after a fresh start exactly n div (drops + 1) pass.
\<close>

theorem interval_sampling_rate:
  assumes "0 < lvl" and "unat lvl < length ss" and "length ss < 4294967296" and "length ts < 4294967296"
  shows "\<exists>us. cfilter_process (interval_should_emit now mtime cap None) no_meta (interval_op i ss lvl mx 0) (map Some ts) msg
      = Inr (interval_op i ss lvl mx (of_nat (length ts)), map Some us, msg)
     \<and> length us = length ts div (length ss - unat lvl)"
proof -
  let ?d = "of_nat (length ss) - lvl :: u32"
  have "unat (of_nat (length ss) :: u32) = length ss" using assms(3) by (rule unat_of_nat32)
  then have d: "unat ?d = length ss - unat lvl"
    using assms(2) by (subst unat_sub) (auto simp: word_le_nat_alt)
  then have "?d \<noteq> 0" using assms(2) by (metis unat_0 zero_less_diff less_irrefl)
  then obtain us where us: "keep_tuples (interval_should_emit now mtime cap None) (interval_op i ss lvl mx 0) ts
      = Inr (interval_op i ss lvl mx (0 + of_nat (length ts)), us)" "length us = length ts div unat ?d"
    using interval_keep_count [of lvl ?d ss 0 ts now mtime cap i mx] assms(1,4) by auto
  then show ?thesis using d by (auto simp: cfilter_process_keep no_meta_def)
qed

theorem interval_sampling_rate_witness:
  "\<exists>us. cfilter_process (interval_should_emit 0 (\<lambda>_. 0) (uncongested_capacity_ratio 0) None) no_meta
        (interval_op (OpId 1 1) (interval_steps 3) 2 3 0) (map Some (replicate 10 empty_tuple)) (mk_msg DATA)
      = Inr (interval_op (OpId 1 1) (interval_steps 3) 2 3 (of_nat (length (replicate 10 empty_tuple))), map Some us, mk_msg DATA)
     \<and> length us = length (replicate 10 empty_tuple) div (length (interval_steps 3) - unat (2 :: u32))"
  by (rule interval_sampling_rate) (simp_all add: interval_steps_def)

text \<open>
  Property C34: the window cutoff passes a prefix of every batch, never lets more than its bound
  through in one window, and when a window ends starts counting anew with a bound taken from the
  levels it computed for that window.
\<close>

theorem window_cutoff_bounded:
  assumes "process_window_len now mtime cap chain_mon op tuples msg = Inr (op', out, msg')"
    and "unat (k_in_win op) \<le> unat (wl_bound op)"
  shows "out = take (unat (wl_bound op) - unat (k_in_win op)) tuples
     \<and> unat (k_in_win op) + length out \<le> unat (wl_bound op)
     \<and> (if dp_type msg = END_OF_WINDOW
        then k_in_win op' = 0 \<and> err_bound_lev op' = 0
          \<and> (\<exists>bs. level_bounds (k_in_win op + of_nat (length out)) = Inr bs \<and> wl_bound op' \<in> insert (- 1) (set bs))
        else unat (k_in_win op') = unat (k_in_win op) + length out \<and> wl_bound op' = wl_bound op)"
proof -
  obtain op1 where c: "window_cutoff op tuples = Inr (op1, out)"
    using assms(1) by (auto simp: process_window_len_def res_simps Let_def split: if_splits option.splits)
  note p = window_cutoff_prefix [OF c assms(2)]
  have le: "unat (k_in_win op) + length out \<le> unat (wl_bound op)" using p assms(2) by auto
  have k: "unat (k_in_win op + of_nat (length out)) = unat (k_in_win op) + length out"
  proof -
    have "length out < 4294967296" using le unat_u32_bound [of "wl_bound op"] by linarith
    then have "unat (of_nat (length out) :: u32) = length out" by (rule unat_of_nat32)
    then show ?thesis using le unat_u32_bound [of "wl_bound op"] by (simp add: unat_add_noov32)
  qed
  show ?thesis
  proof (cases "dp_type msg = END_OF_WINDOW")
    case True
    obtain bs i where bs: "level_bounds (k_in_win op + of_nat (length out)) = Inr bs"
      "nthE (bs[WL_LEVELS - 1 := - 1]) i = Inr (wl_bound op')" "k_in_win op' = 0" "err_bound_lev op' = 0"
      using assms(1) True p unfolding process_window_len_def c
      by (auto simp: res_simps Let_def split: option.splits)
    then have "wl_bound op' \<in> set (bs[WL_LEVELS - 1 := - 1])" by (metis nthE_eq_Inr nth_mem)
    then have "wl_bound op' \<in> insert (- 1) (set bs)" using in_set_update by fastforce
    then show ?thesis using True p le bs by auto
  next
    case False
    then have "op' = op1 \<lparr>k_in_win := k_in_win op1 + of_nat (length out)\<rparr>"
      using assms(1) c by (auto simp: process_window_len_def res_simps)
    then show ?thesis using p le False k by simp
  qed
qed

definition cutoff_op :: "unit WindowLenFilter" where
  "cutoff_op = \<lparr>wl_id = OpId 1 1, k_in_win = 1, wl_bound = 3, err_bound_lev = 0, err_field = - 1, wl_policy = None\<rparr>"

theorem window_cutoff_bounded_witness:
  "\<exists>op'. process_window_len 0 (\<lambda>_. 0) (uncongested_capacity_ratio 0) None cutoff_op [Some empty_tuple, Some empty_tuple, Some empty_tuple] (mk_msg DATA)
      = Inr (op', [Some empty_tuple, Some empty_tuple], mk_msg DATA)
    \<and> unat (k_in_win cutoff_op) + length [Some empty_tuple, Some empty_tuple] \<le> unat (wl_bound cutoff_op)
    \<and> unat (k_in_win op') = 3"
proof -
  have r: "process_window_len 0 (\<lambda>_. 0) (uncongested_capacity_ratio 0) None cutoff_op [Some empty_tuple, Some empty_tuple, Some empty_tuple] (mk_msg DATA)
      = Inr (cutoff_op \<lparr>k_in_win := 3\<rparr>, [Some empty_tuple, Some empty_tuple], mk_msg DATA)"
    by code_simp
  show ?thesis using window_cutoff_bounded [OF r] r by (auto simp: cutoff_op_def)
qed


definition variable_op :: "unit VariableSamplingOperator" where
  "variable_op = \<lparr>hs_threshold = 0, hash_field = 0, hash_type = CHR ''I'', vs_id = OpId 1 2, vs_cur_step = 2,
     vs_steps = [Fin 0, Fin (1/2), Fin 1], num_steps = 3, vs_policy = Some new_CongestionPolicy\<rparr>"


text \<open>
  Reading a file of at most 4000 lines sends one tuple per line (text between line
  breaks, a final empty line included), numbered from zero, and then stops.
\<close>

theorem file_read_all_lines:
  assumes "open_file (f_name op) = Some s" and "in_file op = None" and "\<not> skip_empty op"
    and "length (split_on newline s) \<le> 4000"
  shows "\<exists>op'. emit_file_data open_file op = (- 1, Some (number_lines (split_on newline s) (lineno op)), op')
     \<and> lineno op' = lineno op + of_nat (length (split_on newline s))"
proof -
  have "length (split_on newline s) \<le> LINES_PER_EMIT" using assms(4) by (simp add: LINES_PER_EMIT_def)
  then show ?thesis
    using assms read_lines_all [of s LINES_PER_EMIT "lineno op"] by (simp add: emit_file_data_def)
qed

theorem file_read_all_lines_witness:
  "\<exists>op'. emit_file_data (\<lambda>f. Some ''ab'') \<lparr>f_name = ''x'', skip_empty = False, in_file = None, lineno = 0\<rparr>
      = (- 1, Some [line_tuple ''ab'' 0], op')
     \<and> lineno op' = 1"
  using file_read_all_lines [of "\<lambda>f. Some ''ab''" "\<lparr>f_name = ''x'', skip_empty = False, in_file = None, lineno = 0\<rparr>" "''ab''"]
  by (simp add: newline_def)

end
