(* ===== verification/JS_Map.thy ===== *)
theory JS_Map
  imports JS_Text "HOL-Library.List_Lexorder" "HOL-Library.Char_ord"
begin

text \<open>
  The std::map of the program: an association list with strictly increasing keys, so that
  an iteration visits the entries in the order of \<^verbatim>\<open>operator<\<close> on the keys.  Strings are
  ordered lexicographically by their bytes.
\<close>

type_synonym ('k, 'v) stdmap = "('k \<times> 'v) list"

fun map_set :: "'k :: linorder \<Rightarrow> 'v \<Rightarrow> ('k, 'v) stdmap \<Rightarrow> ('k, 'v) stdmap" where
  "map_set k v [] = [(k, v)]"
| "map_set k v ((k', v') # m) =
     (if k < k' then (k, v) # (k', v') # m
      else if k = k' then (k, v) # m
      else (k', v') # map_set k v m)"

definition map_find :: "'k \<Rightarrow> ('k, 'v) stdmap \<Rightarrow> 'v option" where
  "map_find k m = map_of m k"

definition map_erase :: "'k \<Rightarrow> ('k, 'v) stdmap \<Rightarrow> ('k, 'v) stdmap" where
  "map_erase k m = filter (\<lambda>(k', _). k' \<noteq> k) m"

definition map_has :: "'k \<Rightarrow> ('k, 'v) stdmap \<Rightarrow> bool" where
  "map_has k m \<longleftrightarrow> map_find k m \<noteq> None"

text \<open>\<^verbatim>\<open>m[k]\<close> as an rvalue: a missing key is entered with the default value.\<close>

definition map_index :: "'v \<Rightarrow> 'k :: linorder \<Rightarrow> ('k, 'v) stdmap \<Rightarrow> 'v \<times> ('k, 'v) stdmap" where
  "map_index d k m = (case map_find k m of Some v \<Rightarrow> (v, m) | None \<Rightarrow> (d, map_set k d m))"

definition map_wf :: "('k :: linorder, 'v) stdmap \<Rightarrow> bool" where
  "map_wf m \<longleftrightarrow> sorted_wrt (<) (map fst m)"

lemma map_wf_Nil [simp]: "map_wf []"
  by (simp add: map_wf_def)

lemma map_wf_Cons: "map_wf ((k, v) # m) \<longleftrightarrow> (\<forall>k' \<in> fst ` set m. k < k') \<and> map_wf m"
  by (auto simp: map_wf_def)

lemma map_wf_distinct: "map_wf m \<Longrightarrow> distinct (map fst m)"
  by (simp add: map_wf_def strict_sorted_iff)

lemma map_set_keys [simp]: "fst ` set (map_set k v m) = insert k (fst ` set m)"
  by (induction k v m rule: map_set.induct) auto

lemma map_set_wf: "map_wf m \<Longrightarrow> map_wf (map_set k v m)"
  by (induction k v m rule: map_set.induct) (auto simp: map_wf_Cons)

lemma map_find_Nil [simp]: "map_find k [] = None"
  by (simp add: map_find_def)

lemma map_find_Cons: "map_find k ((k', v) # m) = (if k = k' then Some v else map_find k m)"
  by (auto simp: map_find_def)

lemma map_find_set [simp]: "map_find k' (map_set k v m) = (if k' = k then Some v else map_find k' m)"
  by (induction k v m rule: map_set.induct) (auto simp: map_find_Cons)

lemma map_find_None: "map_find k m = None \<longleftrightarrow> k \<notin> fst ` set m"
  by (simp add: map_find_def map_of_eq_None_iff)

lemma map_find_SomeD: "map_find k m = Some v \<Longrightarrow> (k, v) \<in> set m"
  by (simp add: map_find_def map_of_SomeD)

lemma map_find_Some: "map_wf m \<Longrightarrow> map_find k m = Some v \<longleftrightarrow> (k, v) \<in> set m"
  using map_wf_distinct [of m] by (auto simp: map_find_def)

lemma map_set_set:
  "map_wf m \<Longrightarrow> set (map_set k v m) = insert (k, v) {kv \<in> set m. fst kv \<noteq> k}"
  by (induction k v m rule: map_set.induct) (auto simp: map_wf_Cons)

lemma map_erase_wf: "map_wf m \<Longrightarrow> map_wf (map_erase k m)"
  by (induction m) (auto simp: map_wf_Cons map_erase_def)

lemma map_find_erase [simp]: "map_find k' (map_erase k m) = (if k' = k then None else map_find k' m)"
  by (induction m) (auto simp: map_erase_def map_find_Cons)

lemma map_has_set [simp]: "map_has k' (map_set k v m) \<longleftrightarrow> k' = k \<or> map_has k' m"
  by (simp add: map_has_def)

lemma map_set_fresh_length: "\<not> map_has k m \<Longrightarrow> length (map_set k v m) = Suc (length m)"
  by (induction k v m rule: map_set.induct) (auto simp: map_has_def map_find_Cons)

lemma map_set_fresh_mset: "\<not> map_has k m \<Longrightarrow> mset (map_set k v m) = add_mset (k, v) (mset m)"
  by (induction k v m rule: map_set.induct) (auto simp: map_has_def map_find_Cons)

lemma map_set_same:
  assumes "map_wf m" "map_find k m = Some v"
  shows "map_set k v m = m"
  using assms
proof (induction k v m rule: map_set.induct)
  case (2 k v k' v' m)
  then show ?case
    by (auto simp: map_find_Cons map_wf_Cons split: if_splits dest!: map_find_SomeD)
qed simp

lemma map_set_map:
  "map (\<lambda>(k, x). (k, f x)) (map_set k v m) = map_set k (f v) (map (\<lambda>(k, x). (k, f x)) m)"
  by (induction k v m rule: map_set.induct) auto

lemma map_find_map: "map_find k (map (\<lambda>(k, x). (k, f x)) m) = map_option f (map_find k m)"
  by (induction m) (auto simp: map_find_Cons)

lemma map_set_set_same: "map_set k v (map_set k v' m) = map_set k v m"
  by (induction k v' m rule: map_set.induct) auto

lemma map_set_not_Nil [simp]: "map_set k v m \<noteq> []"
  by (cases "(k, v, m)" rule: map_set.cases) auto

text \<open>Two well-formed maps with the same entries are the same list.\<close>

lemma map_wf_ext:
  assumes "map_wf m" "map_wf m'" "\<And>k. map_find k m = map_find k m'"
  shows "m = m'"
proof -
  have "set m = set m'" using assms by (auto simp flip: map_find_Some)
  then have "map fst m = map fst m'"
    using assms(1,2) unfolding map_wf_def
    by (intro sorted_distinct_set_unique)
      (auto simp: strict_sorted_iff)
  then have "length m = length m'" by (metis length_map)
  moreover have "m ! i = m' ! i" if "i < length m" for i
  proof (rule prod_eqI)
    show 1: "fst (m ! i) = fst (m' ! i)"
      using \<open>map fst m = map fst m'\<close> that calculation by (metis nth_map)
    have "m ! i \<in> set m'" using \<open>set m = set m'\<close> that by (metis nth_mem)
    moreover have "m' ! i \<in> set m'" using that \<open>length m = length m'\<close> by simp
    ultimately show "snd (m ! i) = snd (m' ! i)"
      using 1 map_wf_distinct [OF assms(2)] by (metis prod.collapse eq_key_imp_eq_value)
  qed
  ultimately show ?thesis by (simp add: nth_equalityI)
qed

end
