(* ===== verification/JS_Batch.thy ===== *)
theory JS_Batch
  imports JS_Map
begin

text \<open>
  The batch of tuples waiting to be written to a cube (\<^verbatim>\<open>cube/tuple_batch.h\<close>,
  \<^verbatim>\<open>cube/tuple_batch.cc\<close>): a vector of processing records, a map from the dimension key of a
  cell to its position in the vector, and a list of freed positions.  The cube the batch
  writes to is the record \<^verbatim>\<open>CubeOps\<close> of the virtual functions the batch calls, over a
  cube state of any type.
\<close>

type_synonym DimensionKey = string

record TupleProcessingInfo =
  tpi_t :: Tuple
  tpi_key :: DimensionKey
  tpi_levels :: "u32 list"
  tpi_insert :: "operator_id_t list"
  tpi_update :: "operator_id_t list"
  need_new_value :: bool
  need_old_value :: bool

definition new_TupleProcessingInfo :: "Tuple \<Rightarrow> DimensionKey \<Rightarrow> u32 list \<Rightarrow> TupleProcessingInfo" where
  "new_TupleProcessingInfo t k levels = \<lparr>tpi_t = t, tpi_key = k, tpi_levels = levels,
     tpi_insert = [], tpi_update = [], need_new_value = False, need_old_value = False\<rparr>"

record 'c CubeOps =
  cube_save_tuple :: "Tuple \<Rightarrow> bool \<Rightarrow> bool \<Rightarrow> 'c \<Rightarrow> (Tuple option \<times> Tuple option \<times> 'c) res"
  cube_save_tuple_batch :: "Tuple list \<Rightarrow> u32 list list \<Rightarrow> bool list \<Rightarrow> bool list \<Rightarrow> 'c \<Rightarrow>
     (Tuple option list \<times> Tuple option list \<times> 'c) res"
  cube_save_callback :: "TupleProcessingInfo \<Rightarrow> Tuple option \<Rightarrow> Tuple option \<Rightarrow> 'c \<Rightarrow> 'c res"

record TupleBatch =
  tpi_store :: "TupleProcessingInfo list"
  lookup :: "(DimensionKey, nat) stdmap"
  holes :: "nat list"

definition new_TupleBatch :: TupleBatch where
  "new_TupleBatch = \<lparr>tpi_store = [], lookup = [], holes = []\<rparr>"

section \<open>The operations\<close>

definition batch_set :: "TupleProcessingInfo \<Rightarrow> nat \<Rightarrow> TupleBatch \<Rightarrow> TupleBatch res" where
  "batch_set tpi pos b = bindE (updE (tpi_store b) pos tpi) (\<lambda>st.
     Inr (b \<lparr>tpi_store := st, lookup := map_set (tpi_key tpi) pos (lookup b)\<rparr>))"

definition batch_add :: "TupleProcessingInfo \<Rightarrow> TupleBatch \<Rightarrow> TupleBatch res" where
  "batch_add tpi b = (case holes b of
       pos # hs \<Rightarrow> batch_set tpi pos (b \<lparr>holes := hs\<rparr>)
     | [] \<Rightarrow> (let st = tpi_store b @ [tpi] in
         Inr (b \<lparr>tpi_store := st, lookup := map_set (tpi_key tpi) (length st - 1) (lookup b)\<rparr>)))"

definition get_stored_tuple :: "nat \<Rightarrow> TupleBatch \<Rightarrow> TupleProcessingInfo res" where
  "get_stored_tuple pos b = nthE (tpi_store b) pos"

definition remove_tuple :: "nat \<Rightarrow> TupleBatch \<Rightarrow> (TupleProcessingInfo \<times> TupleBatch) res" where
  "remove_tuple pos b = bindE (nthE (tpi_store b) pos) (\<lambda>tpi.
     Inr (tpi, b \<lparr>holes := holes b @ [pos]\<rparr>))"

definition batch_save_tuple :: "'c CubeOps \<Rightarrow> TupleProcessingInfo \<Rightarrow> 'c \<Rightarrow> 'c res" where
  "batch_save_tuple ops tpi c =
     bindE (cube_save_tuple ops (tpi_t tpi) (need_new_value tpi) (need_old_value tpi) c) (\<lambda>(new_t, old_t, c').
     cube_save_callback ops tpi new_t old_t c')"

definition insert_tuple :: "'c CubeOps \<Rightarrow> TupleProcessingInfo \<Rightarrow> bool \<Rightarrow> TupleBatch \<times> 'c \<Rightarrow> (TupleBatch \<times> 'c) res" where
  "insert_tuple ops tpi batch s = (case s of (b, c) \<Rightarrow>
     if batch then bindE (batch_add tpi b) (\<lambda>b'. Inr (b', c))
     else bindE (batch_save_tuple ops tpi c) (\<lambda>c'. Inr (b, c')))"

definition update_batched_tuple ::
  "'c CubeOps \<Rightarrow> TupleProcessingInfo \<Rightarrow> bool \<Rightarrow> TupleBatch \<times> 'c \<Rightarrow> (TupleBatch \<times> 'c) res" where
  "update_batched_tuple ops tpi batch s = (case s of (b, c) \<Rightarrow>
     let (pos, lk) = map_index 0 (tpi_key tpi) (lookup b); b1 = b \<lparr>lookup := lk\<rparr> in
     if batch then bindE (batch_set tpi pos b1) (\<lambda>b'. Inr (b', c))
     else bindE (remove_tuple pos b1) (\<lambda>(_, b'). bindE (batch_save_tuple ops tpi c) (\<lambda>c'. Inr (b', c'))))"

definition batch_contains :: "DimensionKey \<Rightarrow> TupleBatch \<Rightarrow> bool" where
  "batch_contains k b = map_has k (lookup b)"

definition batch_get :: "DimensionKey \<Rightarrow> TupleBatch \<Rightarrow> TupleProcessingInfo res" where
  "batch_get k b = (case map_find k (lookup b) of None \<Rightarrow> Inl AssertFail
     | Some pos \<Rightarrow> nthE (tpi_store b) pos)"

definition batch_size :: "TupleBatch \<Rightarrow> nat res" where
  "batch_size b = assertE (length (holes b) \<le> length (tpi_store b))
     (Inr (length (tpi_store b) - length (holes b)))"

definition batch_is_empty :: "TupleBatch \<Rightarrow> bool res" where
  "batch_is_empty b = bindE (batch_size b) (\<lambda>n. Inr (n = 0))"

definition batch_clear :: "TupleBatch \<Rightarrow> TupleBatch" where
  "batch_clear b = b \<lparr>holes := [], tpi_store := [], lookup := []\<rparr>"

section \<open>Flushing\<close>

definition eraseE :: "'a list \<Rightarrow> nat \<Rightarrow> 'a list res" where
  "eraseE xs i = (if i < length xs then Inr (take i xs @ drop (Suc i) xs) else Inl OutOfBounds)"

definition max_elems_per_batch :: nat where
  "max_elems_per_batch = 2147483647"

fun callback_loop :: "'c CubeOps \<Rightarrow> TupleProcessingInfo list \<Rightarrow> Tuple option list \<Rightarrow> Tuple option list \<Rightarrow> 'c \<Rightarrow> 'c res" where
  "callback_loop ops [] ns os c = Inr c"
| "callback_loop ops (tpi # tpis) (n # ns) (old # os) c =
     bindE (cube_save_callback ops tpi n old c) (callback_loop ops tpis ns os)"
| "callback_loop ops (tpi # tpis) ns os c = Inl OutOfBounds"

definition flush_chunk :: "'c CubeOps \<Rightarrow> TupleProcessingInfo list \<Rightarrow> nat list \<Rightarrow> 'c \<Rightarrow> 'c res" where
  "flush_chunk ops store ps c =
     bindE (mapE (nthE store) ps) (\<lambda>tpis.
     bindE (cube_save_tuple_batch ops (map tpi_t tpis) (map tpi_levels tpis)
        (map need_new_value tpis) (map need_old_value tpis) c) (\<lambda>(new_store, old_store, c').
     callback_loop ops tpis new_store old_store c'))"

function flush_loop :: "'c CubeOps \<Rightarrow> TupleProcessingInfo list \<Rightarrow> nat list \<Rightarrow> 'c \<Rightarrow> 'c res" where
  "flush_loop ops store [] c = Inr c"
| "flush_loop ops store (p # ps) c =
     bindE (flush_chunk ops store (take max_elems_per_batch (p # ps)) c)
       (flush_loop ops store (drop max_elems_per_batch (p # ps)))"
  by pat_completeness auto
termination
  by (relation "measure (\<lambda>(_, _, ps, _). length ps)") (auto simp: max_elems_per_batch_def)

lemma flush_loop_Nil_fun [simp]: "flush_loop ops store [] = Inr"
  by (simp add: fun_eq_iff)

definition batch_flush :: "'c CubeOps \<Rightarrow> TupleBatch \<times> 'c \<Rightarrow> (TupleBatch \<times> 'c) res" where
  "batch_flush ops s = (case s of (b, c) \<Rightarrow>
     bindE (foldE (\<lambda>h st. eraseE st h) (holes b) (tpi_store b)) (\<lambda>store.
     bindE (flush_loop ops store (map snd (lookup b)) c) (\<lambda>c'.
     Inr (b \<lparr>tpi_store := [], lookup := [], holes := []\<rparr>, c'))))"

section \<open>The batch as a map from keys to records\<close>

text \<open>
  A batch is clean when no position was freed, every position is the position of exactly one
  key, and the record at it carries that key.
\<close>

definition clean :: "TupleBatch \<Rightarrow> bool" where
  "clean b \<longleftrightarrow> holes b = [] \<and> map_wf (lookup b) \<and> distinct (map snd (lookup b))
     \<and> length (lookup b) = length (tpi_store b)
     \<and> (\<forall>(k, p) \<in> set (lookup b). p < length (tpi_store b) \<and> tpi_key (tpi_store b ! p) = k)"

definition batch_abs :: "TupleBatch \<Rightarrow> (DimensionKey, TupleProcessingInfo) stdmap" where
  "batch_abs b = map (\<lambda>(k, p). (k, tpi_store b ! p)) (lookup b)"

lemma clean_new [simp]: "clean new_TupleBatch"
  by (simp add: clean_def new_TupleBatch_def)

lemma batch_abs_new [simp]: "batch_abs new_TupleBatch = []"
  by (simp add: batch_abs_def new_TupleBatch_def)

lemma batch_find: "map_find k (batch_abs b) = map_option (nth (tpi_store b)) (map_find k (lookup b))"
  by (simp add: batch_abs_def map_find_map)

lemma batch_abs_wf: "clean b \<Longrightarrow> map_wf (batch_abs b)"
  by (auto simp: clean_def map_wf_def batch_abs_def comp_def split_def)

lemma clean_find:
  assumes "clean b" "map_find k (lookup b) = Some p"
  shows "p < length (tpi_store b)" "tpi_key (tpi_store b ! p) = k"
  using assms by (auto simp: clean_def dest: map_find_SomeD)

lemma clean_inj:
  assumes "clean b" "map_find k (lookup b) = Some p" "map_find k' (lookup b) = Some p"
  shows "k = k'"
  using clean_find [OF assms(1,2)] clean_find [OF assms(1,3)] by simp

lemma batch_abs_key: "clean b \<Longrightarrow> map_find k (batch_abs b) = Some tpi \<Longrightarrow> tpi_key tpi = k"
  by (auto simp: batch_find dest: clean_find)

lemma batch_contains_abs: "batch_contains k b \<longleftrightarrow> map_has k (batch_abs b)"
  by (simp add: batch_contains_def map_has_def batch_find)

lemma batch_get_abs:
  "clean b \<Longrightarrow> batch_get k b = (case map_find k (batch_abs b) of None \<Rightarrow> Inl AssertFail | Some tpi \<Rightarrow> Inr tpi)"
  using clean_find(1) by (auto simp: batch_get_def batch_find split: option.splits)

lemma batch_size_abs: "clean b \<Longrightarrow> batch_size b = Inr (length (batch_abs b))"
  by (simp add: batch_size_def clean_def batch_abs_def)

lemma batch_is_empty_abs: "clean b \<Longrightarrow> batch_is_empty b = Inr (batch_abs b = [])"
  by (auto simp: batch_is_empty_def batch_size_abs)

text \<open>A new key takes a new position at the end.\<close>

lemma batch_add_clean:
  assumes "clean b" and "\<not> batch_contains (tpi_key tpi) b"
  shows "\<exists>b'. batch_add tpi b = Inr b' \<and> clean b' \<and> batch_abs b' = map_set (tpi_key tpi) tpi (batch_abs b)"
proof -
  let ?n = "length (tpi_store b)"
  let ?lk = "map_set (tpi_key tpi) ?n (lookup b)"
  let ?b = "b \<lparr>tpi_store := tpi_store b @ [tpi], lookup := ?lk\<rparr>"
  have lt: "p < ?n" "tpi_key (tpi_store b ! p) = k" if "(k, p) \<in> set (lookup b)" for k p
    using assms(1) that by (auto simp: clean_def)
  have fresh: "\<not> map_has (tpi_key tpi) (lookup b)" using assms(2) by (simp add: batch_contains_def)
  have ms: "mset (map snd ?lk) = mset (?n # map snd (lookup b))"
    using map_set_fresh_mset [OF fresh, of ?n] by simp
  have "distinct (map snd ?lk)"
  proof -
    have "?n \<notin> set (map snd (lookup b))" by (auto dest: lt(1))
    moreover have "distinct (map snd (lookup b))" using assms(1) by (simp add: clean_def)
    ultimately show ?thesis using mset_eq_imp_distinct_iff [OF ms] by simp
  qed
  moreover have "length ?lk = Suc ?n"
    using map_set_fresh_length [OF fresh] assms(1) by (simp add: clean_def)
  moreover have "set ?lk = insert (tpi_key tpi, ?n) (set (lookup b))"
    using arg_cong [OF map_set_fresh_mset [OF fresh, of ?n], of set_mset] by simp
  moreover have "\<forall>(k, p) \<in> set ?lk. p < Suc ?n \<and> tpi_key ((tpi_store b @ [tpi]) ! p) = k"
  proof -
    have "p < Suc ?n \<and> tpi_key ((tpi_store b @ [tpi]) ! p) = k" if "(k, p) \<in> set (lookup b)" for k p
      using lt [OF that] by (simp add: nth_append)
    then show ?thesis unfolding calculation(3) by auto
  qed
  ultimately have "clean ?b"
    using assms(1) by (simp add: clean_def map_set_wf)
  moreover have "batch_abs ?b = map_set (tpi_key tpi) tpi (batch_abs b)"
  proof -
    have eq: "map (\<lambda>(k, p). (k, (tpi_store b @ [tpi]) ! p)) (lookup b) = batch_abs b"
      using lt by (auto simp: batch_abs_def nth_append)
    have "batch_abs ?b = map_set (tpi_key tpi) tpi (map (\<lambda>(k, p). (k, (tpi_store b @ [tpi]) ! p)) (lookup b))"
      using map_set_map [of "nth (tpi_store b @ [tpi])" "tpi_key tpi" ?n "lookup b"]
      by (simp add: batch_abs_def)
    then show ?thesis unfolding eq .
  qed
  moreover have "batch_add tpi b = Inr ?b"
    using assms(1) by (simp add: batch_add_def clean_def)
  ultimately show ?thesis by blast
qed

text \<open>A key of the batch keeps its position.\<close>

lemma batch_set_clean:
  assumes "clean b" and "map_find (tpi_key tpi) (lookup b) = Some pos"
  shows "\<exists>b'. batch_set tpi pos b = Inr b' \<and> clean b' \<and> lookup b' = lookup b
     \<and> batch_abs b' = map_set (tpi_key tpi) tpi (batch_abs b)"
proof -
  let ?b = "b \<lparr>tpi_store := (tpi_store b)[pos := tpi]\<rparr>"
  have pos: "pos < length (tpi_store b)" using clean_find(1) [OF assms] .
  have wf: "map_wf (lookup b)" using assms(1) by (simp add: clean_def)
  have other: "k = tpi_key tpi" if "(k, pos) \<in> set (lookup b)" for k
    using clean_inj [OF assms(1) _ assms(2), of k] that map_find_Some [OF wf] by blast
  have lt: "p < length (tpi_store b)" "tpi_key (tpi_store b ! p) = k" if "(k, p) \<in> set (lookup b)" for k p
    using assms(1) that by (auto simp: clean_def)
  have "\<forall>(k, p) \<in> set (lookup b). p < length (tpi_store b) \<and> tpi_key ((tpi_store b)[pos := tpi] ! p) = k"
  proof -
    have "tpi_key ((tpi_store b)[pos := tpi] ! p) = k" if "(k, p) \<in> set (lookup b)" for k p
      using lt [OF that] other that pos by (cases "p = pos") auto
    then show ?thesis using lt(1) by auto
  qed
  then have cl: "clean ?b"
    using assms(1) by (simp add: clean_def)
  have "map_find k (batch_abs ?b) = map_find k (map_set (tpi_key tpi) tpi (batch_abs b))" for k
  proof (cases "map_find k (lookup b)")
    case None
    then show ?thesis using assms(2) by (auto simp: batch_find)
  next
    case (Some p)
    then have "p = pos \<longleftrightarrow> k = tpi_key tpi" using clean_inj [OF assms(1) _ assms(2), of k] assms(2) by auto
    then show ?thesis using Some pos by (auto simp: batch_find)
  qed
  then have "batch_abs ?b = map_set (tpi_key tpi) tpi (batch_abs b)"
    using cl assms(1) by (intro map_wf_ext) (auto intro: batch_abs_wf map_set_wf)
  moreover have "batch_set tpi pos b = Inr ?b"
    using pos assms by (simp add: batch_set_def map_set_same [OF wf assms(2)])
  ultimately show ?thesis using cl by auto
qed

text \<open>Both batching operations enter the record under its key.\<close>

lemma insert_tuple_abs:
  assumes "clean b" and "\<not> batch_contains (tpi_key tpi) b"
  shows "\<exists>b'. insert_tuple ops tpi True (b, c) = Inr (b', c) \<and> clean b'
     \<and> batch_abs b' = map_set (tpi_key tpi) tpi (batch_abs b)"
  using batch_add_clean [OF assms] by (auto simp: insert_tuple_def)

lemma update_batched_tuple_abs:
  assumes "clean b" and "batch_contains (tpi_key tpi) b"
  shows "\<exists>b'. update_batched_tuple ops tpi True (b, c) = Inr (b', c) \<and> clean b'
     \<and> batch_abs b' = map_set (tpi_key tpi) tpi (batch_abs b)"
proof -
  obtain pos where pos: "map_find (tpi_key tpi) (lookup b) = Some pos"
    using assms(2) by (auto simp: batch_contains_def map_has_def)
  show ?thesis using batch_set_clean [OF assms(1) pos] pos
    by (auto simp: update_batched_tuple_def map_index_def)
qed

text \<open>Flushing hands the records to the cube in the order of their keys.\<close>

definition flush_records :: "'c CubeOps \<Rightarrow> TupleProcessingInfo list \<Rightarrow> 'c \<Rightarrow> 'c res" where
  "flush_records ops tpis c = (if tpis = [] then Inr c else
     bindE (cube_save_tuple_batch ops (map tpi_t tpis) (map tpi_levels tpis)
        (map need_new_value tpis) (map need_old_value tpis) c) (\<lambda>(new_store, old_store, c').
     callback_loop ops tpis new_store old_store c'))"

lemma batch_flush_abs:
  assumes "clean b" and "length (lookup b) \<le> max_elems_per_batch"
  shows "batch_flush ops (b, c) = bindE (flush_records ops (map snd (batch_abs b)) c) (\<lambda>c'. Inr (new_TupleBatch, c'))"
proof -
  let ?ps = "map snd (lookup b)"
  have m: "mapE (nthE (tpi_store b)) ?ps = Inr (map (nth (tpi_store b)) ?ps)"
    using assms(1) by (intro mapE_Inr) (auto simp: clean_def)
  have rec: "map (nth (tpi_store b)) ?ps = map snd (batch_abs b)"
    by (simp add: batch_abs_def comp_def split_def)
  have "flush_loop ops (tpi_store b) ?ps c = flush_records ops (map snd (batch_abs b)) c"
  proof (cases "lookup b")
    case Nil
    then show ?thesis by (simp add: flush_records_def batch_abs_def)
  next
    case (Cons x xs)
    then have "flush_loop ops (tpi_store b) ?ps c = flush_chunk ops (tpi_store b) ?ps c"
      using assms(2) by simp
    also have "\<dots> = flush_records ops (map snd (batch_abs b)) c"
      using Cons unfolding flush_chunk_def flush_records_def m rec [symmetric] by simp
    finally show ?thesis .
  qed
  moreover have "b \<lparr>tpi_store := [], lookup := [], holes := []\<rparr> = new_TupleBatch"
    by (cases b) (simp add: new_TupleBatch_def)
  ultimately show ?thesis using assms(1)
    by (simp add: batch_flush_def clean_def)
qed

text \<open>The positions of a clean batch are all positions of the vector, each once.\<close>

lemma clean_positions:
  assumes "clean b"
  shows "mset (map snd (lookup b)) = mset [0..<length (tpi_store b)]"
proof -
  let ?ps = "map snd (lookup b)" and ?n = "length (tpi_store b)"
  have d: "distinct ?ps" and l: "length ?ps = ?n" using assms by (auto simp: clean_def)
  have "set ?ps \<subseteq> {0..<?n}" using assms by (auto simp: clean_def)
  moreover have "card (set ?ps) = card {0..<?n}" using distinct_card [OF d] l by simp
  ultimately have "set ?ps = {0..<?n}" by (intro card_subset_eq) auto
  then show ?thesis using d set_eq_iff_mset_eq_distinct [of ?ps "[0..<?n]"] by auto
qed

lemma clean_records: "clean b \<Longrightarrow> mset (map snd (batch_abs b)) = mset (tpi_store b)"
proof -
  assume "clean b"
  have "map snd (batch_abs b) = map (nth (tpi_store b)) (map snd (lookup b))"
    by (simp add: batch_abs_def comp_def split_def)
  then have "mset (map snd (batch_abs b)) = image_mset (nth (tpi_store b)) (mset [0..<length (tpi_store b)])"
    using clean_positions [OF \<open>clean b\<close>] by (metis mset_map)
  also have "\<dots> = mset (map (nth (tpi_store b)) [0..<length (tpi_store b)])" by (simp only: mset_map)
  finally show ?thesis by (simp add: map_nth)
qed

lemma clean_keys: "clean b \<Longrightarrow> map tpi_key (map snd (batch_abs b)) = map fst (lookup b)"
  by (auto simp: batch_abs_def clean_def)


definition log_ops :: "string list CubeOps" where
  "log_ops = \<lparr>cube_save_tuple = (\<lambda>t _ _ c. Inr (Some t, None, c)),
     cube_save_tuple_batch = (\<lambda>ts _ _ _ c. Inr (map Some ts, map (\<lambda>_. None) ts, c)),
     cube_save_callback = (\<lambda>tpi _ _ c. Inr (c @ [tpi_key tpi]))\<rparr>"

definition two_cells :: TupleBatch where
  "two_cells = \<lparr>tpi_store = [new_TupleProcessingInfo empty_tuple ''b'' [], new_TupleProcessingInfo empty_tuple ''a'' []],
     lookup = [(''a'', 1), (''b'', 0)], holes = []\<rparr>"


end
