(* ===== verification/JS_Histogram.thy ===== *)
theory JS_Histogram
  imports JS_Types
begin

text \<open>
  The log-scale histogram (\<^verbatim>\<open>aggregates/quantile_est.h\<close>, \<^verbatim>\<open>aggregates/quantile_est.cc\<close>,
  class LogHistogram): bucket boundaries, binary search, insertion, merging
  with coarsening, quantiles and serialisation.  Bucket counts are 32-bit and
  the total 64-bit words, as in the code.  The abstraction \<^verbatim>\<open>represents\<close> relates
  a histogram to the multiset of values inserted; the operations are shown to
  refine the operations on multisets.
\<close>

section \<open>Bucket boundaries\<close>

text \<open>
  \<^verbatim>\<open>make_l2_buckets\<close>: the loop that appends \<^verbatim>\<open>base * (1 << exp)\<close> and moves to the next
  odd base once the value exceeds half of \<^verbatim>\<open>max\<close>.  A shift of 31 or more, or a product
  or base beyond an int, is undefined in C++.
\<close>

fun l2_loop :: "nat \<Rightarrow> int \<Rightarrow> int \<Rightarrow> nat \<Rightarrow> int list res" where
  "l2_loop 0 mx base ex = Inr []"
| "l2_loop (Suc n) mx base ex =
     checkE (ex < 31) UndefShift
     (bindE (intE (base * 2 ^ ex)) (\<lambda>v.
        if v > mx div 2
        then bindE (intE (base + 2)) (\<lambda>base'. bindE (l2_loop n mx base' 0) (\<lambda>vs. Inr (v # vs)))
        else bindE (l2_loop n mx base (Suc ex)) (\<lambda>vs. Inr (v # vs))))"

definition make_l2_buckets :: "nat \<Rightarrow> int \<Rightarrow> int list res" where
  "make_l2_buckets n mx = bindE (l2_loop (n - 1) mx 1 0) (\<lambda>vs. Inr (0 # vs))"

definition set_bucket_starts :: "nat \<Rightarrow> int list res" where
  "set_bucket_starts bucket_target =
     assertE (bucket_target > 1)
     (bindE (make_l2_buckets bucket_target (2 ^ 28)) (\<lambda>starts.
      assertE (length starts = bucket_target) (Inr (sort starts))))"

section \<open>The histogram\<close>

record LogHistogram =
  buckets :: "u32 list"
  bucket_starts :: "int list"
  total_vals :: u64

definition new_LogHistogram :: "nat \<Rightarrow> LogHistogram res" where
  "new_LogHistogram bt = bindE (set_bucket_starts bt) (\<lambda>starts.
     Inr \<lparr>buckets = replicate (length starts) 0, bucket_starts = starts, total_vals = 0\<rparr>)"

definition lh_size :: "LogHistogram \<Rightarrow> nat" where
  "lh_size h = length (buckets h) * 4"

definition lh_pop_seen :: "LogHistogram \<Rightarrow> u64" where
  "lh_pop_seen h = total_vals h"

definition lh_clear :: "LogHistogram \<Rightarrow> LogHistogram" where
  "lh_clear h = h \<lparr>buckets := replicate (length (buckets h)) 0, total_vals := 0\<rparr>"

definition bucket_count :: "LogHistogram \<Rightarrow> nat" where
  "bucket_count h = length (bucket_starts h)"

definition count_in_b :: "LogHistogram \<Rightarrow> nat \<Rightarrow> u32 res" where
  "count_in_b h b = assertE (b < length (buckets h)) (nthE (buckets h) b)"

definition bucket_min :: "LogHistogram \<Rightarrow> nat \<Rightarrow> int res" where
  "bucket_min h b = nthE (bucket_starts h) b"

definition bucket_max :: "LogHistogram \<Rightarrow> nat \<Rightarrow> int res" where
  "bucket_max h b = assertE (b < length (buckets h))
     (if b = length (buckets h) - 1 then Inr INT_MAX
      else bindE (nthE (bucket_starts h) (b + 1)) (\<lambda>s. Inr (s - 1)))"

definition bucket_bounds :: "LogHistogram \<Rightarrow> nat \<Rightarrow> (int \<times> int) res" where
  "bucket_bounds h i = bindE (bucket_min h i) (\<lambda>a. bindE (bucket_max h i) (\<lambda>b. Inr (a, b)))"

text \<open>
  The binary search.  \<^verbatim>\<open>b_hi = b - 1\<close> on a size_t wraps to the maximum when \<^verbatim>\<open>b\<close> is 0; the
  next round then reads far outside the vector, which is the error given here.
\<close>

function bucket_with_loop :: "LogHistogram \<Rightarrow> int \<Rightarrow> nat \<Rightarrow> nat \<Rightarrow> nat \<Rightarrow> nat res" where
  "bucket_with_loop h v b_low b_hi b =
     (if b_hi \<ge> b_low then
        let m = (b_hi + b_low) div 2 in
        bindE (bucket_min h m) (\<lambda>mn.
          if mn > v then (if m = 0 then Inl OutOfBounds else bucket_with_loop h v b_low (m - 1) m)
          else bindE (bucket_max h m) (\<lambda>mx.
            if mx < v then bucket_with_loop h v (m + 1) b_hi m else Inr m))
      else Inr b)"
  by pat_completeness auto

termination
  by (relation "measure (\<lambda>(h, v, b_low, b_hi, b). b_hi + 1 - b_low)") auto

declare bucket_with_loop.simps [simp del]

definition bucket_with :: "LogHistogram \<Rightarrow> int \<Rightarrow> nat res" where
  "bucket_with h v = (if buckets h = [] then Inl OutOfBounds
     else bucket_with_loop h v 0 (length (buckets h) - 1) 0)"

definition lh_add_item :: "int \<Rightarrow> u32 \<Rightarrow> LogHistogram \<Rightarrow> LogHistogram res" where
  "lh_add_item v c h = assertE (c < 2 ^ 30)
     (bindE (bucket_with h v) (\<lambda>b.
      bindE (nthE (buckets h) b) (\<lambda>x.
        Inr (h \<lparr>buckets := (buckets h)[b := x + c], total_vals := total_vals h + ucast c\<rparr>))))"

text \<open>\<^verbatim>\<open>add_data\<close> of the base class QuantileEstimation.\<close>

definition lh_add_data :: "int list \<Rightarrow> LogHistogram \<Rightarrow> LogHistogram res" where
  "lh_add_data xs h = foldE (\<lambda>v. lh_add_item v 1) xs h"

fun quantile_loop :: "u32 list \<Rightarrow> double \<Rightarrow> u32 \<Rightarrow> nat \<Rightarrow> nat" where
  "quantile_loop [] target cum i = nat INT_MAX"
| "quantile_loop (b # bs) target cum i =
     (let cum' = cum + b in if dle target (dof_u32 cum') then i else quantile_loop bs target cum' (Suc i))"

definition quantile_bucket :: "LogHistogram \<Rightarrow> double \<Rightarrow> nat" where
  "quantile_bucket h q = quantile_loop (buckets h) (dmul q (dof_u64 (total_vals h))) 0 0"

definition lh_quantile :: "LogHistogram \<Rightarrow> double \<Rightarrow> int res" where
  "lh_quantile h q = (let i = quantile_bucket h q in
     bindE (bucket_max h i) (\<lambda>mx. bindE (bucket_min h i) (\<lambda>mn.
     bindE (intE (mx + mn)) (\<lambda>s. Inr (if 0 \<le> s then s div 2 else - ((- s) div 2))))))"

definition quantile_range :: "LogHistogram \<Rightarrow> double \<Rightarrow> (int \<times> int) res" where
  "quantile_range h q = bucket_bounds h (quantile_bucket h q)"

text \<open>std::accumulate with an int initial value: each sum is taken modulo 2 to the 32.\<close>

definition accumulate32 :: "u32 list \<Rightarrow> u32" where
  "accumulate32 ws = fold (\<lambda>w acc. acc + w) ws 0"

definition lh_fillIn :: "JSHistogram \<Rightarrow> LogHistogram res" where
  "lh_fillIn s = bindE (set_bucket_starts (unat (num_buckets s))) (\<lambda>starts.
     let vals = bucket_vals s; n = length starts in
     assertE (length vals \<le> n)
     (assertE (\<forall>v \<in> set vals. v \<ge> 0)
      (let ws = map word_of_int vals in
       Inr \<lparr>buckets = ws @ replicate (n - length ws) 0, bucket_starts = starts,
         total_vals = sum_list (map ucast ws)\<rparr>)))"

definition lh_to_js :: "LogHistogram \<Rightarrow> JSHistogram" where
  "lh_to_js h = \<lparr>bucket_vals = map sint (take (bucket_count h) (buckets h)),
     num_buckets = of_nat (bucket_count h)\<rparr>"

definition lh_serialize_to :: "LogHistogram \<Rightarrow> JSSummary \<Rightarrow> JSSummary" where
  "lh_serialize_to h q = q \<lparr>histo := Some (lh_to_js h)\<rparr>"

text \<open>The loop of \<^verbatim>\<open>merge_in\<close> for a finer right-hand side; \<^verbatim>\<open>fuel\<close> is the number of source
  buckets left.\<close>

fun merge_loop :: "LogHistogram \<Rightarrow> int list \<Rightarrow> nat \<Rightarrow> nat \<Rightarrow> nat \<Rightarrow> u32 list \<Rightarrow> u32 list res" where
  "merge_loop rhs starts 0 src dest bs = Inr bs"
| "merge_loop rhs starts (Suc k) src dest bs =
     bindE (nthE (buckets rhs) src) (\<lambda>x.
     assertE (x < 2 ^ 30)
     (bindE (nthE bs dest) (\<lambda>y.
      bindE (if dest < length starts - 1
             then bindE (nthE (bucket_starts rhs) (src + 1)) (\<lambda>a.
                  bindE (nthE starts (dest + 1)) (\<lambda>b. Inr (a \<ge> b)))
             else Inr False) (\<lambda>advance.
      merge_loop rhs starts k (Suc src) (if advance then dest + 1 else dest) (bs[dest := y + x])))))"

definition lh_merge_buckets :: "LogHistogram \<Rightarrow> LogHistogram \<Rightarrow> u32 list res" where
  "lh_merge_buckets h rhs =
     (if bucket_count rhs = bucket_count h
      then mapE (\<lambda>b. bindE (nthE (buckets h) b) (\<lambda>x. bindE (nthE (buckets rhs) b) (\<lambda>y. Inr (x + y))))
             [0..<bucket_count h]
      else bindE (merge_loop rhs (bucket_starts h) (bucket_count rhs - 1) 0 0 (buckets h)) (\<lambda>bs.
           bindE (nthE bs (bucket_count h - 1)) (\<lambda>x.
           bindE (nthE (buckets rhs) (bucket_count rhs - 1)) (\<lambda>y.
             Inr (bs[bucket_count h - 1 := x + y])))))"

definition lh_merge_in :: "LogHistogram \<Rightarrow> LogHistogram \<Rightarrow> LogHistogram res" where
  "lh_merge_in h rhs =
     assertE (total_vals rhs = ucast (accumulate32 (buckets rhs)))
     (assertE (total_vals h = ucast (accumulate32 (buckets h)))
     (assertE (bucket_count rhs \<ge> bucket_count h)
     (bindE (lh_merge_buckets h rhs)
      (\<lambda>bs. let total = total_vals h + total_vals rhs; tally = (scast (accumulate32 bs) :: u64) in
        assertE (tally = total) (Inr (h \<lparr>buckets := bs, total_vals := total\<rparr>))))))"

definition lh_equal :: "LogHistogram \<Rightarrow> LogHistogram \<Rightarrow> bool res" where
  "lh_equal h rhs =
     (if bucket_count rhs \<noteq> bucket_count h then Inr False
      else if \<exists>i < bucket_count h. buckets h ! i \<noteq> buckets rhs ! i then Inr False
      else assertE (total_vals h = total_vals rhs) (Inr True))"

section \<open>The sequence of boundaries\<close>

text \<open>Elements of the sequence are odd multiples of powers of two in a lexicographic order.\<close>

definition odd_pow :: "int \<Rightarrow> nat \<Rightarrow> int \<Rightarrow> bool" where
  "odd_pow base ex v \<longleftrightarrow> (\<exists>b k. v = b * 2 ^ k \<and> odd b \<and> 0 < b \<and> (base < b \<or> (b = base \<and> ex \<le> k)))"

lemma odd_pow_unique:
  assumes "(b::int) * 2 ^ k = b' * 2 ^ k'" and "odd b" and "odd b'"
  shows "b = b' \<and> k = k'"
proof -
  have aux: "b = b'" if "k \<le> k'" "(b::int) * 2 ^ k = b' * 2 ^ k'" "odd b" for b b' k k'
  proof -
    have "b * 2 ^ k = b' * 2 ^ (k' - k) * 2 ^ k" using that(1,2) by (simp add: power_add [symmetric] mult.assoc)
    then have "b = b' * 2 ^ (k' - k)" by simp
    then have "k' - k = 0" using that(3) by (cases "k' - k") auto
    then show ?thesis using \<open>b = b' * 2 ^ (k' - k)\<close> by simp
  qed
  have "b = b'" using aux [of k k' b b'] aux [of k' k b' b] assms by (metis nat_le_linear)
  moreover have "b \<noteq> 0" using assms(2) by auto
  ultimately show ?thesis using assms(1) by simp
qed

lemma odd_powI:
  "v = b * 2 ^ k \<Longrightarrow> odd b \<Longrightarrow> 0 < b \<Longrightarrow> base < b \<or> (b = base \<and> ex \<le> k) \<Longrightarrow> odd_pow base ex v"
  unfolding odd_pow_def by blast

lemma odd_powE:
  assumes "odd_pow base ex v"
  obtains b k where "v = b * 2 ^ k" "odd b" "0 < b" "base < b \<or> (b = base \<and> ex \<le> k)"
  using assms unfolding odd_pow_def by blast

lemma odd_pow_step: assumes "odd_pow (base + 2) 0 v" shows "odd_pow base ex v"
  using assms by (elim odd_powE) (rule odd_powI, auto)

lemma odd_pow_Suc: assumes "odd_pow base (Suc ex) v" shows "odd_pow base ex v"
  using assms by (elim odd_powE) (rule odd_powI, auto)

lemma odd_pow_self: "odd base \<Longrightarrow> 0 < base \<Longrightarrow> odd_pow base ex (base * 2 ^ ex)"
  by (rule odd_powI) auto

lemma odd_pow_not_self:
  assumes "odd base" and "odd_pow base (Suc ex) v \<or> odd_pow (base + 2) 0 v"
  shows "v \<noteq> base * 2 ^ ex"
proof
  assume v: "v = base * 2 ^ ex"
  have "odd_pow base (Suc ex) v" using assms(2) odd_pow_step by blast
  then obtain b k where b: "v = b * 2 ^ k" "odd b" "base < b \<or> (b = base \<and> Suc ex \<le> k)"
    by (rule odd_powE)
  have "b = base \<and> k = ex" by (rule odd_pow_unique [OF trans [OF b(1) [symmetric] v] b(2) assms(1)])
  then show False using b(3) by simp
qed

lemma l2_loop_elems:
  "l2_loop n mx base ex = Inr vs \<Longrightarrow> odd base \<Longrightarrow> 0 < base \<Longrightarrow>
     length vs = n \<and> distinct vs \<and> (\<forall>v \<in> set vs. odd_pow base ex v)"
proof (induction n mx base ex arbitrary: vs rule: l2_loop.induct)
  case (2 n mx base ex)
  let ?v = "base * 2 ^ ex"
  have self: "odd_pow base ex ?v" by (rule odd_pow_self [OF 2(4,5)])
  show ?case
  proof (cases "?v > mx div 2")
    case True
    then obtain ws where w: "l2_loop n mx (base + 2) 0 = Inr ws" "vs = ?v # ws" "ex < 31" "in_int ?v" "in_int (base + 2)"
      using 2(3) by (auto simp: res_simps)
    then have IH: "length ws = n \<and> distinct ws \<and> (\<forall>v \<in> set ws. odd_pow (base + 2) 0 v)"
      using 2(1) [of ?v "base + 2"] True 2(4,5) by simp
    then have "?v \<notin> set ws" using odd_pow_not_self [OF 2(4)] by blast
    then show ?thesis using IH w(2) self odd_pow_step by auto
  next
    case False
    then obtain ws where w: "l2_loop n mx base (Suc ex) = Inr ws" "vs = ?v # ws" "ex < 31" "in_int ?v"
      using 2(3) by (auto simp: res_simps)
    then have IH: "length ws = n \<and> distinct ws \<and> (\<forall>v \<in> set ws. odd_pow base (Suc ex) v)"
      using 2(2) [of ?v] False 2(4,5) by simp
    then have "?v \<notin> set ws" using odd_pow_not_self [OF 2(4)] by blast
    then show ?thesis using IH w(2) self odd_pow_Suc by auto
  qed
qed simp

lemma odd_pow_pos: "odd_pow base ex v \<Longrightarrow> 0 < v"
  by (auto simp: odd_pow_def)

lemma l2_loop_prefix:
  "l2_loop (n + m) mx base ex = Inr ws \<Longrightarrow> l2_loop n mx base ex = Inr (take n ws)"
  by (induction n mx base ex arbitrary: ws rule: l2_loop.induct) (fastforce simp: res_simps split: if_splits)+

lemma l2_loop_total:
  "base + 2 * int n \<le> 1073741824 \<Longrightarrow> 1 \<le> base \<Longrightarrow> ex \<le> 28 \<Longrightarrow> ex = 0 \<or> base * 2 ^ ex \<le> 268435456 \<Longrightarrow>
     \<exists>vs. l2_loop n 268435456 base ex = Inr vs \<and> (\<forall>v \<in> set vs. v \<le> 1073741824)"
proof (induction n arbitrary: base ex)
  case (Suc n)
  let ?v = "base * 2 ^ ex"
  have v: "1 * 1 \<le> ?v" using Suc.prems(2) by (intro mult_mono) auto
  have v2: "?v \<le> 1073741824" using Suc.prems by auto
  have i: "in_int ?v" "in_int (base + 2)" using v v2 Suc.prems(1,2) by (auto simp: in_int_def INT_MAX_def INT_MIN_def)
  show ?case
  proof (cases "?v > 134217728")
    case True
    obtain vs where vs: "l2_loop n 268435456 (base + 2) 0 = Inr vs" "\<forall>v \<in> set vs. v \<le> 1073741824"
      using Suc.IH [of "base + 2" 0] Suc.prems by auto
    then show ?thesis using True i Suc.prems(3) v2 by simp
  next
    case False
    have e: "Suc ex \<le> 28"
    proof (rule ccontr)
      assume "\<not> Suc ex \<le> 28"
      then have "ex = 28" using Suc.prems(3) by simp
      then show False using False Suc.prems(2) by simp
    qed
    obtain vs where vs: "l2_loop n 268435456 base (Suc ex) = Inr vs" "\<forall>v \<in> set vs. v \<le> 1073741824"
      using Suc.IH [of base "Suc ex"] Suc.prems False e by auto
    then show ?thesis using False i Suc.prems(3) v2 by simp
  qed
qed simp

text \<open>Well-formed boundaries: strictly increasing from 0, at least two.\<close>

definition wf_starts :: "int list \<Rightarrow> bool" where
  "wf_starts ss \<longleftrightarrow> sorted ss \<and> distinct ss \<and> 2 \<le> length ss \<and> ss ! 0 = 0 \<and> (\<forall>s \<in> set ss. s \<le> 1073741824)"

lemma set_bucket_starts_wf:
  assumes "set_bucket_starts n = Inr ss" and "n \<le> 536870912"
  shows "wf_starts ss \<and> length ss = n"
proof -
  obtain vs where n: "1 < n" and l: "l2_loop (n - 1) 268435456 1 0 = Inr vs" and ss: "ss = sort (0 # vs)"
    using assms(1) by (auto simp: set_bucket_starts_def make_l2_buckets_def res_simps)
  have e: "length vs = n - 1" "distinct vs" "\<forall>v \<in> set vs. 0 < v"
    using l2_loop_elems [OF l] odd_pow_pos by auto
  have "1 + 2 * int (n - 1) \<le> 1073741824" using assms(2) n by linarith
  then have b: "\<forall>v \<in> set vs. v \<le> 1073741824"
    using l2_loop_total [of 1 "n - 1" 0] l by auto
  have "ss ! 0 = 0"
  proof -
    have "ss \<noteq> []" "0 \<in> set ss" "sorted ss" unfolding ss by (simp_all only: sorted_sort set_sort) auto
    then obtain i where "i < length ss" "ss ! i = 0" by (metis in_set_conv_nth)
    then have "ss ! 0 \<le> 0" using \<open>sorted ss\<close> by (metis le0 sorted_nth_mono)
    moreover have "ss ! 0 \<in> set ss" using \<open>ss \<noteq> []\<close> by simp
    then have "0 \<le> ss ! 0" using ss e(3) by (force simp: set_insort_key)
    ultimately show ?thesis by simp
  qed
  moreover have "set ss = insert 0 (set vs)" "distinct ss" "sorted ss" "length ss = n"
    unfolding ss using e n by (simp_all only: set_sort distinct_sort sorted_sort length_sort) auto
  ultimately show ?thesis using b n by (auto simp: wf_starts_def)
qed

lemma set_bucket_starts_total:
  assumes "1 < n" and "n \<le> 536870912"
  shows "\<exists>ss. set_bucket_starts n = Inr ss"
proof -
  have "1 + 2 * int (n - 1) \<le> 1073741824" using assms by linarith
  then obtain vs where l: "l2_loop (n - 1) 268435456 1 0 = Inr vs"
    using l2_loop_total [of 1 "n - 1" 0] by auto
  then have "length vs = n - 1" using l2_loop_elems [OF l] by simp
  then show ?thesis using l assms(1) by (simp add: set_bucket_starts_def make_l2_buckets_def)
qed

lemma set_bucket_starts_coarser:
  assumes "set_bucket_starts n = Inr cs" and "set_bucket_starts m = Inr fs" and "n \<le> m"
  shows "set cs \<subseteq> set fs"
proof -
  obtain vs where c: "1 < n" "l2_loop (n - 1) 268435456 1 0 = Inr vs" "cs = sort (0 # vs)"
    using assms(1) by (auto simp: set_bucket_starts_def make_l2_buckets_def res_simps)
  obtain ws where f: "l2_loop (m - 1) 268435456 1 0 = Inr ws" "fs = sort (0 # ws)"
    using assms(2) by (auto simp: set_bucket_starts_def make_l2_buckets_def res_simps)
  have "m - 1 = (n - 1) + (m - n)" using assms(3) c(1) by simp
  then have "vs = take (n - 1) ws" using l2_loop_prefix [of "n - 1" "m - n"] f(1) c(2) by simp
  then show ?thesis using c(3) f(2) by (auto simp: set_insort_key dest: in_set_takeD)
qed

section \<open>The bucket of a value\<close>

definition bucket_of :: "int list \<Rightarrow> int \<Rightarrow> nat" where
  "bucket_of ss v = length (filter (\<lambda>s. s \<le> v) ss) - 1"

lemma wf_starts_less: "wf_starts ss \<Longrightarrow> i < j \<Longrightarrow> j < length ss \<Longrightarrow> ss ! i < ss ! j"
  using sorted_wrt_nth_less [of "(<)" ss i j] by (simp add: wf_starts_def strict_sorted_iff)

lemma wf_starts_le_iff: "wf_starts ss \<Longrightarrow> i < length ss \<Longrightarrow> j < length ss \<Longrightarrow> ss ! i \<le> ss ! j \<longleftrightarrow> i \<le> j"
  using wf_starts_less [of ss i j] wf_starts_less [of ss j i] by (cases i j rule: linorder_cases) auto

lemma filter_starts_take:
  assumes "wf_starts ss" and "b < length ss" and "ss ! b \<le> v" and "b + 1 < length ss \<longrightarrow> v < ss ! (b + 1)"
  shows "filter (\<lambda>s. s \<le> v) ss = take (b + 1) ss"
proof -
  have "s \<le> v" if s: "s \<in> set (take (b + 1) ss)" for s
  proof -
    obtain i where "i < b + 1" "i < length ss" "s = ss ! i" using s by (auto simp: in_set_conv_nth)
    then have "s \<le> ss ! b" using wf_starts_le_iff [OF assms(1)] assms(2) by auto
    then show ?thesis using assms(3) by simp
  qed
  moreover have "\<not> s \<le> v" if s: "s \<in> set (drop (b + 1) ss)" for s
  proof -
    obtain i where "i < length ss - (b + 1)" "s = ss ! (b + 1 + i)"
      using s by (auto simp: in_set_conv_nth)
    then have "i + (b + 1) < length ss" "s = ss ! (i + (b + 1))" by (simp_all add: add.commute)
    then have "ss ! (b + 1) \<le> s" "b + 1 < length ss" using wf_starts_le_iff [OF assms(1), of "b + 1" "i + (b + 1)"] by auto
    then show ?thesis using assms(4) by simp
  qed
  ultimately have "filter (\<lambda>s. s \<le> v) (take (b + 1) ss) = take (b + 1) ss"
    "filter (\<lambda>s. s \<le> v) (drop (b + 1) ss) = []" by (auto simp: filter_empty_conv filter_id_conv)
  then show ?thesis using append_take_drop_id [of "b + 1" ss] filter_append by (metis append_Nil2)
qed

lemma bucket_of_eqI:
  assumes "wf_starts ss" and "b < length ss" and "ss ! b \<le> v" and "b + 1 < length ss \<longrightarrow> v < ss ! (b + 1)"
  shows "bucket_of ss v = b"
  using filter_starts_take [OF assms] assms(2) by (simp add: bucket_of_def)

lemma bucket_exists:
  assumes "wf_starts ss" and "0 \<le> v"
  shows "\<exists>b < length ss. ss ! b \<le> v \<and> (b + 1 < length ss \<longrightarrow> v < ss ! (b + 1))"
proof -
  define P where "P b = (b < length ss \<and> ss ! b \<le> v)" for b
  have 0: "P 0" using assms by (auto simp: P_def wf_starts_def)
  have bd: "\<forall>b. P b \<longrightarrow> b \<le> length ss" by (auto simp: P_def)
  define g where "g = (GREATEST b. P b)"
  have g: "P g" unfolding g_def using GreatestI_nat [of P 0 "length ss"] 0 bd by blast
  have "\<not> P (g + 1)" using Greatest_le_nat [of P "g + 1" "length ss"] bd by (auto simp: g_def)
  then show ?thesis using g by (auto simp: P_def not_le)
qed

lemma bucket_of_bounds:
  assumes "wf_starts ss" and "0 \<le> v"
  shows "bucket_of ss v < length ss" and "ss ! bucket_of ss v \<le> v"
    and "bucket_of ss v + 1 < length ss \<Longrightarrow> v < ss ! (bucket_of ss v + 1)"
  using bucket_exists [OF assms] bucket_of_eqI [OF assms(1)] by metis+

lemma bucket_of_start: "wf_starts ss \<Longrightarrow> b < length ss \<Longrightarrow> bucket_of ss (ss ! b) = b"
  by (rule bucket_of_eqI) (auto simp: wf_starts_less)

lemma wf_starts_nonneg: assumes "wf_starts ss" and "s \<in> set ss" shows "0 \<le> s"
proof -
  obtain i where "i < length ss" "s = ss ! i" using assms(2) by (auto simp: in_set_conv_nth)
  then have "ss ! 0 \<le> s" using wf_starts_le_iff [OF assms(1), of 0 i] by (cases ss) auto
  then show ?thesis using assms(1) by (simp add: wf_starts_def)
qed

text \<open>Coarser boundaries: the coarse bucket of a value is that of the start of its fine bucket.\<close>

lemma bucket_of_coarser:
  assumes "wf_starts fs" and "set cs \<subseteq> set fs" and "0 \<le> v"
  shows "bucket_of cs v = bucket_of cs (fs ! bucket_of fs v)"
proof -
  note bo = bucket_of_bounds [OF assms(1,3)] and le = wf_starts_le_iff [OF assms(1)]
  have "c \<le> v \<longleftrightarrow> c \<le> fs ! bucket_of fs v" if c: "c \<in> set cs" for c
  proof -
    obtain k where k: "k < length fs" "c = fs ! k" using c assms(2) by (metis in_set_conv_nth subsetD)
    show ?thesis
    proof (cases "k \<le> bucket_of fs v")
      case True
      then have "c \<le> fs ! bucket_of fs v" using k bo(1) le by simp
      then show ?thesis using bo(2) by linarith
    next
      case False
      then have "v < fs ! (bucket_of fs v + 1)" "fs ! (bucket_of fs v + 1) \<le> c"
        using k bo(3) le [of "bucket_of fs v + 1" k] by auto
      then show ?thesis using bo(2) by linarith
    qed
  qed
  then have "filter (\<lambda>s. s \<le> v) cs = filter (\<lambda>s. s \<le> fs ! bucket_of fs v) cs"
    by (intro filter_cong) auto
  then show ?thesis by (simp add: bucket_of_def)
qed

definition wf_hist :: "LogHistogram \<Rightarrow> bool" where
  "wf_hist h \<longleftrightarrow> wf_starts (bucket_starts h) \<and> length (buckets h) = length (bucket_starts h)"

lemma bucket_min_ok: "b < length (bucket_starts h) \<Longrightarrow> bucket_min h b = Inr (bucket_starts h ! b)"
  by (simp add: bucket_min_def)

lemma bucket_max_ok:
  "wf_hist h \<Longrightarrow> b < length (buckets h) \<Longrightarrow>
     bucket_max h b = Inr (if b = length (buckets h) - 1 then INT_MAX else bucket_starts h ! (b + 1) - 1)"
  by (auto simp: bucket_max_def wf_hist_def)

lemma bucket_with_loop_finds:
  assumes "wf_hist h" and "0 \<le> v" and "v \<le> INT_MAX"
    and "lo \<le> bucket_of (bucket_starts h) v" and "bucket_of (bucket_starts h) v \<le> hi" and "hi < length (buckets h)"
  shows "bucket_with_loop h v lo hi b = Inr (bucket_of (bucket_starts h) v)"
  using assms
proof (induction h v lo hi b rule: bucket_with_loop.induct)
  case (1 h v lo hi b)
  let ?ss = "bucket_starts h" and ?t = "bucket_of (bucket_starts h) v"
  define m where "m = (hi + lo) div 2"
  have wf: "wf_starts ?ss" and len: "length (buckets h) = length ?ss" using "1.prems"(1) by (auto simp: wf_hist_def)
  have m: "lo \<le> m" "m \<le> hi" "m < length ?ss" using "1.prems"(4-6) len by (auto simp: m_def)
  note bo = bucket_of_bounds [OF wf "1.prems"(2)]
  have mn: "bucket_min h m = Inr (?ss ! m)" using m(3) by (rule bucket_min_ok)
  have mx: "bucket_max h m = Inr (if m = length (buckets h) - 1 then INT_MAX else ?ss ! (m + 1) - 1)"
    using bucket_max_ok [OF "1.prems"(1)] m(3) len by simp
  consider "?t < m" | "?t = m" | "m < ?t" by linarith
  then show ?case
  proof cases
    case 1
    then have "v < ?ss ! m" using bo wf_starts_le_iff [OF wf, of "?t + 1" m] m(3) by fastforce
    then have "bucket_with_loop h v lo hi b = bucket_with_loop h v lo (m - 1) m"
      using "1.prems"(4,5) mn 1 by (subst bucket_with_loop.simps) (auto simp: Let_def m_def [symmetric])
    also have "\<dots> = Inr ?t"
      using "1.IH"(1) [OF _ m_def, of "?ss ! m"] "1.prems" mn 1 \<open>v < ?ss ! m\<close> m by auto
    finally show ?thesis .
  next
    case 2
    have "\<not> (if m = length (buckets h) - 1 then INT_MAX else ?ss ! (m + 1) - 1) < v"
    proof (cases "m = length (buckets h) - 1")
      case False
      then have "m + 1 < length ?ss" using m(3) len by linarith
      then show ?thesis using bo(3) 2 False by simp
    qed (use "1.prems"(3) in simp)
    then show ?thesis using "1.prems"(4,5) mn mx bo(2) 2
      by (subst bucket_with_loop.simps) (simp add: Let_def m_def [symmetric])
  next
    case 3
    then have le: "?ss ! (m + 1) \<le> v" "m + 1 < length ?ss"
      using bo wf_starts_le_iff [OF wf, of "m + 1" ?t] by auto
    then have ge: "?ss ! m \<le> v" using wf_starts_less [OF wf, of m "m + 1"] by simp
    have "m \<noteq> length (buckets h) - 1" using le(2) len by linarith
    then have mx': "bucket_max h m = Inr (?ss ! (m + 1) - 1)" using mx by simp
    have "bucket_with_loop h v lo hi b = bucket_with_loop h v (m + 1) hi m"
      using "1.prems"(4,5) mn mx' le ge by (subst bucket_with_loop.simps) (auto simp: Let_def m_def [symmetric])
    also have "\<dots> = Inr ?t"
      using "1.IH"(2) [OF _ m_def mn _ mx'] "1.prems" 3 le ge by auto
    finally show ?thesis .
  qed
qed

lemma bucket_with_correct:
  assumes "wf_hist h" and "0 \<le> v" and "v \<le> INT_MAX"
  shows "bucket_with h v = Inr (bucket_of (bucket_starts h) v)"
proof -
  have "bucket_of (bucket_starts h) v < length (buckets h)" "buckets h \<noteq> []"
    using bucket_of_bounds(1) [OF _ assms(2)] assms(1) by (auto simp: wf_hist_def wf_starts_def)
  then show ?thesis using bucket_with_loop_finds [OF assms] by (simp add: bucket_with_def)
qed

section \<open>Refinement of multisets of values\<close>

definition in_bucket :: "int list \<Rightarrow> int multiset \<Rightarrow> nat \<Rightarrow> nat" where
  "in_bucket ss M b = size (filter_mset (\<lambda>x. bucket_of ss x = b) M)"

definition represents :: "LogHistogram \<Rightarrow> int multiset \<Rightarrow> bool" where
  "represents h M \<longleftrightarrow> wf_hist h \<and> (\<forall>x \<in># M. 0 \<le> x \<and> x \<le> INT_MAX)
     \<and> (\<forall>b < length (buckets h). buckets h ! b = of_nat (in_bucket (bucket_starts h) M b))
     \<and> total_vals h = of_nat (size M)"

lemma in_bucket_empty [simp]: "in_bucket ss {#} b = 0"
  by (simp add: in_bucket_def)

lemma in_bucket_plus: "in_bucket ss (M + N) b = in_bucket ss M b + in_bucket ss N b"
  by (simp add: in_bucket_def)

lemma in_bucket_replicate: "in_bucket ss (replicate_mset n v) b = (if bucket_of ss v = b then n else 0)"
  by (induction n) (auto simp: in_bucket_def)

lemma in_bucket_le: "in_bucket ss M b \<le> size M"
  by (simp add: in_bucket_def size_filter_mset_lesseq)

lemma in_bucket_sum:
  "wf_starts ss \<Longrightarrow> \<forall>x \<in># M. 0 \<le> x \<Longrightarrow> (\<Sum>b < length ss. in_bucket ss M b) = size M"
proof (induction M)
  case (add x M)
  have "(\<Sum>b < length ss. in_bucket ss (add_mset x M) b)
      = (\<Sum>b < length ss. in_bucket ss M b + (if b = bucket_of ss x then 1 else 0))"
    by (intro sum.cong) (auto simp: in_bucket_def)
  also have "\<dots> = size M + 1"
    using add bucket_of_bounds(1) [OF add.prems(1), of x] by (simp add: sum.distrib)
  finally show ?case by simp
qed simp

lemma new_represents: assumes "new_LogHistogram n = Inr h" and "n \<le> 536870912" shows "represents h {#}"
proof -
  obtain ss where s: "set_bucket_starts n = Inr ss"
    "h = \<lparr>buckets = replicate (length ss) 0, bucket_starts = ss, total_vals = 0\<rparr>"
    using assms(1) by (auto simp: new_LogHistogram_def res_simps)
  show ?thesis using set_bucket_starts_wf [OF s(1) assms(2)] by (simp add: represents_def s(2) wf_hist_def)
qed

lemma clear_represents: "represents h M \<Longrightarrow> represents (lh_clear h) {#}"
  by (simp add: represents_def lh_clear_def wf_hist_def)

lemma add_item_represents:
  assumes "represents h M" and "0 \<le> v" and "v \<le> INT_MAX" and "c < 2 ^ 30"
  shows "\<exists>h'. lh_add_item v c h = Inr h' \<and> represents h' (M + replicate_mset (unat c) v)
    \<and> bucket_starts h' = bucket_starts h"
proof -
  let ?ss = "bucket_starts h" and ?b = "bucket_of (bucket_starts h) v"
  have wf: "wf_hist h" "wf_starts ?ss" using assms(1) by (auto simp: represents_def wf_hist_def)
  have b: "?b < length (buckets h)" using bucket_of_bounds(1) [OF wf(2) assms(2)] wf(1) by (simp add: wf_hist_def)
  define h' where "h' = h \<lparr>buckets := (buckets h)[?b := buckets h ! ?b + c], total_vals := total_vals h + ucast c\<rparr>"
  have eq: "lh_add_item v c h = Inr h'"
    using bucket_with_correct [OF wf(1) assms(2,3)] b assms(4) by (simp add: lh_add_item_def h'_def)
  have bk: "buckets h' ! i = of_nat (in_bucket ?ss (M + replicate_mset (unat c) v) i)" if "i < length (buckets h)" for i
    using assms(1) that b by (auto simp: h'_def represents_def in_bucket_plus in_bucket_replicate nth_list_update)
  have tot: "total_vals h' = of_nat (size (M + replicate_mset (unat c) v))"
    using assms(1) by (simp add: h'_def represents_def)
  have f: "bucket_starts h' = ?ss" "length (buckets h') = length (buckets h)" by (simp_all add: h'_def)
  have el: "\<forall>x \<in># M + replicate_mset (unat c) v. 0 \<le> x \<and> x \<le> INT_MAX"
    using assms(1-3) by (auto simp: represents_def split: if_splits)
  have "represents h' (M + replicate_mset (unat c) v)"
    unfolding represents_def f wf_hist_def using wf bk tot el by (simp add: wf_hist_def)
  then show ?thesis using eq f(1) by blast
qed

lemma accumulate32_sum: "accumulate32 ws = sum_list ws"
proof -
  have "fold (\<lambda>w acc. acc + w) ws s = s + sum_list ws" for s :: u32
    by (induction ws arbitrary: s) (auto simp: add.assoc)
  then show ?thesis by (simp add: accumulate32_def)
qed

lemma represents_sum: assumes "represents h M" shows "accumulate32 (buckets h) = of_nat (size M)"
proof -
  have wf: "wf_starts (bucket_starts h)" "length (buckets h) = length (bucket_starts h)"
    using assms by (auto simp: represents_def wf_hist_def)
  have "sum_list (buckets h) = (\<Sum>b < length (bucket_starts h). of_nat (in_bucket (bucket_starts h) M b))"
    using assms wf(2) unfolding sum_list_sum_nth represents_def by (intro sum.cong) auto
  also have "\<dots> = of_nat (size M)"
    using in_bucket_sum [OF wf(1)] assms by (simp add: represents_def of_nat_sum [symmetric])
  finally show ?thesis by (simp add: accumulate32_sum)
qed

lemma merge_dest_step:
  assumes C: "wf_starts C" and F: "wf_starts F" and sub: "set C \<subseteq> set F" and src: "Suc src < length F"
  defines "d \<equiv> bucket_of C (F ! src)"
  shows "bucket_of C (F ! Suc src) = (if d < length C - 1 \<and> C ! (d + 1) \<le> F ! Suc src then d + 1 else d)"
proof -
  have nn: "0 \<le> F ! src" using wf_starts_nonneg [OF F] src by simp
  have lt: "F ! src < F ! Suc src" using wf_starts_less [OF F] src by simp
  note d = bucket_of_bounds [OF C nn, folded d_def]
  show ?thesis
  proof (cases "d < length C - 1 \<and> C ! (d + 1) \<le> F ! Suc src")
    case True
    then have l: "d + 1 < length C" by linarith
    then obtain k where k: "k < length F" "C ! (d + 1) = F ! k" using sub by (metis in_set_conv_nth nth_mem subsetD)
    have "\<not> k \<le> src" using d(3) [OF l] wf_starts_le_iff [OF F k(1), of src] src k(2) by fastforce
    then have "F ! Suc src \<le> C ! (d + 1)" using wf_starts_le_iff [OF F src k(1)] k(2) by simp
    then have "F ! Suc src = C ! (d + 1)" using True by simp
    then show ?thesis using True bucket_of_start [OF C l] by simp
  next
    case False
    have "bucket_of C (F ! Suc src) = d"
      using d lt False by (intro bucket_of_eqI [OF C]) auto
    then show ?thesis using False by simp
  qed
qed

lemma merge_loop_correct:
  assumes "wf_starts C" and "wf_hist rhs" and "set C \<subseteq> set (bucket_starts rhs)"
    and "\<forall>x \<in> set (buckets rhs). x < 2 ^ 30"
    and "length bs = length C" and "src + k < length (bucket_starts rhs)"
    and "dest = bucket_of C (bucket_starts rhs ! src)"
  shows "\<exists>bs'. merge_loop rhs C k src dest bs = Inr bs' \<and> length bs' = length C
    \<and> (\<forall>b < length C. bs' ! b = bs ! b
        + (\<Sum>j \<in> {src..<src + k}. if bucket_of C (bucket_starts rhs ! j) = b then buckets rhs ! j else 0))"
  using assms(5-7)
proof (induction k arbitrary: src dest bs)
  case (Suc k)
  let ?F = "bucket_starts rhs" and ?x = "buckets rhs ! src"
  have F: "wf_starts ?F" and len: "length (buckets rhs) = length ?F" using assms(2) by (auto simp: wf_hist_def)
  have src: "Suc src < length ?F" using Suc.prems(2) by simp
  have nn: "0 \<le> ?F ! src" using wf_starts_nonneg [OF F] src by simp
  have dest: "dest < length bs" using bucket_of_bounds(1) [OF assms(1) nn] Suc.prems(1,3) by simp
  have x: "?x < 2 ^ 30" using assms(4) src len by simp
  define dest' where "dest' = bucket_of C (?F ! Suc src)"
  have adv: "dest' = (if dest < length C - 1 \<and> C ! (dest + 1) \<le> ?F ! Suc src then dest + 1 else dest)"
    using merge_dest_step [OF assms(1) F assms(3) src] Suc.prems(3) by (simp add: dest'_def)
  have step: "merge_loop rhs C (Suc k) src dest bs = merge_loop rhs C k (Suc src) dest' (bs[dest := bs ! dest + ?x])"
    using x dest src len Suc.prems(1) by (auto simp: adv)
  obtain bs' where bs': "merge_loop rhs C k (Suc src) dest' (bs[dest := bs ! dest + ?x]) = Inr bs'" "length bs' = length C"
    "\<forall>b < length C. bs' ! b = bs[dest := bs ! dest + ?x] ! b
        + (\<Sum>j \<in> {Suc src..<Suc src + k}. if bucket_of C (?F ! j) = b then buckets rhs ! j else 0)"
    using Suc.IH [of "bs[dest := bs ! dest + ?x]" "Suc src" dest'] Suc.prems dest'_def by auto
  have "{src..<src + Suc k} = insert src {Suc src..<Suc src + k}" by auto
  then have "bs' ! b = bs ! b + (\<Sum>j \<in> {src..<src + Suc k}. if bucket_of C (?F ! j) = b then buckets rhs ! j else 0)"
    if "b < length C" for b
    using bs'(3) that Suc.prems(1,3) dest by (auto simp: nth_list_update add.assoc)
  then show ?case using step bs'(1,2) by auto
qed simp

lemma in_bucket_coarser:
  assumes "wf_starts F" and "set C \<subseteq> set F" and "\<forall>x \<in># N. 0 \<le> x"
  shows "in_bucket C N b = (\<Sum>j < length F. if bucket_of C (F ! j) = b then in_bucket F N j else 0)"
  using assms(3)
proof (induction N)
  case (add x N)
  have x: "0 \<le> x" and IH: "in_bucket C N b = (\<Sum>j < length F. if bucket_of C (F ! j) = b then in_bucket F N j else 0)"
    using add by auto
  have "(\<Sum>j < length F. if bucket_of C (F ! j) = b then in_bucket F (add_mset x N) j else 0)
      = (\<Sum>j < length F. (if bucket_of C (F ! j) = b then in_bucket F N j else 0)
          + (if j = bucket_of F x then (if bucket_of C (F ! j) = b then 1 else 0) else 0))"
    by (intro sum.cong) (auto simp: in_bucket_def)
  also have "\<dots> = in_bucket C N b + (if bucket_of C (F ! bucket_of F x) = b then 1 else 0)"
    using bucket_of_bounds(1) [OF assms(1) x] IH by (simp add: sum.distrib)
  also have "\<dots> = in_bucket C (add_mset x N) b"
    using bucket_of_coarser [OF assms(1,2) x] by (simp add: in_bucket_def)
  finally show ?case by simp
qed simp

lemma ucast_of_nat32: assumes "n < 4294967296" shows "(ucast (of_nat n :: u32) :: u64) = of_nat n"
proof -
  have "(of_nat (unat (of_nat n :: u32)) :: u64) = of_nat n" using unat_of_nat32 [OF assms] by simp
  then show ?thesis by (simp only: of_nat_unat)
qed

lemma scast_of_nat32: assumes "n < 2147483648" shows "(scast (of_nat n :: u32) :: u64) = of_nat n"
proof -
  have "sint (of_nat n :: u32) = int n" using sint_small32 [of "of_nat n"] unat_of_nat32 [of n] assms by simp
  then have "(of_int (sint (of_nat n :: u32)) :: u64) = of_nat n" by simp
  then show ?thesis by (simp only: of_int_sint)
qed

lemma of_nat_small_less: "n < 1073741824 \<Longrightarrow> (of_nat n :: u32) < 2 ^ 30"
  by (simp add: word_less_nat_alt unat_of_nat32)

lemma wf_starts_count_le: assumes "wf_starts C" and "wf_starts F" and "set C \<subseteq> set F" shows "length C \<le> length F"
  using assms card_mono [of "set F" "set C"] by (simp add: wf_starts_def distinct_card)

lemma wf_starts_unique:
  assumes "wf_starts C" and "wf_starts F" and "set C \<subseteq> set F" and "length C = length F"
  shows "C = F"
proof -
  have "card (set C) = card (set F)" using assms by (simp add: wf_starts_def distinct_card)
  then have "set C = set F" using assms(3) by (simp add: card_subset_eq)
  then show ?thesis using assms(1,2) by (intro sorted_distinct_set_unique) (auto simp: wf_starts_def)
qed

lemma bucket_of_last:
  assumes "wf_starts C" and "wf_starts F" and "set C \<subseteq> set F"
  shows "bucket_of C (F ! (length F - 1)) = length C - 1"
proof -
  have l: "length C - 1 < length C" "length F - 1 < length F" "2 \<le> length C" using assms(1,2) by (auto simp: wf_starts_def)
  then obtain k where "k < length F" "C ! (length C - 1) = F ! k" using assms(3) by (metis in_set_conv_nth nth_mem subsetD)
  then have "C ! (length C - 1) \<le> F ! (length F - 1)" using wf_starts_le_iff [OF assms(2)] l(2) by simp
  then show ?thesis using l by (intro bucket_of_eqI [OF assms(1)]) auto
qed

lemma merge_buckets:
  assumes "represents h M" and "represents rhs N" and "set (bucket_starts h) \<subseteq> set (bucket_starts rhs)"
    and "size N < 1073741824" and "length (bucket_starts h) < length (bucket_starts rhs)"
  shows "\<exists>bs. merge_loop rhs (bucket_starts h) (length (bucket_starts rhs) - 1) 0 0 (buckets h) = Inr bs
    \<and> length bs = length (bucket_starts h)
    \<and> (\<forall>b < length bs. bs[length (bucket_starts h) - 1 := bs ! (length (bucket_starts h) - 1)
          + buckets rhs ! (length (bucket_starts rhs) - 1)] ! b = of_nat (in_bucket (bucket_starts h) (M + N) b))"
proof -
  let ?C = "bucket_starts h" and ?F = "bucket_starts rhs"
  have C: "wf_starts ?C" "length (buckets h) = length ?C" and F: "wf_starts ?F" "length (buckets rhs) = length ?F"
    using assms(1,2) by (auto simp: represents_def wf_hist_def)
  have small: "\<forall>x \<in> set (buckets rhs). x < 2 ^ 30"
  proof
    fix x assume "x \<in> set (buckets rhs)"
    then obtain j where "j < length (buckets rhs)" "x = of_nat (in_bucket ?F N j)"
      using assms(2) by (auto simp: represents_def in_set_conv_nth)
    then show "x < 2 ^ 30" using in_bucket_le [of ?F N j] assms(4) by (simp only: of_nat_small_less)
  qed
  have F0: "?F ! 0 = ?C ! 0" "0 < length ?C" "2 \<le> length ?F" using C F by (auto simp: wf_starts_def)
  then have "0 = bucket_of ?C (?F ! 0)" using bucket_of_start [OF C(1), of 0] by simp
  moreover have wf: "wf_hist rhs" using assms(2) by (simp add: represents_def)
  moreover have lt: "0 + (length ?F - 1) < length ?F" using F0(3) by linarith
  ultimately obtain bs where bs: "merge_loop rhs ?C (length ?F - 1) 0 0 (buckets h) = Inr bs" "length bs = length ?C"
    "\<forall>b < length ?C. bs ! b = buckets h ! b
        + (\<Sum>j \<in> {0..<length ?F - 1}. if bucket_of ?C (?F ! j) = b then buckets rhs ! j else 0)"
    using merge_loop_correct [OF C(1) wf assms(3) small C(2), of 0 "length ?F - 1" 0] lt by auto
  let ?bs' = "bs[length ?C - 1 := bs ! (length ?C - 1) + buckets rhs ! (length ?F - 1)]"
  have "?bs' ! b = of_nat (in_bucket ?C (M + N) b)" if b: "b < length ?C" for b
  proof -
    let ?g = "\<lambda>j. if bucket_of ?C (?F ! j) = b then buckets rhs ! j else 0"
    have "{..<length ?F} = insert (length ?F - 1) {0..<length ?F - 1}" using F0(3) by auto
    then have sm: "(\<Sum>j < length ?F. ?g j) = ?g (length ?F - 1) + (\<Sum>j \<in> {0..<length ?F - 1}. ?g j)" by simp
    have "?bs' ! b = buckets h ! b + (\<Sum>j < length ?F. ?g j)"
      unfolding sm using bs(2,3) b bucket_of_last [OF C(1) F(1) assms(3)] by (auto simp: nth_list_update algebra_simps)
    also have "(\<Sum>j < length ?F. ?g j)
        = of_nat (\<Sum>j < length ?F. if bucket_of ?C (?F ! j) = b then in_bucket ?F N j else 0)"
      unfolding of_nat_sum using assms(2) F(2) by (intro sum.cong) (auto simp: represents_def)
    also have "\<dots> = of_nat (in_bucket ?C N b)"
      using in_bucket_coarser [OF F(1) assms(3), of N b] assms(2) by (simp add: represents_def)
    finally show ?thesis using assms(1) b C(2) by (simp add: represents_def in_bucket_plus)
  qed
  then show ?thesis using bs(1,2) by auto
qed

lemma merge_represents:
  assumes "represents h M" and "represents rhs N" and "set (bucket_starts h) \<subseteq> set (bucket_starts rhs)"
    and "size M + size N < 1073741824"
  shows "\<exists>h'. lh_merge_in h rhs = Inr h' \<and> represents h' (M + N) \<and> bucket_starts h' = bucket_starts h"
proof -
  let ?C = "bucket_starts h" and ?F = "bucket_starts rhs"
  have C: "wf_starts ?C" "length (buckets h) = length ?C" and F: "wf_starts ?F" "length (buckets rhs) = length ?F"
    using assms(1,2) by (auto simp: represents_def wf_hist_def)
  have le: "length ?C \<le> length ?F" by (rule wf_starts_count_le [OF C(1) F(1) assms(3)])
  have tot: "total_vals h = of_nat (size M)" "total_vals rhs = of_nat (size N)"
    using assms(1,2) by (auto simp: represents_def)
  have as: "total_vals rhs = ucast (accumulate32 (buckets rhs))" "total_vals h = ucast (accumulate32 (buckets h))"
    unfolding represents_sum [OF assms(1)] represents_sum [OF assms(2)] tot
    using assms(4) by (simp_all add: ucast_of_nat32)
  have "\<exists>bs. lh_merge_buckets h rhs = Inr bs \<and> length bs = length ?C \<and> (\<forall>b < length bs. bs ! b = of_nat (in_bucket ?C (M + N) b))"
  proof (cases "length ?F = length ?C")
    case True
    have eq: "?F = ?C" using wf_starts_unique [OF C(1) F(1) assms(3)] True by simp
    have "buckets h ! b + buckets rhs ! b = of_nat (in_bucket ?C (M + N) b)" if "b < length ?C" for b
      using assms(1,2) C(2) F(2) that unfolding represents_def eq by (simp add: in_bucket_plus)
    moreover
    have "lh_merge_buckets h rhs = Inr (map (\<lambda>b. buckets h ! b + buckets rhs ! b) [0..<length ?C])"
      unfolding lh_merge_buckets_def bucket_count_def using True C(2) F(2) by (auto intro!: mapE_Inr)
    ultimately show ?thesis by simp
  next
    case False
    then obtain bs where bs: "merge_loop rhs ?C (length ?F - 1) 0 0 (buckets h) = Inr bs" "length bs = length ?C"
      "\<forall>b < length bs. bs[length ?C - 1 := bs ! (length ?C - 1) + buckets rhs ! (length ?F - 1)] ! b
          = of_nat (in_bucket ?C (M + N) b)"
      using merge_buckets [OF assms(1-3)] le assms(4) by auto
    have "length ?C - 1 < length bs" "length ?F - 1 < length (buckets rhs)"
      using C F bs(2) by (auto simp: wf_starts_def)
    then have "lh_merge_buckets h rhs = Inr (bs[length ?C - 1 := bs ! (length ?C - 1) + buckets rhs ! (length ?F - 1)])"
      using False bs(1) by (simp add: lh_merge_buckets_def bucket_count_def)
    then show ?thesis using bs(2,3) by auto
  qed
  then obtain bs where bs: "lh_merge_buckets h rhs = Inr bs" "length bs = length ?C" "\<forall>b < length bs. bs ! b = of_nat (in_bucket ?C (M + N) b)"
    by blast
  let ?h' = "h \<lparr>buckets := bs, total_vals := total_vals h + total_vals rhs\<rparr>"
  have rep: "represents ?h' (M + N)"
    unfolding represents_def wf_hist_def using assms(1,2) bs(2,3) C tot by (auto simp: represents_def)
  have "accumulate32 bs = of_nat (size M + size N)" using represents_sum [OF rep] by simp
  then have "scast (accumulate32 bs) = total_vals h + total_vals rhs"
    using scast_of_nat32 [of "size M + size N"] assms(4) by (simp add: tot)
  then have "lh_merge_in h rhs = Inr ?h'"
    using as le bs(1) by (simp add: lh_merge_in_def bucket_count_def)
  then show ?thesis using rep by auto
qed

section \<open>Quantiles\<close>

text \<open>The number of values in the buckets up to one.\<close>

definition cum_count :: "int list \<Rightarrow> int multiset \<Rightarrow> nat \<Rightarrow> nat" where
  "cum_count ss M i = (\<Sum>b \<le> i. in_bucket ss M b)"

lemma quantile_loop_first:
  assumes "\<exists>j < length bs. dle t (dof_u32 (cum + sum_list (take (Suc j) bs)))"
  shows "\<exists>j < length bs. quantile_loop bs t cum i = i + j
     \<and> dle t (dof_u32 (cum + sum_list (take (Suc j) bs)))
     \<and> (\<forall>k < j. \<not> dle t (dof_u32 (cum + sum_list (take (Suc k) bs))))"
  using assms
proof (induction bs t cum i rule: quantile_loop.induct)
  case (2 b bs t cum i)
  show ?case
  proof (cases "dle t (dof_u32 (cum + b))")
    case True
    then show ?thesis by (intro exI [of _ 0]) simp
  next
    case False
    then obtain j where "j < length bs" "dle t (dof_u32 (cum + b + sum_list (take (Suc j) bs)))"
      using 2(2) by (metis (no_types, lifting) One_nat_def add.assoc less_Suc_eq_0_disj list.size(4)
          add_0_right take_0 sum_list.Cons sum_list.Nil take_Suc_Cons Suc_less_eq add.commute plus_1_eq_Suc)
    then obtain j where j: "j < length bs" "quantile_loop bs t (cum + b) (Suc i) = Suc i + j"
      "dle t (dof_u32 (cum + b + sum_list (take (Suc j) bs)))"
      "\<forall>k < j. \<not> dle t (dof_u32 (cum + b + sum_list (take (Suc k) bs)))"
      using 2(1) [OF refl] False by blast
    have "\<not> dle t (dof_u32 (cum + sum_list (take (Suc k) (b # bs))))" if "k < Suc j" for k
      using that j(4) False by (cases k) (auto simp: add.assoc)
    then show ?thesis using j(1-3) False by (intro exI [of _ "Suc j"]) (simp add: add.assoc)
  qed
qed simp

lemma represents_cum:
  assumes "represents h M" and "i < length (buckets h)"
  shows "sum_list (take (Suc i) (buckets h)) = of_nat (cum_count (bucket_starts h) M i)"
proof -
  have "sum_list (take (Suc i) (buckets h)) = (\<Sum>b \<in> {0..<Suc i}. buckets h ! b)"
    using assms(2) by (subst sum_list_sum_nth) (auto intro!: sum.cong)
  also have "\<dots> = (\<Sum>b \<in> {0..<Suc i}. of_nat (in_bucket (bucket_starts h) M b))"
    using assms by (intro sum.cong) (auto simp: represents_def)
  finally show ?thesis by (simp add: cum_count_def atLeast0_lessThan_Suc_eq_insert_0 lessThan_Suc_atMost atLeast0LessThan)
qed

lemma cum_count_le:
  assumes "represents h M" and "i < length (buckets h)"
  shows "cum_count (bucket_starts h) M i \<le> size M"
    and "Suc i = length (buckets h) \<Longrightarrow> cum_count (bucket_starts h) M i = size M"
proof -
  have wf: "wf_starts (bucket_starts h)" "length (buckets h) = length (bucket_starts h)" "\<forall>x \<in># M. 0 \<le> x"
    using assms(1) by (auto simp: represents_def wf_hist_def)
  note sm = in_bucket_sum [OF wf(1,3)]
  have "{..i} \<subseteq> {..<length (bucket_starts h)}" using assms(2) wf(2) by auto
  then show "cum_count (bucket_starts h) M i \<le> size M"
    unfolding cum_count_def sm [symmetric] by (intro sum_mono2) auto
  show "cum_count (bucket_starts h) M i = size M" if "Suc i = length (buckets h)"
    using that sm wf(2) by (simp add: cum_count_def lessThan_Suc_atMost [symmetric])
qed

lemma dof_u32_of_nat: assumes "n < 4294967296" shows "dof_u32 (of_nat n :: u32) = Fin (of_nat n)"
proof -
  have "uint (of_nat n :: u32) = int n" using unat_of_nat32 [OF assms] by (metis uint_nat)
  then show ?thesis using dof_u32_exact [of "of_nat n"] by simp
qed

lemma quantile_target:
  assumes "n < 4294967296" and "0 \<le> q" and "q \<le> 1"
  shows "dmul (Fin q) (dof_u64 (of_nat n)) = Fin (rnd (q * of_nat n)) \<and> 0 \<le> rnd (q * of_nat n) \<and> rnd (q * of_nat n) \<le> of_nat n"
proof -
  have "unat (of_nat n :: u64) = n" using assms(1) by (simp add: unat_of_nat take_bit_nat_eq_self)
  then have "uint (of_nat n :: u64) = int n" by (metis uint_nat)
  then have e: "dof_u64 (of_nat n) = Fin (of_nat n)" using dof_int_exact [of "int n"] assms(1) by simp
  have "q * of_nat n \<le> 1 * of_nat n" using assms(2,3) by (intro mult_right_mono) auto
  then have hi: "q * of_nat n \<le> of_int (int n)" by simp
  have lo: "of_int 0 \<le> q * of_nat n" using assms(2) by simp
  show ?thesis using mk_double_fin_int [OF lo hi] assms(1) by (simp add: e)
qed

section \<open>Serialisation\<close>

lemma sint_of_nat32: "n < 2147483648 \<Longrightarrow> sint (of_nat n :: u32) = int n"
  using sint_small32 [of "of_nat n"] unat_of_nat32 [of n] by simp

lemma fillIn_to_js:
  assumes "represents h M" and "set_bucket_starts (bucket_count h) = Inr (bucket_starts h)"
    and "size M < 2147483648" and "bucket_count h < 4294967296"
  shows "lh_fillIn (lh_to_js h) = Inr h"
proof -
  let ?ss = "bucket_starts h"
  have wf: "wf_starts ?ss" "length (buckets h) = length ?ss" "\<forall>x \<in># M. 0 \<le> x"
    using assms(1) by (auto simp: represents_def wf_hist_def)
  have vals: "bucket_vals (lh_to_js h) = map sint (buckets h)" by (simp add: lh_to_js_def bucket_count_def wf(2))
  have nn: "0 \<le> sint x" if x: "x \<in> set (buckets h)" for x
  proof -
    obtain b where "b < length (buckets h)" "x = of_nat (in_bucket ?ss M b)"
      using x assms(1) by (auto simp: represents_def in_set_conv_nth)
    then show ?thesis using in_bucket_le [of ?ss M b] assms(3) by (simp add: sint_of_nat32)
  qed
  have rt: "map word_of_int (bucket_vals (lh_to_js h)) = buckets h"
    unfolding vals by (simp add: map_idI)
  have "(sum_list (map ucast (buckets h)) :: u64) = (\<Sum>b < length ?ss. of_nat (in_bucket ?ss M b))"
    unfolding sum_list_sum_nth length_map wf(2) atLeast0LessThan
  proof (intro sum.cong refl)
    fix b assume "b \<in> {..<length ?ss}"
    then have "buckets h ! b = of_nat (in_bucket ?ss M b)" "b < length (buckets h)"
      using assms(1) wf(2) by (auto simp: represents_def)
    then show "map ucast (buckets h) ! b = (of_nat (in_bucket ?ss M b) :: u64)"
      using ucast_of_nat32 [of "in_bucket ?ss M b"] in_bucket_le [of ?ss M b] assms(3) by simp
  qed
  also have "\<dots> = total_vals h"
    using in_bucket_sum [OF wf(1,3)] assms(1) by (simp add: of_nat_sum [symmetric] represents_def)
  finally have tot: "sum_list (map ucast (buckets h)) = total_vals h" .
  have num: "unat (num_buckets (lh_to_js h)) = bucket_count h"
    using assms(4) by (simp add: lh_to_js_def unat_of_nat32)
  show ?thesis
    unfolding lh_fillIn_def num assms(2) rt Let_def
    using nn wf(2) tot by (simp add: vals)
qed

section \<open>Values below zero and the last bucket\<close>

lemma bucket_with_loop_negative:
  "wf_hist h \<Longrightarrow> v < 0 \<Longrightarrow> hi < length (buckets h) \<Longrightarrow> bucket_with_loop h v 0 hi b = Inl OutOfBounds"
proof (induction hi arbitrary: b rule: less_induct)
  case (less hi)
  define m where "m = hi div 2"
  have m: "m < length (bucket_starts h)" "m \<le> hi" using less.prems(1,3) by (auto simp: m_def wf_hist_def)
  have "0 \<le> bucket_starts h ! m" using wf_starts_nonneg [of "bucket_starts h"] less.prems(1) m(1) by (simp add: wf_hist_def)
  then have "bucket_with_loop h v 0 hi b = (if m = 0 then Inl OutOfBounds else bucket_with_loop h v 0 (m - 1) m)"
    using less.prems(2) m by (subst bucket_with_loop.simps) (simp add: Let_def m_def [symmetric] bucket_min_def)
  moreover have "m \<noteq> 0 \<Longrightarrow> bucket_with_loop h v 0 (m - 1) m = Inl OutOfBounds"
    using less.prems m(2) by (intro less.IH) auto
  ultimately show ?case by simp
qed

lemma add_data_represents:
  assumes "represents h M" and "\<forall>x \<in> set xs. 0 \<le> x \<and> x \<le> INT_MAX"
  shows "\<exists>h'. lh_add_data xs h = Inr h' \<and> represents h' (M + mset xs) \<and> bucket_starts h' = bucket_starts h"
  using assms
proof (induction xs arbitrary: h M)
  case Nil
  then show ?case by (simp add: lh_add_data_def)
next
  case (Cons x xs)
  obtain h1 where h1: "lh_add_item x 1 h = Inr h1" "represents h1 (M + {#x#})" "bucket_starts h1 = bucket_starts h"
    using add_item_represents [OF Cons.prems(1), of x 1] Cons.prems(2) by auto
  obtain h2 where "lh_add_data xs h1 = Inr h2" "represents h2 (M + {#x#} + mset xs)" "bucket_starts h2 = bucket_starts h1"
    using Cons.IH [OF h1(2)] Cons.prems(2) by auto
  then show ?case using h1 by (simp add: lh_add_data_def)
qed

section \<open>Properties\<close>

text \<open>Two small histograms for the witnesses: three buckets holding 3, four buckets holding 1 and 5.\<close>

definition hist3 :: LogHistogram where
  "hist3 = \<lparr>buckets = [0, 0, 1], bucket_starts = [0, 1, 2], total_vals = 1\<rparr>"

definition hist4 :: LogHistogram where
  "hist4 = \<lparr>buckets = [0, 1, 0, 1], bucket_starts = [0, 1, 2, 4], total_vals = 2\<rparr>"

lemma hist3_represents: "represents hist3 {#3#}"
  by (simp add: represents_def hist3_def wf_hist_def wf_starts_def in_bucket_def bucket_of_def INT_MAX_def
      All_less_Suc numeral_3_eq_3)

lemma hist4_represents: "represents hist4 {#1, 5#}"
  by (simp add: represents_def hist4_def wf_hist_def wf_starts_def in_bucket_def bucket_of_def INT_MAX_def
      All_less_Suc numeral_3_eq_3 numeral_2_eq_2)

lemma set_bucket_starts_4: "set_bucket_starts 4 = Inr [0, 1, 2, 4]"
  by code_simp

text \<open>
  The bucket boundaries of a histogram with n buckets exist, start at 0 and are
  strictly increasing, and the boundaries of a smaller histogram are among those of a larger one.
\<close>

theorem bucket_boundaries:
  assumes "1 < n" and "n \<le> 536870912"
  shows "\<exists>ss. set_bucket_starts n = Inr ss \<and> length ss = n \<and> ss ! 0 = 0 \<and> sorted_wrt (<) ss
     \<and> (\<forall>m fs. n \<le> m \<longrightarrow> set_bucket_starts m = Inr fs \<longrightarrow> set ss \<subseteq> set fs)"
proof -
  obtain ss where ss: "set_bucket_starts n = Inr ss" using set_bucket_starts_total [OF assms] by blast
  then show ?thesis
    using set_bucket_starts_wf [OF ss assms(2)] set_bucket_starts_coarser [OF ss]
    by (auto simp: wf_starts_def strict_sorted_iff)
qed

theorem bucket_boundaries_witness:
  "\<exists>ss. set_bucket_starts 4 = Inr ss \<and> ss = [0, 1, 2, 4] \<and> length ss = 4 \<and> sorted_wrt (<) ss"
  using bucket_boundaries [of 4] set_bucket_starts_4 by auto

text \<open>
  Property C22: the binary search terminates and returns the bucket whose bounds contain the
  value, for every value that is not negative.
\<close>

theorem bucket_search_correct:
  assumes "wf_hist h" and "0 \<le> v" and "v \<le> INT_MAX"
  shows "\<exists>b lo hi. bucket_with h v = Inr b \<and> b < bucket_count h
     \<and> bucket_bounds h b = Inr (lo, hi) \<and> lo \<le> v \<and> v \<le> hi"
proof -
  let ?b = "bucket_of (bucket_starts h) v"
  have wf: "wf_starts (bucket_starts h)" "length (buckets h) = length (bucket_starts h)"
    using assms(1) by (auto simp: wf_hist_def)
  note bo = bucket_of_bounds [OF wf(1) assms(2)]
  have mx: "bucket_max h ?b = Inr (if ?b = length (buckets h) - 1 then INT_MAX else bucket_starts h ! (?b + 1) - 1)"
    using bucket_max_ok [OF assms(1)] bo(1) wf(2) by simp
  have "v \<le> (if ?b = length (buckets h) - 1 then INT_MAX else bucket_starts h ! (?b + 1) - 1)"
  proof (cases "?b = length (buckets h) - 1")
    case False
    then have "?b + 1 < length (bucket_starts h)" using bo(1) wf(2) by linarith
    then show ?thesis using bo(3) False by simp
  qed (use assms(3) in simp)
  then show ?thesis
    using bucket_with_correct [OF assms] bo(1,2) mx
    by (simp add: bucket_bounds_def bucket_min_def bucket_count_def)
qed

theorem bucket_search_correct_witness:
  "\<exists>b lo hi. bucket_with hist4 3 = Inr b \<and> b < bucket_count hist4
     \<and> bucket_bounds hist4 b = Inr (lo, hi) \<and> lo \<le> 3 \<and> 3 \<le> hi"
  by (rule bucket_search_correct)
    (use hist4_represents in \<open>simp_all add: represents_def INT_MAX_def\<close>)

text \<open>
  Property C23: a new histogram filled with any data that is not negative represents the multiset
  of that data: every bucket holds the number of values that fall between its bounds.
\<close>

theorem histogram_of_data:
  assumes "1 < n" and "n \<le> 536870912" and "\<forall>x \<in> set xs. 0 \<le> x \<and> x \<le> INT_MAX"
  shows "\<exists>h h'. new_LogHistogram n = Inr h \<and> lh_add_data xs h = Inr h' \<and> represents h' (mset xs)
     \<and> bucket_count h' = n"
proof -
  obtain ss where ss: "set_bucket_starts n = Inr ss" using set_bucket_starts_total [OF assms(1,2)] by blast
  obtain h where h: "new_LogHistogram n = Inr h" "bucket_starts h = ss" using ss by (auto simp: new_LogHistogram_def)
  then show ?thesis
    using add_data_represents [OF new_represents [OF h(1) assms(2)] assms(3)] set_bucket_starts_wf [OF ss assms(2)]
    by (auto simp: bucket_count_def)
qed

theorem histogram_of_data_witness:
  "\<exists>h h'. new_LogHistogram 4 = Inr h \<and> lh_add_data [5, 1, 7] h = Inr h' \<and> represents h' (mset [5, 1, 7])
     \<and> bucket_count h' = 4"
  by (rule histogram_of_data) (simp_all add: INT_MAX_def)

text \<open>
  Property C24: merging a histogram into one whose boundaries are among its own succeeds and
  gives exactly the histogram, with the coarser boundaries, of the union of the two data sets.
\<close>

theorem histogram_merge:
  assumes "represents h M" and "represents rhs N" and "set (bucket_starts h) \<subseteq> set (bucket_starts rhs)"
    and "size M + size N < 1073741824"
  shows "\<exists>h'. lh_merge_in h rhs = Inr h' \<and> represents h' (M + N) \<and> bucket_starts h' = bucket_starts h"
  by (rule merge_represents [OF assms])

theorem histogram_merge_witness:
  "\<exists>h'. lh_merge_in hist3 hist4 = Inr h' \<and> represents h' ({#3#} + {#1, 5#}) \<and> bucket_starts h' = [0, 1, 2]"
  using histogram_merge [OF hist3_represents hist4_represents] by (simp add: hist3_def hist4_def)

text \<open>
  Quantile_bucket returns the first bucket at which the number of values seen so far
  reaches the quantile's share of the total, for every quantile between 0 and 1.
\<close>

theorem quantile_bucket_first:
  assumes "represents h M" and "size M < 4294967296" and "0 \<le> q" and "q \<le> 1"
  shows "\<exists>i < bucket_count h. quantile_bucket h (Fin q) = i
     \<and> rnd (q * of_nat (size M)) \<le> of_nat (cum_count (bucket_starts h) M i)
     \<and> (\<forall>k < i. of_nat (cum_count (bucket_starts h) M k) < rnd (q * of_nat (size M)))"
proof -
  let ?t = "rnd (q * of_nat (size M))" and ?ss = "bucket_starts h"
  have wf: "2 \<le> length (buckets h)" "length (buckets h) = length ?ss" and tot: "total_vals h = of_nat (size M)"
    using assms(1) by (auto simp: represents_def wf_hist_def wf_starts_def)
  note t = quantile_target [OF assms(2-4)]
  have cum: "dle (Fin ?t) (dof_u32 (0 + sum_list (take (Suc i) (buckets h)))) \<longleftrightarrow> ?t \<le> of_nat (cum_count ?ss M i)"
    if "i < length (buckets h)" for i
  proof -
    have "cum_count ?ss M i < 4294967296" using cum_count_le(1) [OF assms(1) that] assms(2) by simp
    then show ?thesis using represents_cum [OF assms(1) that] by (simp add: dof_u32_of_nat)
  qed
  have last: "length (buckets h) - 1 < length (buckets h)" "Suc (length (buckets h) - 1) = length (buckets h)"
    using wf(1) by auto
  then have "?t \<le> of_nat (cum_count ?ss M (length (buckets h) - 1))"
    using t cum_count_le(2) [OF assms(1) last(1)] by simp
  then have "\<exists>j < length (buckets h). dle (Fin ?t) (dof_u32 (0 + sum_list (take (Suc j) (buckets h))))"
    using cum [OF last(1)] last(1) by blast
  then obtain j where j: "j < length (buckets h)" "quantile_loop (buckets h) (Fin ?t) 0 0 = 0 + j"
    "dle (Fin ?t) (dof_u32 (0 + sum_list (take (Suc j) (buckets h))))"
    "\<forall>k < j. \<not> dle (Fin ?t) (dof_u32 (0 + sum_list (take (Suc k) (buckets h))))"
    using quantile_loop_first by blast
  have "quantile_bucket h (Fin q) = j" using j(2) t by (simp add: quantile_bucket_def tot)
  moreover have "of_nat (cum_count ?ss M k) < ?t" if "k < j" for k
    using j(1,4) cum [of k] that by (auto simp: not_le)
  ultimately show ?thesis using j(1,3) cum [OF j(1)] wf(2) by (auto simp: bucket_count_def)
qed

theorem quantile_bucket_first_witness:
  "\<exists>i < bucket_count hist4. quantile_bucket hist4 (Fin (1/2)) = i
     \<and> rnd (1/2 * of_nat (size {#1, 5::int#})) \<le> of_nat (cum_count (bucket_starts hist4) {#1, 5#} i)"
  using quantile_bucket_first [OF hist4_represents, of "1/2"] by auto

text \<open>
  Property C25: a histogram read back from its serialised form is the histogram that was written,
  as long as it holds fewer than 2 to the 31 values.
\<close>

theorem histogram_roundtrip:
  assumes "represents h M" and "set_bucket_starts (bucket_count h) = Inr (bucket_starts h)"
    and "size M < 2147483648" and "bucket_count h < 4294967296"
  shows "lh_fillIn (the (histo (lh_serialize_to h empty_summary))) = Inr h"
  using fillIn_to_js [OF assms] by (simp add: lh_serialize_to_def)

theorem histogram_roundtrip_witness:
  "lh_fillIn (the (histo (lh_serialize_to hist4 empty_summary))) = Inr hist4"
proof (rule histogram_roundtrip [OF hist4_represents])
  have c: "bucket_count hist4 = 4" by (simp add: bucket_count_def hist4_def)
  show "set_bucket_starts (bucket_count hist4) = Inr (bucket_starts hist4)"
    unfolding c set_bucket_starts_4 by (simp add: hist4_def)
  show "bucket_count hist4 < 4294967296" by (simp add: c)
qed simp

text \<open>
  Inserting a negative value does not land in a bucket: the unsigned index of the
  binary search wraps below zero and the search reads outside the vector of boundaries.
\<close>

theorem negative_value_out_of_bounds:
  assumes "wf_hist h" and "v < 0" and "c < 2 ^ 30"
  shows "lh_add_item v c h = Inl OutOfBounds"
proof -
  have "2 \<le> length (buckets h)" using assms(1) by (simp add: wf_hist_def wf_starts_def)
  then have "buckets h \<noteq> []" "length (buckets h) - 1 < length (buckets h)" by auto
  then show ?thesis
    using bucket_with_loop_negative [OF assms(1,2)] assms(3) by (simp add: lh_add_item_def bucket_with_def)
qed

theorem negative_value_out_of_bounds_witness:
  "lh_add_item (- 1) 1 hist4 = Inl OutOfBounds"
  by (rule negative_value_out_of_bounds)
    (use hist4_represents in \<open>simp_all add: represents_def\<close>)

text \<open>
  When the quantile falls into the last bucket, the midpoint of its bounds is not
  computed: the sum of INT_MAX and the positive lower bound overflows a signed int.
\<close>

theorem quantile_last_bucket_overflows:
  assumes "wf_hist h" and "quantile_bucket h q = length (buckets h) - 1"
  shows "lh_quantile h q = Inl IntOverflow"
proof -
  let ?n = "length (buckets h)" and ?ss = "bucket_starts h"
  have wf: "wf_starts ?ss" "?n = length ?ss" "2 \<le> ?n" using assms(1) by (auto simp: wf_hist_def wf_starts_def)
  then have "?ss ! 0 < ?ss ! (?n - 1)" by (intro wf_starts_less) auto
  then have "0 < ?ss ! (?n - 1)" using wf(1) by (simp add: wf_starts_def)
  moreover have "?n - 1 < length (buckets h)" using wf(3) by simp
  ultimately show ?thesis
    using bucket_max_ok [OF assms(1), of "?n - 1"] wf(2) assms(2)
    by (simp add: lh_quantile_def bucket_min_def intE_def in_int_def INT_MAX_def)
qed

theorem quantile_last_bucket_overflows_witness:
  "lh_quantile hist3 (Fin 1) = Inl IntOverflow"
proof (rule quantile_last_bucket_overflows)
  show "wf_hist hist3" using hist3_represents by (simp add: represents_def)
  show "quantile_bucket hist3 (Fin 1) = length (buckets hist3) - 1" by code_simp
qed

end
