(* ===== verification/JS_Sample.thy ===== *)
theory JS_Sample
  imports JS_Types
begin

text \<open>
  The sample-based estimators (\<^verbatim>\<open>aggregates/quantile_est.h\<close>,
  \<^verbatim>\<open>aggregates/quantile_est.cc\<close>, classes SampleEstimation and ReservoirSample).
  The random number generator is a state of any type; the two distributions
  drawn from it are parameters: \<^verbatim>\<open>unif hi g\<close> is a draw of
  \<^verbatim>\<open>uniform_int_distribution(0, hi)\<close> and \<^verbatim>\<open>disc p g\<close> a draw of the two-way
  discrete distribution, each with the next generator state.  What merging
  relies on is the documented range of the uniform draw.
\<close>

section \<open>State\<close>

record SampleEstimation =
  sample_of_data :: "int list"
  is_sorted :: bool

record 'g ReservoirSample = SampleEstimation +
  max_size :: u64
  total_seen :: u64
  gen :: 'g

type_synonym 'g unif_draw = "u64 \<Rightarrow> 'g \<Rightarrow> u64 \<times> 'g"
type_synonym 'g disc_draw = "double \<Rightarrow> 'g \<Rightarrow> bool \<times> 'g"

definition unif_in_range :: "'g unif_draw \<Rightarrow> bool" where
  "unif_in_range unif \<longleftrightarrow> (\<forall>hi g. fst (unif hi g) \<le> hi)"

section \<open>SampleEstimation\<close>

definition new_SampleEstimation :: SampleEstimation where
  "new_SampleEstimation = \<lparr>sample_of_data = [], is_sorted = False\<rparr>"

definition se_elements :: "'a SampleEstimation_scheme \<Rightarrow> nat" where
  "se_elements s = length (sample_of_data s)"

definition se_size :: "'a SampleEstimation_scheme \<Rightarrow> nat" where
  "se_size s = length (sample_of_data s) * 4"

definition se_pop_seen :: "SampleEstimation \<Rightarrow> u64" where
  "se_pop_seen s = of_nat (length (sample_of_data s))"

definition se_add_data :: "int list \<Rightarrow> SampleEstimation \<Rightarrow> SampleEstimation" where
  "se_add_data xs s = s \<lparr>is_sorted := False, sample_of_data := xs\<rparr>"

definition se_add_item :: "int \<Rightarrow> u32 \<Rightarrow> SampleEstimation \<Rightarrow> SampleEstimation" where
  "se_add_item v c s = s \<lparr>is_sorted := False, sample_of_data := sample_of_data s @ replicate (unat c) v\<rparr>"

text \<open>\<^verbatim>\<open>quantile\<close> sorts the vector in place the first time, and remembers that it did.\<close>

definition se_quantile :: "double \<Rightarrow> 'a SampleEstimation_scheme \<Rightarrow> (int \<times> 'a SampleEstimation_scheme) res" where
  "se_quantile q s = assertE (dlt q (Fin 1) \<and> dle (Fin 0) q)
     (let s1 = (if is_sorted s then s else s \<lparr>is_sorted := True, sample_of_data := sort (sample_of_data s)\<rparr>)
      in bindE (d_to_u64 (dmul (dof_int (int (length (sample_of_data s1)))) q)) (\<lambda>i.
         bindE (nthE (sample_of_data s1) (nat i)) (\<lambda>v. Inr (v, s1))))"

definition se_mean :: "'a SampleEstimation_scheme \<Rightarrow> double" where
  "se_mean s = ddiv (dof_int (sum_list (sample_of_data s))) (dof_int (int (length (sample_of_data s))))"

definition se_serialize_to :: "u64 \<Rightarrow> 'a SampleEstimation_scheme \<Rightarrow> JSSummary \<Rightarrow> JSSummary" where
  "se_serialize_to pop s q =
     (let old = (case sample q of None \<Rightarrow> \<lparr>smp_items = [], smp_total_items = 0, smp_max_items = 0\<rparr> | Some x \<Rightarrow> x)
      in q \<lparr>sample := Some (old \<lparr>smp_total_items := to_int32 (uint pop),
                               smp_items := smp_items old @ sample_of_data s\<rparr>)\<rparr>)"

section \<open>ReservoirSample\<close>

definition new_ReservoirSample :: "'g \<Rightarrow> int \<Rightarrow> 'g ReservoirSample" where
  "new_ReservoirSample g reserv_size =
     \<lparr>sample_of_data = [], is_sorted = False, max_size = word_of_int reserv_size, total_seen = 0, gen = g\<rparr>"

definition add_one :: "'g unif_draw \<Rightarrow> int \<Rightarrow> 'g ReservoirSample \<Rightarrow> 'g ReservoirSample res" where
  "add_one unif v s =
     bindE (if length (sample_of_data s) < unat (max_size s)
            then Inr (s \<lparr>sample_of_data := sample_of_data s @ [v]\<rparr>)
            else let (i_to_replace, g') = unif (total_seen s - 1) (gen s); s1 = s \<lparr>gen := g'\<rparr> in
                 if i_to_replace < max_size s
                 then bindE (updE (sample_of_data s) (unat i_to_replace) v) (\<lambda>d. Inr (s1 \<lparr>sample_of_data := d\<rparr>))
                 else Inr s1) (\<lambda>s2.
     Inr (s2 \<lparr>total_seen := total_seen s2 + 1\<rparr>))"

definition rs_add_item :: "'g unif_draw \<Rightarrow> int \<Rightarrow> u32 \<Rightarrow> 'g ReservoirSample \<Rightarrow> 'g ReservoirSample res" where
  "rs_add_item unif v c s = foldE (\<lambda>_. add_one unif v) (replicate (unat c) ()) s"

definition rs_add_data :: "'g unif_draw \<Rightarrow> int list \<Rightarrow> 'g ReservoirSample \<Rightarrow> 'g ReservoirSample res" where
  "rs_add_data unif xs s = foldE (add_one unif) xs s"

definition rs_pop_seen :: "'g ReservoirSample \<Rightarrow> u64" where
  "rs_pop_seen s = total_seen s"

definition rs_serialize_to :: "'g ReservoirSample \<Rightarrow> JSSummary \<Rightarrow> JSSummary" where
  "rs_serialize_to s q = (let q1 = se_serialize_to (rs_pop_seen s) s q in
     q1 \<lparr>sample := map_option (\<lambda>x. x \<lparr>smp_max_items := ucast (max_size s)\<rparr>) (sample q1)\<rparr>)"

text \<open>
  \<^verbatim>\<open>fillIn\<close> is called by constructors that do not initialise total_seen: \<^verbatim>\<open>junk\<close> is
  the value the memory happens to hold.
\<close>

definition rs_fillIn :: "'g unif_draw \<Rightarrow> 'g \<Rightarrow> u64 \<Rightarrow> JSSample \<Rightarrow> 'g ReservoirSample res" where
  "rs_fillIn unif g junk s =
     (let r = \<lparr>sample_of_data = [], is_sorted = False, max_size = ucast (smp_max_items s),
               total_seen = junk, gen = g\<rparr>
      in bindE (if length (smp_items s) \<le> unat (max_size r)
                then Inr (r \<lparr>sample_of_data := smp_items s\<rparr>)
                else foldE (add_one unif) (smp_items s) r) (\<lambda>r1.
         Inr (r1 \<lparr>total_seen := word_of_int (smp_total_items s)\<rparr>)))"

text \<open>
  \<^verbatim>\<open>merge_in\<close>: the draws that fill this reservoir from a full right-hand side, then the
  weighted replacement.  Both loops run a number of times fixed at the start.
\<close>

fun fill_from :: "'g unif_draw \<Rightarrow> int list \<Rightarrow> nat \<Rightarrow> 'g ReservoirSample \<times> u64 \<Rightarrow> ('g ReservoirSample \<times> u64) res" where
  "fill_from unif rhs 0 st = Inr st"
| "fill_from unif rhs (Suc k) (s, rhs_seen) =
     (let (rhs_idx, g') = unif (of_nat (length rhs) - 1) (gen s) in
      bindE (nthE rhs (unat rhs_idx)) (\<lambda>v.
      bindE (rs_add_item unif v 1 (s \<lparr>gen := g'\<rparr>)) (\<lambda>s'.
      fill_from unif rhs k (s', rhs_seen - 1))))"

fun replace_from :: "'g disc_draw \<Rightarrow> double \<Rightarrow> int list \<Rightarrow> nat \<Rightarrow> nat \<Rightarrow> nat \<Rightarrow> 'g ReservoirSample \<Rightarrow> 'g ReservoirSample res" where
  "replace_from disc p rhs rhs_idx i 0 s = Inr s"
| "replace_from disc p rhs rhs_idx i (Suc k) s =
     (let (which, g') = disc p (gen s); s1 = s \<lparr>gen := g'\<rparr> in
      if which then
        bindE (nthE rhs rhs_idx) (\<lambda>v.
        bindE (updE (sample_of_data s1) i v) (\<lambda>d.
        replace_from disc p rhs ((rhs_idx + 1) mod length rhs) (Suc i) k (s1 \<lparr>sample_of_data := d\<rparr>)))
      else replace_from disc p rhs rhs_idx (Suc i) k s1)"

definition rs_merge_in ::
  "'g unif_draw \<Rightarrow> 'g disc_draw \<Rightarrow> 'g ReservoirSample \<Rightarrow> 'g ReservoirSample \<Rightarrow> 'g ReservoirSample res" where
  "rs_merge_in unif disc s rhs =
     (let rdata = sample_of_data rhs in
      if length rdata < unat (max_size rhs)
      then foldE (\<lambda>v. rs_add_item unif v 1) rdata s
      else bindE (fill_from unif rdata (unat (max_size s) - unat (total_seen s)) (s, total_seen rhs)) (\<lambda>(s1, rhs_seen).
           assertE (total_seen s1 \<ge> max_size s1)
           (let p = ddiv (dof_u64 (total_seen s1)) (dof_u64 (total_seen s1 + rhs_seen));
                (start, g') = unif (of_nat (length rdata) - 1) (gen s1) in
            bindE (replace_from disc p rdata (unat start) 0 (length (sample_of_data s1)) (s1 \<lparr>gen := g'\<rparr>)) (\<lambda>s2.
            Inr (s2 \<lparr>total_seen := total_seen s2 + rhs_seen\<rparr>)))))"

section \<open>The reservoir invariant\<close>

text \<open>
  \<^verbatim>\<open>reservoir cap s n\<close>: a reservoir of capacity \<^verbatim>\<open>cap\<close> that has seen \<^verbatim>\<open>n\<close> values holds all of
  them while they fit, and exactly \<^verbatim>\<open>cap\<close> of them afterwards.
\<close>

definition reservoir :: "nat \<Rightarrow> 'g ReservoirSample \<Rightarrow> nat \<Rightarrow> bool" where
  "reservoir cap s n \<longleftrightarrow> unat (max_size s) = cap \<and> unat (total_seen s) = n
     \<and> length (sample_of_data s) = min n cap"

lemma new_reservoir: "0 \<le> k \<Longrightarrow> k \<le> INT_MAX \<Longrightarrow> reservoir (nat k) (new_ReservoirSample g k) 0"
proof -
  assume k: "0 \<le> k" "k \<le> INT_MAX"
  then have "(word_of_int k :: u64) = of_nat (nat k)" by simp
  then have "unat (word_of_int k :: u64) = nat k"
    using k unat_of_nat64 [of "nat k"] by (simp add: INT_MAX_def nat_less_iff)
  then show ?thesis by (simp add: reservoir_def new_ReservoirSample_def)
qed

lemma add_one_total:
  assumes "reservoir cap s n" and "n + 1 < 18446744073709551616"
  shows "\<exists>s'. add_one unif v s = Inr s' \<and> reservoir cap s' (n + 1)
     \<and> set (sample_of_data s') \<subseteq> insert v (set (sample_of_data s))"
proof -
  have t: "unat (total_seen s + 1) = n + 1" using assms by (subst unat_add_noov64) (auto simp: reservoir_def)
  show ?thesis
  proof (cases "length (sample_of_data s) < cap")
    case True
    then show ?thesis using assms(1) t by (auto simp: add_one_def reservoir_def)
  next
    case False
    obtain i g' where u: "unif (total_seen s - 1) (gen s) = (i, g')" by fastforce
    have l: "length (sample_of_data s) = cap" "cap \<le> n" using False assms(1) by (auto simp: reservoir_def)
    show ?thesis
    proof (cases "i < max_size s")
      case True
      then have "unat i < length (sample_of_data s)" using l assms(1) by (simp add: reservoir_def word_less_nat_alt)
      then show ?thesis using assms(1) False True t u l
        by (auto simp: add_one_def reservoir_def dest: in_set_update)
    next
      case False
      then show ?thesis using assms(1) \<open>\<not> length (sample_of_data s) < cap\<close> t u l
        by (auto simp: add_one_def reservoir_def)
    qed
  qed
qed

lemma rs_add_data_total:
  assumes "reservoir cap s n" and "n + length xs < 18446744073709551616"
  shows "\<exists>s'. rs_add_data unif xs s = Inr s' \<and> reservoir cap s' (n + length xs)
     \<and> set (sample_of_data s') \<subseteq> set xs \<union> set (sample_of_data s)"
  using assms
proof (induction xs arbitrary: s n)
  case Nil
  then show ?case by (simp add: rs_add_data_def)
next
  case (Cons x xs)
  obtain s1 where s1: "add_one unif x s = Inr s1" "reservoir cap s1 (n + 1)"
    "set (sample_of_data s1) \<subseteq> insert x (set (sample_of_data s))"
    using add_one_total [OF Cons.prems(1), of unif x] Cons.prems(2) by auto
  obtain s2 where "rs_add_data unif xs s1 = Inr s2" "reservoir cap s2 (n + 1 + length xs)"
    "set (sample_of_data s2) \<subseteq> set xs \<union> set (sample_of_data s1)"
    using Cons.IH [OF s1(2)] Cons.prems(2) by auto
  then show ?case using s1 by (auto simp: rs_add_data_def)
qed

lemma rs_add_item_data: "rs_add_item unif v c s = rs_add_data unif (replicate (unat c) v) s"
proof -
  have "foldE (\<lambda>_. add_one unif v) (replicate k ()) s = foldE (add_one unif) (replicate k v) s" for k s
    by (induction k arbitrary: s) (auto intro: bindE_cong)
  then show ?thesis by (simp add: rs_add_item_def rs_add_data_def)
qed

lemma rs_add_item_total:
  assumes "reservoir cap s n" and "n + unat c < 18446744073709551616"
  shows "\<exists>s'. rs_add_item unif v c s = Inr s' \<and> reservoir cap s' (n + unat c)
     \<and> set (sample_of_data s') \<subseteq> insert v (set (sample_of_data s))"
  using rs_add_data_total [OF assms(1), of "replicate (unat c) v" unif] assms(2)
  by (force simp: rs_add_item_data)

lemma rs_add_item_one: "rs_add_item unif v 1 s = add_one unif v s"
  by (simp add: rs_add_item_def)

lemma rs_add_item_one_fun: "(\<lambda>v. rs_add_item unif v 1) = add_one unif"
  by (simp add: fun_eq_iff rs_add_item_one)

lemma fill_from_total:
  assumes "reservoir cap s n" and "n + k < 18446744073709551616" and "unif_in_range unif" and "rhs \<noteq> []"
    and "length rhs < 18446744073709551616"
  shows "\<exists>s'. fill_from unif rhs k (s, r) = Inr (s', r - of_nat k) \<and> reservoir cap s' (n + k)
     \<and> set (sample_of_data s') \<subseteq> set rhs \<union> set (sample_of_data s)"
  using assms(1,2)
proof (induction k arbitrary: s n r)
  case (Suc k)
  obtain i g' where u: "unif (of_nat (length rhs) - 1) (gen s) = (i, g')" by fastforce
  have l: "unat (of_nat (length rhs) :: u64) = length rhs"
    using assms(5) by (rule unat_of_nat64)
  have "i \<le> of_nat (length rhs) - 1" using assms(3) u by (metis unif_in_range_def fst_conv)
  moreover have "unat (of_nat (length rhs) - 1 :: u64) = length rhs - 1"
    using l assms(4) unat_sub [of 1 "of_nat (length rhs) :: u64"] by (simp add: word_le_nat_alt Suc_le_eq)
  ultimately have "unat i < length rhs" using assms(4) by (cases rhs) (auto simp: word_le_nat_alt)
  then have i: "nthE rhs (unat i) = Inr (rhs ! unat i)" "rhs ! unat i \<in> set rhs" by auto
  have "reservoir cap (s \<lparr>gen := g'\<rparr>) n" using Suc.prems(1) by (simp add: reservoir_def)
  then obtain s1 where s1: "add_one unif (rhs ! unat i) (s \<lparr>gen := g'\<rparr>) = Inr s1" "reservoir cap s1 (n + 1)"
    "set (sample_of_data s1) \<subseteq> insert (rhs ! unat i) (set (sample_of_data s))"
    using add_one_total [of cap "s \<lparr>gen := g'\<rparr>" n unif "rhs ! unat i"] Suc.prems(2) by auto
  obtain s2 where "fill_from unif rhs k (s1, r - 1) = Inr (s2, r - 1 - of_nat k)" "reservoir cap s2 (n + 1 + k)"
    "set (sample_of_data s2) \<subseteq> set rhs \<union> set (sample_of_data s1)"
    using Suc.IH [OF s1(2), of "r - 1"] Suc.prems(2) by auto
  then show ?case using u i s1 by (auto simp: rs_add_item_one algebra_simps)
qed simp

lemma replace_from_total:
  assumes "i + k \<le> length (sample_of_data s)" and "rhs_idx < length rhs"
  shows "\<exists>s'. replace_from disc p rhs rhs_idx i k s = Inr s' \<and> max_size s' = max_size s \<and> total_seen s' = total_seen s
     \<and> length (sample_of_data s') = length (sample_of_data s)
     \<and> set (sample_of_data s') \<subseteq> set rhs \<union> set (sample_of_data s)"
  using assms
proof (induction k arbitrary: s i rhs_idx)
  case (Suc k)
  obtain w g' where d: "disc p (gen s) = (w, g')" by fastforce
  show ?case
  proof (cases w)
    case True
    let ?s = "s \<lparr>gen := g', sample_of_data := (sample_of_data s)[i := rhs ! rhs_idx]\<rparr>"
    have "rhs ! rhs_idx \<in> set rhs" using Suc.prems(2) by simp
    then have sub: "set (sample_of_data ?s) \<subseteq> set rhs \<union> set (sample_of_data s)"
      by (auto dest: in_set_update)
    have "(rhs_idx + 1) mod length rhs < length rhs" using Suc.prems(2) by (cases rhs) auto
    then obtain s2 where "replace_from disc p rhs ((rhs_idx + 1) mod length rhs) (Suc i) k ?s = Inr s2"
      "max_size s2 = max_size ?s \<and> total_seen s2 = total_seen ?s \<and> length (sample_of_data s2) = length (sample_of_data ?s)
        \<and> set (sample_of_data s2) \<subseteq> set rhs \<union> set (sample_of_data ?s)"
      using Suc.IH [of "Suc i" ?s "(rhs_idx + 1) mod length rhs"] Suc.prems(1) by auto
    then show ?thesis using d True Suc.prems sub by auto
  next
    case False
    let ?s = "s \<lparr>gen := g'\<rparr>"
    obtain s2 where "replace_from disc p rhs rhs_idx (Suc i) k ?s = Inr s2"
      "max_size s2 = max_size ?s \<and> total_seen s2 = total_seen ?s \<and> length (sample_of_data s2) = length (sample_of_data ?s)
        \<and> set (sample_of_data s2) \<subseteq> set rhs \<union> set (sample_of_data ?s)"
      using Suc.IH [of "Suc i" ?s rhs_idx] Suc.prems by auto
    then show ?thesis using d False by auto
  qed
qed simp

lemma rs_merge_total:
  assumes "reservoir cap s n" and "reservoir cap rhs m" and "0 < cap" and "cap + n + m < 18446744073709551616"
    and "unif_in_range unif"
  shows "\<exists>s'. rs_merge_in unif disc s rhs = Inr s' \<and> reservoir cap s' (n + m)
     \<and> set (sample_of_data s') \<subseteq> set (sample_of_data rhs) \<union> set (sample_of_data s)"
proof (cases "length (sample_of_data rhs) < cap")
  case True
  then have "length (sample_of_data rhs) = m" using assms(2) by (auto simp: reservoir_def)
  then show ?thesis
    using rs_add_data_total [OF assms(1), of "sample_of_data rhs" unif] assms(2,4) True
    by (auto simp: rs_merge_in_def reservoir_def rs_add_data_def rs_add_item_one_fun)
next
  case False
  let ?R = "sample_of_data rhs"
  have R: "length ?R = cap" "cap \<le> m" "?R \<noteq> []" using False assms(2,3) by (auto simp: reservoir_def)
  have f: "unat (max_size s) = cap" "unat (total_seen s) = n" "unat (max_size rhs) = cap" "unat (total_seen rhs) = m"
    using assms(1,2) by (auto simp: reservoir_def)
  have lim: "n + (cap - n) < 18446744073709551616" "length ?R < 18446744073709551616"
    using assms(4) R(1) by linarith+
  obtain s1 where s1: "fill_from unif ?R (cap - n) (s, total_seen rhs) = Inr (s1, total_seen rhs - of_nat (cap - n))"
    "reservoir cap s1 (n + (cap - n))" "set (sample_of_data s1) \<subseteq> set ?R \<union> set (sample_of_data s)"
    using fill_from_total [OF assms(1) lim(1) assms(5) R(3) lim(2)] by blast
  have full: "length (sample_of_data s1) = cap" "total_seen s1 \<ge> max_size s1"
    using s1(2) by (auto simp: reservoir_def word_le_nat_alt)
  obtain st g' where u: "unif (of_nat (length ?R) - 1) (gen s1) = (st, g')" by fastforce
  have l: "unat (of_nat (length ?R) :: u64) = cap" using R(1) assms(4) by (simp add: unat_of_nat64)
  have "st \<le> of_nat (length ?R) - 1" using assms(5) u by (metis unif_in_range_def fst_conv)
  moreover have "unat (of_nat (length ?R) - 1 :: u64) = cap - 1"
    using l assms(3) unat_sub [of 1 "of_nat (length ?R) :: u64"] by (simp add: word_le_nat_alt Suc_le_eq)
  ultimately have st: "unat st < length ?R" using R(1) assms(3) by (simp add: word_le_nat_alt)
  let ?p = "ddiv (dof_u64 (total_seen s1)) (dof_u64 (total_seen s1 + (total_seen rhs - of_nat (cap - n))))"
  obtain s2 where s2: "replace_from disc ?p ?R (unat st) 0 cap (s1 \<lparr>gen := g'\<rparr>) = Inr s2"
    "max_size s2 = max_size s1" "total_seen s2 = total_seen s1" "length (sample_of_data s2) = cap"
    "set (sample_of_data s2) \<subseteq> set ?R \<union> set (sample_of_data s1)"
    using replace_from_total [of 0 cap "s1 \<lparr>gen := g'\<rparr>" "unat st" ?R disc ?p] full(1) st by auto
  have tot: "total_seen s2 + (total_seen rhs - of_nat (cap - n)) = total_seen s + total_seen rhs"
  proof -
    have w: "of_nat (unat x) = x" for x :: u64 by simp
    have "total_seen s1 = of_nat (n + (cap - n))" using s1(2) w by (metis reservoir_def)
    moreover have "total_seen s = of_nat n" using f(2) w by metis
    ultimately show ?thesis using s2(3) by simp
  qed
  have "unat (total_seen s + total_seen rhs) = n + m" using f assms(4) by (subst unat_add_noov64) auto
  moreover have "min (n + m) cap = cap" using R(2) by simp
  ultimately have "reservoir cap (s2 \<lparr>total_seen := total_seen s2 + (total_seen rhs - of_nat (cap - n))\<rparr>) (n + m)"
    unfolding tot using s2(2,4) s1(2) by (simp add: reservoir_def)
  moreover have "rs_merge_in unif disc s rhs
      = Inr (s2 \<lparr>total_seen := total_seen s2 + (total_seen rhs - of_nat (cap - n))\<rparr>)"
    using False f s1(1) full u s2(1) by (simp add: rs_merge_in_def Let_def)
  ultimately show ?thesis using s2(5) s1(3) by auto
qed

lemma se_quantile_index:
  assumes "0 < n" and "n \<le> 2 ^ 53" and "0 \<le> q" and "q < 1"
    and "rnd (of_nat n * q) < of_nat n"
  shows "d_to_u64 (dmul (dof_int (int n)) (Fin q)) = Inr \<lfloor>rnd (of_nat n * q)\<rfloor>"
    and "0 \<le> \<lfloor>rnd (of_nat n * q)\<rfloor>" and "nat \<lfloor>rnd (of_nat n * q)\<rfloor> < n"
proof -
  let ?r = "rnd (of_nat n * q)"
  have "int n \<le> 2 ^ 53" using assms(2) by (metis of_nat_le_iff of_nat_numeral of_nat_power)
  then have e: "dof_int (int n) = Fin (of_nat n)" using dof_int_exact [of "int n"] by simp
  have lo: "of_int 0 \<le> of_nat n * q" using assms(3) by simp
  have "of_nat n * q \<le> of_nat n * 1" using assms(4) by (intro mult_left_mono) auto
  then have hi: "of_nat n * q \<le> of_int (int n)" by simp
  have m: "mk_double (of_nat n * q) = Fin ?r" "0 \<le> ?r"
    using mk_double_fin_int [OF lo hi] \<open>int n \<le> 2 ^ 53\<close> by auto
  have fl: "\<lfloor>?r\<rfloor> < int n" using assms(5) by (simp add: floor_less_iff)
  have "?r < 18446744073709551616"
  proof -
    have "(of_nat n :: rat) \<le> of_nat (2 ^ 53)" using assms(2) by (simp only: of_nat_le_iff)
    then show ?thesis using assms(5) by simp
  qed
  then show "d_to_u64 (dmul (dof_int (int n)) (Fin q)) = Inr \<lfloor>?r\<rfloor>" using m by (simp add: e Let_def)
  show "0 \<le> \<lfloor>?r\<rfloor>" using m(2) by simp
  then show "nat \<lfloor>?r\<rfloor> < n" using fl by (simp add: nat_less_iff)
qed

section \<open>Properties\<close>

text \<open>A deterministic generator for the witnesses: every draw gives 0, every choice the left side.\<close>

definition zero_unif :: "unit unif_draw" where
  "zero_unif hi g = (0, ())"

definition left_disc :: "unit disc_draw" where
  "left_disc p g = (False, ())"

lemma zero_unif_in_range: "unif_in_range zero_unif"
  by (simp add: unif_in_range_def zero_unif_def)

text \<open>
  Property C26: feeding any data to a new reservoir of capacity cap succeeds for every random
  source; afterwards it has seen all the values, holds min(seen, cap) of them, and every value it
  holds is one of the data.
\<close>

theorem reservoir_of_data:
  assumes "0 \<le> k" and "k \<le> INT_MAX" and "length xs < 18446744073709551616"
  shows "\<exists>s'. rs_add_data unif xs (new_ReservoirSample g k) = Inr s'
     \<and> unat (total_seen s') = length xs \<and> se_elements s' = min (length xs) (nat k)
     \<and> set (sample_of_data s') \<subseteq> set xs"
  using rs_add_data_total [OF new_reservoir [OF assms(1,2)], of xs unif g] assms(3)
  by (auto simp: reservoir_def se_elements_def new_ReservoirSample_def)

theorem reservoir_of_data_witness:
  "\<exists>s'. rs_add_data zero_unif [7, 8, 9] (new_ReservoirSample () 2) = Inr s'
     \<and> unat (total_seen s') = length [7, 8, 9 :: int] \<and> se_elements s' = min (length [7, 8, 9 :: int]) (nat 2)
     \<and> set (sample_of_data s') \<subseteq> set [7, 8, 9]"
  by (rule reservoir_of_data) (simp_all add: INT_MAX_def)

text \<open>
  Merging two reservoirs of the same capacity succeeds for every random source whose
  uniform draws stay in range: the result has seen the sum of both populations, is filled to
  min(seen, capacity), and holds only values of the two reservoirs.
\<close>

theorem reservoir_merge:
  assumes "reservoir cap s n" and "reservoir cap rhs m" and "0 < cap" and "cap + n + m < 18446744073709551616"
    and "unif_in_range unif"
  shows "\<exists>s'. rs_merge_in unif disc s rhs = Inr s' \<and> reservoir cap s' (n + m)
     \<and> set (sample_of_data s') \<subseteq> set (sample_of_data rhs) \<union> set (sample_of_data s)"
  by (rule rs_merge_total [OF assms])

definition res_a :: "unit ReservoirSample" where
  "res_a = \<lparr>sample_of_data = [4], is_sorted = False, max_size = 2, total_seen = 1, gen = ()\<rparr>"

definition res_b :: "unit ReservoirSample" where
  "res_b = \<lparr>sample_of_data = [8, 9], is_sorted = False, max_size = 2, total_seen = 5, gen = ()\<rparr>"

theorem reservoir_merge_witness:
  "\<exists>s'. rs_merge_in zero_unif left_disc res_a res_b = Inr s' \<and> reservoir 2 s' (1 + 5)
     \<and> set (sample_of_data s') \<subseteq> set (sample_of_data res_b) \<union> set (sample_of_data res_a)"
  by (rule reservoir_merge)
    (simp_all add: reservoir_def res_a_def res_b_def zero_unif_in_range)

text \<open>
  The quantile of a sample that has not been sorted is the element of the sorted
  data at index floor(size * q), and the sample is left sorted.
\<close>

theorem sample_quantile:
  assumes "\<not> is_sorted s" and "sample_of_data s \<noteq> []" and "length (sample_of_data s) \<le> 2 ^ 53"
    and "0 \<le> q" and "q < 1" and "rnd (of_nat (length (sample_of_data s)) * q) < of_nat (length (sample_of_data s))"
  shows "se_quantile (Fin q) s =
    Inr (sort (sample_of_data s) ! nat \<lfloor>rnd (of_nat (length (sample_of_data s)) * q)\<rfloor>,
         s \<lparr>is_sorted := True, sample_of_data := sort (sample_of_data s)\<rparr>)"
  using se_quantile_index [OF _ assms(3-6)] assms(1,2,4,5) by (simp add: se_quantile_def Let_def)

theorem sample_quantile_witness:
  "se_quantile (Fin (1/2)) \<lparr>sample_of_data = [9, 3, 5, 1], is_sorted = False\<rparr> =
    Inr (5, \<lparr>sample_of_data = [1, 3, 5, 9], is_sorted = True\<rparr>)"
proof -
  have r: "rnd 2 = 2" using rnd_int [of 2] by simp
  show ?thesis
    using sample_quantile [of "\<lparr>sample_of_data = [9, 3, 5, 1], is_sorted = False\<rparr>" "1/2"]
    by (simp add: r)
qed

text \<open>
  A reservoir that is still filling answers a quantile query on unsorted data when
  it has been queried before: adding a value does not clear the flag that says the sample is
  sorted, so the query returns the element at that index in insertion order.
\<close>

theorem reservoir_quantile_stale:
  assumes "is_sorted s" and "reservoir cap s n" and "n < cap" and "n + 1 < 18446744073709551616"
    and "add_one unif v s = Inr s'" and "se_quantile q s' = Inr (r, s'')"
  shows "\<exists>i < n + 1. r = (sample_of_data s @ [v]) ! i \<and> sample_of_data s'' = sample_of_data s @ [v]"
proof -
  have s': "s' = s \<lparr>sample_of_data := sample_of_data s @ [v], total_seen := total_seen s + 1\<rparr>"
    using assms(2,3,5) by (auto simp: add_one_def reservoir_def)
  then show ?thesis using assms(1,2,3,6) by (auto simp: se_quantile_def res_simps reservoir_def)
qed

definition res_sorted :: "unit ReservoirSample" where
  "res_sorted = \<lparr>sample_of_data = [5], is_sorted = True, max_size = 2, total_seen = 1, gen = ()\<rparr>"

theorem reservoir_quantile_stale_witness:
  "\<exists>i < 1 + 1. 5 = ([5] @ [1 :: int]) ! i \<and> [5, 1 :: int] = sample_of_data res_sorted @ [1]"
proof -
  let ?s' = "res_sorted \<lparr>sample_of_data := [5, 1], total_seen := 2\<rparr>"
  have a: "add_one zero_unif 1 res_sorted = Inr ?s'" by (simp add: add_one_def res_sorted_def)
  have q: "se_quantile (Fin 0) ?s' = Inr (5, ?s')" by (simp add: se_quantile_def res_sorted_def dof_int_exact mk_double_cases)
  show ?thesis
    using reservoir_quantile_stale [OF _ _ _ _ a q, of 2 1] by (simp add: res_sorted_def reservoir_def)
qed

end
