(* ===== verification/JS_Summary.thy ===== *)
theory JS_Summary
  imports JS_Histogram JS_Sample JS_Sketch JS_Policy JS_Text
begin

text \<open>
  Merging of summaries and the operators on them: the templates of
  \<^verbatim>\<open>aggregates/quantile_est.h\<close> (contains_aggregate, merge_into_aggregate,
  merge_summary) with their instances in \<^verbatim>\<open>aggregates/quantile_est.cc\<close>, and the
  operators of \<^verbatim>\<open>dataplane/summary_operators.cc\<close>.

  A template over AggregateClass takes the class as a record of its operations;
  the locale \<^verbatim>\<open>aggregate_class\<close> states what an aggregate class promises about the
  multiset of values it stands for, \<^verbatim>\<open>serialised_aggregate\<close> adds that writing into
  a message that already holds a summary replaces it.  LogHistogram satisfies
  both, ReservoirSample the first.
\<close>

section \<open>The templates\<close>

record 'a agg_ops =
  ag_has :: "JSSummary \<Rightarrow> bool"
  ag_read :: "JSSummary \<Rightarrow> 'a res"
  ag_size :: "'a \<Rightarrow> nat"
  ag_add_item :: "int \<Rightarrow> u32 \<Rightarrow> 'a \<Rightarrow> 'a res"
  ag_merge_in :: "'a \<Rightarrow> 'a \<Rightarrow> 'a res"
  ag_assign :: "'a \<Rightarrow> 'a res"
  ag_serialize_to :: "'a \<Rightarrow> JSSummary \<Rightarrow> JSSummary res"
  ag_should_make :: "JSSummary \<Rightarrow> JSSummary \<Rightarrow> bool res"
  ag_make :: "JSSummary \<Rightarrow> JSSummary res"

definition contains_aggregate :: "(JSSummary \<Rightarrow> bool) \<Rightarrow> JSSummary \<Rightarrow> bool res" where
  "contains_aggregate has s = (if has s then assertE (sum_items s = []) (Inr True) else Inr False)"

definition merge_into_aggregate :: "'a agg_ops \<Rightarrow> JSSummary \<Rightarrow> JSSummary \<Rightarrow> JSSummary res" where
  "merge_into_aggregate A sum_into sum_update =
     bindE (contains_aggregate (ag_has A) sum_into) (\<lambda>into_agg.
     if into_agg then
       bindE (ag_read A sum_into) (\<lambda>agg_into.
       bindE (contains_aggregate (ag_has A) sum_update) (\<lambda>upd_agg.
       bindE (if upd_agg then
                bindE (ag_read A sum_update) (\<lambda>agg_update.
                if ag_size A agg_into \<le> ag_size A agg_update then ag_merge_in A agg_into agg_update
                else bindE (ag_read A sum_update) (\<lambda>dest.
                     bindE (ag_merge_in A dest agg_into) (ag_assign A)))
              else foldE (\<lambda>v. ag_add_item A v 1) (sum_items sum_update) agg_into) (\<lambda>agg.
       ag_serialize_to A agg sum_into)))
     else bindE (contains_aggregate (ag_has A) sum_update) (\<lambda>upd_agg.
       if upd_agg then
         bindE (ag_read A sum_update) (\<lambda>agg_update.
         bindE (foldE (\<lambda>v. ag_add_item A v 1) (sum_items sum_into) agg_update) (\<lambda>agg.
         bindE (ag_serialize_to A agg sum_into) (\<lambda>s. Inr (s \<lparr>sum_items := []\<rparr>))))
       else Inl AssertFail))"

definition merge_summary :: "'a agg_ops \<Rightarrow> JSSummary \<Rightarrow> JSSummary \<Rightarrow> JSSummary res" where
  "merge_summary A sum_into sum_update =
     bindE (contains_aggregate (ag_has A) sum_into) (\<lambda>a.
     bindE (if a then Inr True else contains_aggregate (ag_has A) sum_update) (\<lambda>b.
     if \<not> b then
       bindE (ag_should_make A sum_into sum_update) (\<lambda>mk.
       if mk then bindE (ag_make A sum_into) (\<lambda>s. merge_into_aggregate A s sum_update)
       else Inr (sum_into \<lparr>sum_items := sum_items sum_into @ sum_items sum_update\<rparr>))
     else merge_into_aggregate A sum_into sum_update))"

section \<open>The instances\<close>

definition has_histo :: "JSSummary \<Rightarrow> bool" where "has_histo s \<longleftrightarrow> histo s \<noteq> None"
definition has_sample :: "JSSummary \<Rightarrow> bool" where "has_sample s \<longleftrightarrow> sample s \<noteq> None"
definition has_sketch :: "JSSummary \<Rightarrow> bool" where "has_sketch s \<longleftrightarrow> sketch s \<noteq> None"

definition get_histo :: "JSSummary \<Rightarrow> JSHistogram" where
  "get_histo s = (case histo s of None \<Rightarrow> \<lparr>bucket_vals = [], num_buckets = 0\<rparr> | Some h \<Rightarrow> h)"

definition get_sample :: "JSSummary \<Rightarrow> JSSample" where
  "get_sample s = (case sample s of None \<Rightarrow> \<lparr>smp_items = [], smp_total_items = 0, smp_max_items = 0\<rparr> | Some h \<Rightarrow> h)"

definition get_sketch :: "JSSummary \<Rightarrow> JSCMSketch" where
  "get_sketch s = (case sketch s of None \<Rightarrow> \<lparr>sk_d = 0, sk_w = 0, rand_seed = 0, sk_exact_levels = [],
     sk_panes = [], sk_total_items = 0\<rparr> | Some h \<Rightarrow> h)"

definition should_make_histo :: "JSSummary \<Rightarrow> JSSummary \<Rightarrow> bool res" where
  "should_make_histo lhs rhs =
     bindE (contains_aggregate has_histo lhs) (\<lambda>a. assertE (\<not> a)
    (bindE (contains_aggregate has_histo rhs) (\<lambda>b. assertE (\<not> b)
    (bindE (intE (int (length (sum_items lhs)) + int (length (sum_items rhs)))) (\<lambda>n. Inr (n > 300))))))"

definition should_make_unimplemented :: "(JSSummary \<Rightarrow> bool) \<Rightarrow> JSSummary \<Rightarrow> JSSummary \<Rightarrow> bool res" where
  "should_make_unimplemented has lhs rhs =
     bindE (contains_aggregate has lhs) (\<lambda>a. assertE (\<not> a)
    (bindE (contains_aggregate has rhs) (\<lambda>b. assertE (\<not> b) (Inl AssertFail))))"

definition hist_target :: "JSSummary \<Rightarrow> nat" where
  "hist_target s = unat (word_of_int (case future_hist_size s of None \<Rightarrow> 0 | Some k \<Rightarrow> k) :: u64)"

text \<open>The instance for histograms adds the loop index, not the item at that index.\<close>

definition make_aggregate_histo :: "JSSummary \<Rightarrow> JSSummary res" where
  "make_aggregate_histo s =
     bindE (contains_aggregate has_histo s) (\<lambda>a. assertE (\<not> a)
    (bindE (new_LogHistogram (hist_target s)) (\<lambda>l.
     bindE (foldE (\<lambda>i. lh_add_item (int i) 1) [0..<length (sum_items s)] l) (\<lambda>l'.
     Inr ((lh_serialize_to l' s) \<lparr>sum_items := []\<rparr>)))))"

definition make_aggregate_unimplemented :: "(JSSummary \<Rightarrow> bool) \<Rightarrow> JSSummary \<Rightarrow> JSSummary res" where
  "make_aggregate_unimplemented has s =
     bindE (contains_aggregate has s) (\<lambda>a. assertE (\<not> a) (Inl AssertFail))"

definition histogram_ops :: "LogHistogram agg_ops" where
  "histogram_ops = \<lparr>ag_has = has_histo, ag_read = (\<lambda>s. lh_fillIn (get_histo s)), ag_size = lh_size,
     ag_add_item = lh_add_item, ag_merge_in = lh_merge_in, ag_assign = Inr,
     ag_serialize_to = (\<lambda>h q. Inr (lh_serialize_to h q)),
     ag_should_make = should_make_histo, ag_make = make_aggregate_histo\<rparr>"

definition reservoir_ops ::
  "'g unif_draw \<Rightarrow> 'g disc_draw \<Rightarrow> 'g \<Rightarrow> u64 \<Rightarrow> 'g ReservoirSample agg_ops" where
  "reservoir_ops unif disc g junk = \<lparr>ag_has = has_sample, ag_read = (\<lambda>s. rs_fillIn unif g junk (get_sample s)),
     ag_size = se_size, ag_add_item = rs_add_item unif, ag_merge_in = rs_merge_in unif disc, ag_assign = Inr,
     ag_serialize_to = (\<lambda>h q. Inr (rs_serialize_to h q)),
     ag_should_make = should_make_unimplemented has_sample,
     ag_make = make_aggregate_unimplemented has_sample\<rparr>"

text \<open>Assigning a sketch hits an assertion; merge_in's bool result is ignored.\<close>

definition sketch_ops ::
  "shr64 \<Rightarrow> (int \<Rightarrow> nat \<Rightarrow> (int \<times> int) list) \<Rightarrow> int \<Rightarrow> CMMultiSketch agg_ops" where
  "sketch_ops shr rh junk = \<lparr>ag_has = has_sketch, ag_read = (\<lambda>s. ms_fillIn rh junk (get_sketch s)),
     ag_size = ms_size, ag_add_item = ms_add_item shr,
     ag_merge_in = (\<lambda>a b. Inr (snd (ms_merge_in a b))), ag_assign = (\<lambda>_. Inl AssertFail),
     ag_serialize_to = ms_serialize_to,
     ag_should_make = should_make_unimplemented has_sketch,
     ag_make = make_aggregate_unimplemented has_sketch\<rparr>"

section \<open>Operators on summaries\<close>

definition upd_field :: "nat \<Rightarrow> (Element \<Rightarrow> Element) \<Rightarrow> Tuple \<Rightarrow> Tuple" where
  "upd_field i f t = t \<lparr>e := (e t)[i := f (e t ! i)]\<rparr>"

record QuantileOperator =
  qo_q :: double
  qo_field :: u32

definition configure_quantile :: "op_config \<Rightarrow> QuantileOperator \<Rightarrow> operator_err_t \<times> QuantileOperator" where
  "configure_quantile cfg op =
     (case stream_double (cfg_get cfg ''q'') of
        None \<Rightarrow> (''q must be between 0 and 1; got '' @ cfg_get cfg ''q'', op \<lparr>qo_q := Fin 0\<rparr>)
      | Some q \<Rightarrow>
         if dle q (Fin 0) \<or> dle (Fin 1) q
         then (''q must be between 0 and 1; got '' @ cfg_get cfg ''q'', op \<lparr>qo_q := q\<rparr>)
         else (case stream_u32 (cfg_get cfg ''field'') of
             None \<Rightarrow> (''must specify a field; got '' @ cfg_get cfg ''field'', op \<lparr>qo_q := q\<rparr>)
           | Some f \<Rightarrow> ([], op \<lparr>qo_q := q, qo_field := f\<rparr>)))"

record summary_env =
  env_unif :: "unit unif_draw"
  env_shr :: shr64
  env_shl :: shl32
  env_hashes :: "int \<Rightarrow> nat \<Rightarrow> (int \<times> int) list"
  env_junk64 :: u64
  env_junk_seed :: int

definition summary_quantile :: "summary_env \<Rightarrow> double \<Rightarrow> JSSummary \<Rightarrow> int res" where
  "summary_quantile env q s =
     (if has_histo s then bindE (lh_fillIn (get_histo s)) (\<lambda>est. lh_quantile est q)
      else if has_sample s then
        bindE (rs_fillIn (env_unif env) () (env_junk64 env) (get_sample s)) (\<lambda>est.
        bindE (se_quantile q est) (\<lambda>(v, _). Inr v))
      else if has_sketch s then
        bindE (ms_fillIn (env_hashes env) (env_junk_seed env) (get_sketch s)) (\<lambda>est.
        ms_quantile (env_shr env) (env_shl env) est q)
      else if sum_items s \<noteq> [] then
        bindE (d_to_int (dmul (dof_int (int (length (sum_items s)))) q)) (\<lambda>i.
        if i < 0 then Inl OutOfBounds else nthE (sort (sum_items s)) (nat i))
      else Inl LogFatal)"

definition process_quantile :: "summary_env \<Rightarrow> QuantileOperator \<Rightarrow> Tuple \<Rightarrow> Tuple res" where
  "process_quantile env op t =
     bindE (nthE (e t) (unat (qo_field op))) (\<lambda>el.
     case summary el of None \<Rightarrow> Inl LogFatal
     | Some s \<Rightarrow> bindE (summary_quantile env (qo_q op) s) (\<lambda>r.
         Inr (upd_field (unat (qo_field op)) (\<lambda>x. x \<lparr>i_val := Some r, summary := None\<rparr>) t)))"

definition configure_to_count :: "op_config \<Rightarrow> operator_err_t \<times> u32 option" where
  "configure_to_count cfg =
     (if cfg_get cfg ''field'' = [] then (''must specify a field; got '' @ cfg_get cfg ''field'', None)
      else case stream_u32 (cfg_get cfg ''field'') of
        None \<Rightarrow> (''must specify a field; got '' @ cfg_get cfg ''field'', None)
      | Some f \<Rightarrow> ([], Some f))"

definition summary_pop_seen :: "summary_env \<Rightarrow> JSSummary \<Rightarrow> u64 res" where
  "summary_pop_seen env s =
     (if has_histo s then bindE (lh_fillIn (get_histo s)) (\<lambda>est. Inr (lh_pop_seen est))
      else if has_sample s then
        bindE (rs_fillIn (env_unif env) () (env_junk64 env) (get_sample s)) (\<lambda>est. Inr (rs_pop_seen est))
      else if has_sketch s then
        bindE (ms_fillIn (env_hashes env) (env_junk_seed env) (get_sketch s)) (\<lambda>est.
        bindE (ms_pop_seen est) (\<lambda>c. Inr (ucast c)))
      else if sum_items s \<noteq> [] then Inr (of_nat (length (sum_items s)))
      else Inl LogFatal)"

definition process_to_count :: "summary_env \<Rightarrow> u32 \<Rightarrow> Tuple \<Rightarrow> Tuple res" where
  "process_to_count env field t =
     bindE (nthE (e t) (unat field)) (\<lambda>el.
     case summary el of None \<Rightarrow> Inl LogFatal
     | Some s \<Rightarrow> bindE (summary_pop_seen env s) (\<lambda>n. Inr (extend_tuple_int t (to_int32 (uint n)))))"

record ToSummary =
  ts_field :: u32
  ts_s_size :: u32

definition configure_to_summary :: "op_config \<Rightarrow> ToSummary \<Rightarrow> operator_err_t \<times> ToSummary" where
  "configure_to_summary cfg op =
     (case stream_u32 (cfg_get cfg ''field'') of
        None \<Rightarrow> (''must specify a field; got '' @ cfg_get cfg ''field'', op)
      | Some f \<Rightarrow> (case stream_u32 (cfg_get cfg ''size'') of
          None \<Rightarrow> (''must specify a summary size; got '' @ cfg_get cfg ''size'', op \<lparr>ts_field := f\<rparr>)
        | Some n \<Rightarrow> ([], op \<lparr>ts_field := f, ts_s_size := n\<rparr>)))"

text \<open>None is a dropped tuple.\<close>

definition process_to_summary :: "ToSummary \<Rightarrow> Tuple \<Rightarrow> Tuple option" where
  "process_to_summary op t =
     (let f = unat (ts_field op) in
      if length (e t) \<le> f then None
      else case i_val (e t ! f) of
        None \<Rightarrow> None
      | Some ival \<Rightarrow>
          if ival \<ge> 0 then
            Some (upd_field f (\<lambda>x. let s = (case summary x of None \<Rightarrow> empty_summary | Some s \<Rightarrow> s) in
              x \<lparr>summary := Some (s \<lparr>sum_items := sum_items s @ [ival],
                   future_hist_size := Some (sint (ts_s_size op))\<rparr>), i_val := None\<rparr>) t)
          else Some t)"

record 'm DegradeSummary =
  ds_id :: operator_id_t
  ds_field :: u32
  cur_step :: u32
  steps :: "double list"
  ds_policy :: "'m CongestionPolicy option"

definition new_DegradeSummary :: "operator_id_t \<Rightarrow> 'm DegradeSummary" where
  "new_DegradeSummary i = \<lparr>ds_id = i, ds_field = 0, cur_step = 10, steps = [], ds_policy = None\<rparr>"

fun ratio_steps :: "nat \<Rightarrow> double \<Rightarrow> double \<Rightarrow> double list" where
  "ratio_steps 0 ratio stp = []"
| "ratio_steps (Suc n) ratio stp = ratio # ratio_steps n (dadd ratio stp) stp"

definition d0_1 :: double where "d0_1 = mk_double (1/10)"

definition degrade_steps :: "u32 \<Rightarrow> double \<Rightarrow> double list" where
  "degrade_steps step_count min_ratio =
     ratio_steps (unat (step_count - 1)) min_ratio (ddiv (dsub (Fin 1) min_ratio) (dof_u32 (step_count - 1))) @ [Fin 1]"

definition configure_degrade :: "op_config \<Rightarrow> 'm DegradeSummary \<Rightarrow> operator_err_t \<times> 'm DegradeSummary" where
  "configure_degrade cfg op =
     (case stream_u32 (cfg_get cfg ''field'') of
        None \<Rightarrow> (''must specify a field; got '' @ cfg_get cfg ''field'', op)
      | Some f \<Rightarrow> let op1 = op \<lparr>ds_field := f\<rparr>; sc = cfg_get cfg ''step_count''; mr = cfg_get cfg ''min_ratio'' in
          (case (if sc = [] then Some 10 else stream_u32 sc) of
             None \<Rightarrow> ([CHR 0x27] @ ''step_count'' @ [CHR 0x27] @ '' param should be a number, but '' @ [CHR 0x27]
                 @ sc @ [CHR 0x27] @ '' is not.'', op1)
           | Some step_count \<Rightarrow> (case (if mr = [] then Some d0_1 else stream_double mr) of
               None \<Rightarrow> ([CHR 0x27] @ ''min_ratio'' @ [CHR 0x27] @ '' param should be a number, but '' @ [CHR 0x27]
                 @ mr @ [CHR 0x27] @ '' is not.'', op1)
             | Some min_ratio \<Rightarrow>
                 ([], op1 \<lparr>steps := steps op1 @ degrade_steps step_count min_ratio, cur_step := step_count - 1\<rparr>))))"

definition start_degrade :: "'m DegradeSummary \<Rightarrow> 'm DegradeSummary" where
  "start_degrade op = (case ds_policy op of None \<Rightarrow> op \<lparr>ds_policy := Some new_CongestionPolicy\<rparr> | Some _ \<Rightarrow> op)"

definition degrade_histogram :: "double \<Rightarrow> LogHistogram \<Rightarrow> LogHistogram res" where
  "degrade_histogram ratio old_h =
     bindE (dtrunc 0 4294967295 (dmul (dof_int (int (bucket_count old_h))) ratio)) (\<lambda>n.
     bindE (new_LogHistogram (nat n)) (\<lambda>newH. lh_merge_in newH old_h))"

definition process_degrade ::
  "msec_t \<Rightarrow> ('m \<Rightarrow> msec_t) \<Rightarrow> ('m \<Rightarrow> (double \<times> 'm) res) \<Rightarrow> 'm option option \<Rightarrow>
   'm DegradeSummary \<Rightarrow> Tuple \<Rightarrow> (Tuple \<times> 'm DegradeSummary) res" where
  "process_degrade now mtime cap chain_mon op t =
     (case ds_policy op of None \<Rightarrow> Inl NullDeref
      | Some pol \<Rightarrow>
        bindE (get_step now mtime cap chain_mon (ds_id op) (steps op) (of_nat (length (steps op))) (cur_step op) pol)
          (\<lambda>(delta, pol').
        let cur = cur_step op + word_of_int delta; op' = op \<lparr>cur_step := cur, ds_policy := Some pol'\<rparr>; f = unat (ds_field op) in
        bindE (nthE (e t) f) (\<lambda>el.
        case summary el of None \<Rightarrow> Inl LogFatal
        | Some s \<Rightarrow>
           if has_histo s then
             bindE (lh_fillIn (get_histo s)) (\<lambda>old_h.
             bindE (nthE (steps op') (unat cur)) (\<lambda>ratio.
             bindE (degrade_histogram ratio old_h) (\<lambda>newH.
             Inr (upd_field f (\<lambda>x. x \<lparr>summary := Some (lh_serialize_to newH empty_summary)\<rparr>) t, op'))))
           else Inl LogFatal)))"

section \<open>The contract of an aggregate class\<close>

definition valid_data :: "int multiset \<Rightarrow> bool" where
  "valid_data M \<longleftrightarrow> (\<forall>x \<in># M. 0 \<le> x \<and> x \<le> INT_MAX)"

lemma valid_data_plus [simp]: "valid_data (M + N) \<longleftrightarrow> valid_data M \<and> valid_data N"
  by (auto simp: valid_data_def)

text \<open>
  \<^verbatim>\<open>holds_data A rep s M\<close>: the summary message stands for the multiset \<^verbatim>\<open>M\<close>, as an
  aggregate that \<^verbatim>\<open>rep\<close> relates to \<^verbatim>\<open>M\<close> or as the plain list of its values.
\<close>

definition holds_data :: "'a agg_ops \<Rightarrow> ('a \<Rightarrow> int multiset \<Rightarrow> bool) \<Rightarrow> JSSummary \<Rightarrow> int multiset \<Rightarrow> bool" where
  "holds_data A rep s M \<longleftrightarrow> valid_data M \<and>
     (if ag_has A s then sum_items s = [] \<and> (\<exists>a. ag_read A s = Inr a \<and> rep a M)
      else mset (sum_items s) = M)"

locale aggregate_class =
  fixes A :: "'a agg_ops" and rep :: "'a \<Rightarrow> int multiset \<Rightarrow> bool" and bound :: nat
  assumes add_item_law: "rep a M \<Longrightarrow> 0 \<le> v \<Longrightarrow> v \<le> INT_MAX \<Longrightarrow> size M + 1 < bound \<Longrightarrow>
      \<exists>a'. ag_add_item A v 1 a = Inr a' \<and> rep a' (add_mset v M)"
    and merge_law: "rep a M \<Longrightarrow> rep b N \<Longrightarrow> ag_size A a \<le> ag_size A b \<Longrightarrow> size M + size N < bound \<Longrightarrow>
      \<exists>a'. ag_merge_in A a b = Inr a' \<and> rep a' (M + N)"
begin

lemma add_items:
  "rep a M \<Longrightarrow> valid_data (mset xs) \<Longrightarrow> size M + length xs < bound \<Longrightarrow>
     \<exists>a'. foldE (\<lambda>v. ag_add_item A v 1) xs a = Inr a' \<and> rep a' (M + mset xs)"
proof (induction xs arbitrary: a M)
  case (Cons x xs)
  have x: "0 \<le> x" "x \<le> INT_MAX" using Cons.prems(2) by (auto simp: valid_data_def)
  obtain a1 where a1: "ag_add_item A x 1 a = Inr a1" "rep a1 (add_mset x M)"
    using add_item_law [OF Cons.prems(1) x] Cons.prems(3) by auto
  obtain a2 where "foldE (\<lambda>v. ag_add_item A v 1) xs a1 = Inr a2" "rep a2 (add_mset x M + mset xs)"
    using Cons.IH [OF a1(2)] Cons.prems(2,3) by (auto simp: valid_data_def)
  then show ?case using a1 by auto
qed simp

end

locale serialised_aggregate = aggregate_class +
  assumes write_law: "rep a M \<Longrightarrow> size M < bound \<Longrightarrow>
      \<exists>q'. ag_serialize_to A a q = Inr q' \<and> ag_has A q' \<and> ag_read A q' = Inr a \<and> sum_items q' = sum_items q"
    and has_items: "ag_has A (q \<lparr>sum_items := xs\<rparr>) = ag_has A q"
    and read_items: "ag_read A (q \<lparr>sum_items := xs\<rparr>) = ag_read A q"
    and assign_law: "ag_assign A a = Inr a"
begin

lemma contains_agg:
  "holds_data A rep s M \<Longrightarrow> contains_aggregate (ag_has A) s = Inr (ag_has A s)"
  by (auto simp: contains_aggregate_def holds_data_def split: if_splits)

lemma merge_aggregates:
  assumes "rep a M" and "rep b N" and "size M + size N < bound"
  shows "\<exists>c. (if ag_size A a \<le> ag_size A b then ag_merge_in A a b
                 else bindE (ag_merge_in A b a) (ag_assign A)) = Inr c \<and> rep c (M + N)"
proof (cases "ag_size A a \<le> ag_size A b")
  case True
  then show ?thesis using merge_law [OF assms(1,2)] assms(3) by auto
next
  case False
  then show ?thesis using merge_law [OF assms(2,1)] assms(3) by (auto simp: assign_law add.commute)
qed

text \<open>Merging where at least one side already is an aggregate keeps every value.\<close>

lemma merge_into_holds:
  assumes into: "holds_data A rep sum_into M" and upd: "holds_data A rep sum_update N"
    and agg: "ag_has A sum_into \<or> ag_has A sum_update" and sz: "size M + size N < bound"
  shows "\<exists>s. merge_into_aggregate A sum_into sum_update = Inr s \<and> holds_data A rep s (M + N) \<and> ag_has A s"
proof (cases "ag_has A sum_into")
  case True
  then obtain a where a: "sum_items sum_into = []" "ag_read A sum_into = Inr a" "rep a M"
    using into by (auto simp: holds_data_def)
  have "\<exists>c. (if ag_has A sum_update then
                bindE (ag_read A sum_update) (\<lambda>agg_update.
                if ag_size A a \<le> ag_size A agg_update then ag_merge_in A a agg_update
                else bindE (ag_read A sum_update) (\<lambda>dest.
                     bindE (ag_merge_in A dest a) (ag_assign A)))
              else foldE (\<lambda>v. ag_add_item A v 1) (sum_items sum_update) a) = Inr c \<and> rep c (M + N)"
  proof (cases "ag_has A sum_update")
    case True
    then obtain b where b: "ag_read A sum_update = Inr b" "rep b N"
      using upd by (auto simp: holds_data_def)
    then show ?thesis using True merge_aggregates [OF a(3) b(2) sz] by (auto split: if_splits)
  next
    case False
    then show ?thesis using upd add_items [OF a(3), of "sum_items sum_update"] sz
      by (auto simp: holds_data_def)
  qed
  then obtain c where c: "(if ag_has A sum_update then
                bindE (ag_read A sum_update) (\<lambda>agg_update.
                if ag_size A a \<le> ag_size A agg_update then ag_merge_in A a agg_update
                else bindE (ag_read A sum_update) (\<lambda>dest.
                     bindE (ag_merge_in A dest a) (ag_assign A)))
              else foldE (\<lambda>v. ag_add_item A v 1) (sum_items sum_update) a) = Inr c" "rep c (M + N)"
    by blast
  obtain q' where q': "ag_serialize_to A c sum_into = Inr q'" "ag_has A q'" "ag_read A q' = Inr c"
    "sum_items q' = []" using write_law [OF c(2), of sum_into] sz a(1) by auto
  have "merge_into_aggregate A sum_into sum_update = Inr q'"
    unfolding merge_into_aggregate_def contains_agg [OF into] contains_agg [OF upd] using True a(2) c(1) q'(1) by simp
  then show ?thesis using into upd q' c(2) by (auto simp: holds_data_def)
next
  case False
  then obtain b where b: "ag_has A sum_update" "ag_read A sum_update = Inr b" "rep b N"
    using agg upd by (auto simp: holds_data_def)
  obtain c where c: "foldE (\<lambda>v. ag_add_item A v 1) (sum_items sum_into) b = Inr c" "rep c (M + N)"
    using add_items [OF b(3), of "sum_items sum_into"] False into sz by (auto simp: holds_data_def add.commute)
  obtain q' where q': "ag_serialize_to A c sum_into = Inr q'" "ag_has A q'" "ag_read A q' = Inr c"
    using write_law [OF c(2), of sum_into] sz by auto
  have "merge_into_aggregate A sum_into sum_update = Inr (q' \<lparr>sum_items := []\<rparr>)"
    unfolding merge_into_aggregate_def contains_agg [OF into] contains_agg [OF upd] using False b c(1) q'(1) by simp
  then show ?thesis using into upd q' c(2) by (auto simp: holds_data_def has_items read_items)
qed

lemma merge_summary_holds:
  assumes "holds_data A rep sum_into M" and "holds_data A rep sum_update N" and "size M + size N < bound"
    and "ag_has A sum_into \<or> ag_has A sum_update \<or> ag_should_make A sum_into sum_update = Inr False"
  shows "\<exists>s. merge_summary A sum_into sum_update = Inr s \<and> holds_data A rep s (M + N)"
proof (cases "ag_has A sum_into \<or> ag_has A sum_update")
  case True
  then have "merge_summary A sum_into sum_update = merge_into_aggregate A sum_into sum_update"
    unfolding merge_summary_def contains_agg [OF assms(1)] contains_agg [OF assms(2)] by auto
  then show ?thesis using merge_into_holds [OF assms(1,2) True assms(3)] by auto
next
  case False
  then have "merge_summary A sum_into sum_update = Inr (sum_into \<lparr>sum_items := sum_items sum_into @ sum_items sum_update\<rparr>)"
    unfolding merge_summary_def contains_agg [OF assms(1)] contains_agg [OF assms(2)] using assms(4) by simp
  then show ?thesis using assms(1,2) False by (auto simp: holds_data_def has_items)
qed

end

section \<open>LogHistogram and ReservoirSample as aggregate classes\<close>

definition hist_rep :: "LogHistogram \<Rightarrow> int multiset \<Rightarrow> bool" where
  "hist_rep h M \<longleftrightarrow> represents h M \<and> set_bucket_starts (bucket_count h) = Inr (bucket_starts h)
     \<and> 1 < bucket_count h \<and> bucket_count h \<le> 536870912"

lemma hist_rep_starts:
  assumes "hist_rep h M" and "hist_rep k N" and "bucket_count h \<le> bucket_count k"
  shows "set (bucket_starts h) \<subseteq> set (bucket_starts k)"
  using assms set_bucket_starts_coarser [of "bucket_count h" "bucket_starts h" "bucket_count k" "bucket_starts k"]
  by (simp add: hist_rep_def)

lemma hist_rep_same_starts:
  "hist_rep h M \<Longrightarrow> represents h' N \<Longrightarrow> bucket_starts h' = bucket_starts h \<Longrightarrow> hist_rep h' N"
  by (simp add: hist_rep_def bucket_count_def)

lemma lh_size_le:
  "hist_rep h M \<Longrightarrow> hist_rep k N \<Longrightarrow> lh_size h \<le> lh_size k \<longleftrightarrow> bucket_count h \<le> bucket_count k"
  by (simp add: hist_rep_def represents_def wf_hist_def lh_size_def bucket_count_def)

interpretation hist_agg: aggregate_class histogram_ops hist_rep 1073741824
proof
  fix a M v assume a: "hist_rep a M" "0 \<le> v" "v \<le> INT_MAX"
  then show "\<exists>a'. ag_add_item histogram_ops v 1 a = Inr a' \<and> hist_rep a' (add_mset v M)"
    using add_item_represents [of a M v 1] hist_rep_same_starts [OF a(1)]
    by (auto simp: histogram_ops_def hist_rep_def)
next
  fix a M b N assume h: "hist_rep a M" "hist_rep b N" "ag_size histogram_ops a \<le> ag_size histogram_ops b"
    "size M + size N < 1073741824"
  have "set (bucket_starts a) \<subseteq> set (bucket_starts b)"
    using hist_rep_starts [OF h(1,2)] h(3) lh_size_le [OF h(1,2)] by (simp add: histogram_ops_def)
  then show "\<exists>a'. ag_merge_in histogram_ops a b = Inr a' \<and> hist_rep a' (M + N)"
    using merge_represents [of a M b N] h(1,2,4) hist_rep_same_starts [OF h(1)]
    by (auto simp: histogram_ops_def hist_rep_def)
qed

interpretation hist_ser: serialised_aggregate histogram_ops hist_rep 1073741824
proof
  fix a M q assume h: "hist_rep a M" "size M < 1073741824"
  then have "lh_fillIn (lh_to_js a) = Inr a"
    by (intro fillIn_to_js) (auto simp: hist_rep_def)
  then show "\<exists>q'. ag_serialize_to histogram_ops a q = Inr q' \<and> ag_has histogram_ops q'
      \<and> ag_read histogram_ops q' = Inr a \<and> sum_items q' = sum_items q"
    by (simp add: histogram_ops_def lh_serialize_to_def has_histo_def get_histo_def)
qed (simp_all add: histogram_ops_def has_histo_def get_histo_def)

text \<open>For a reservoir the multiset counts what was seen; the values kept are among them.\<close>

definition reservoir_rep :: "nat \<Rightarrow> 'g ReservoirSample \<Rightarrow> int multiset \<Rightarrow> bool" where
  "reservoir_rep cap s M \<longleftrightarrow> reservoir cap s (size M) \<and> set (sample_of_data s) \<subseteq> set_mset M"

lemma reservoir_aggregate_class:
  fixes unif :: "'g unif_draw"
  assumes "unif_in_range unif" and "0 < cap" and "cap < 4294967296"
  shows "aggregate_class (reservoir_ops unif disc g junk) (reservoir_rep cap) 4294967296"
proof
  fix a :: "'g ReservoirSample" and M v assume a: "reservoir_rep cap a M" "size M + 1 < 4294967296"
  then show "\<exists>a'. ag_add_item (reservoir_ops unif disc g junk) v 1 a = Inr a' \<and> reservoir_rep cap a' (add_mset v M)"
    using rs_add_item_total [of cap a "size M" 1 unif v] by (fastforce simp: reservoir_rep_def reservoir_ops_def)
next
  fix a b :: "'g ReservoirSample" and M N
  assume h: "reservoir_rep cap a M" "reservoir_rep cap b N" "size M + size N < 4294967296"
  then show "\<exists>a'. ag_merge_in (reservoir_ops unif disc g junk) a b = Inr a' \<and> reservoir_rep cap a' (M + N)"
    using rs_merge_total [of cap a "size M" b "size N" unif disc] assms by (fastforce simp: reservoir_rep_def reservoir_ops_def)
qed

section \<open>Merging two lists\<close>

lemma new_hist_rep: assumes "1 < n" and "n \<le> 536870912" shows "\<exists>h. new_LogHistogram n = Inr h \<and> hist_rep h {#} \<and> bucket_count h = n"
proof -
  obtain ss where ss: "set_bucket_starts n = Inr ss" "length ss = n"
    using set_bucket_starts_total [OF assms] set_bucket_starts_wf assms(2) by blast
  then have h: "new_LogHistogram n = Inr \<lparr>buckets = replicate n 0, bucket_starts = ss, total_vals = 0\<rparr>"
    by (simp add: new_LogHistogram_def)
  then show ?thesis using new_represents [OF h assms(2)] ss assms by (simp add: hist_rep_def bucket_count_def)
qed

lemma make_histo_index:
  assumes "\<not> has_histo s" and "future_hist_size s = Some k" and "1 < k" and "k \<le> 536870912"
    and "length (sum_items s) < 1073741824"
  shows "\<exists>s'. make_aggregate_histo s = Inr s' \<and> has_histo s'
     \<and> holds_data histogram_ops hist_rep s' (mset (map int [0..<length (sum_items s)]))"
proof -
  let ?n = "length (sum_items s)" let ?xs = "map int [0..<?n]"
  have t: "hist_target s = nat k"
  proof -
    have "(word_of_int k :: u64) = of_nat (nat k)" using assms(3) by simp
    then show ?thesis using assms(2,3,4) unat_of_nat64 [of "nat k"] by (simp add: hist_target_def)
  qed
  have k: "1 < nat k" "nat k \<le> 536870912" using assms(3,4) by auto
  obtain l where l: "new_LogHistogram (nat k) = Inr l" "hist_rep l {#}"
    using new_hist_rep [OF k] by blast
  have v: "valid_data (mset ?xs)" using assms(5) by (auto simp: valid_data_def INT_MAX_def)
  obtain h where h: "foldE (\<lambda>v. lh_add_item v 1) ?xs l = Inr h" "hist_rep h (mset ?xs)"
    using hist_agg.add_items [OF l(2) v] assms(5) by (auto simp: histogram_ops_def)
  have f: "foldE (\<lambda>i. lh_add_item (int i) 1) [0..<?n] l = Inr h"
    using h(1) by (simp add: foldE_map)
  have "make_aggregate_histo s = Inr ((lh_serialize_to h s) \<lparr>sum_items := []\<rparr>)"
    using assms(1) f l(1) by (simp add: make_aggregate_histo_def contains_aggregate_def t)
  moreover obtain q' where q': "ag_serialize_to histogram_ops h s = Inr q'" "ag_has histogram_ops q'"
      "ag_read histogram_ops q' = Inr h"
    using hist_ser.write_law [OF h(2), of s] assms(5) by auto
  then have "lh_serialize_to h s = q'" "has_histo q'" by (auto simp: histogram_ops_def)
  ultimately show ?thesis using q' h(2) v
    by (auto simp: holds_data_def has_histo_def hist_ser.has_items hist_ser.read_items)
qed

section \<open>Degrading a histogram\<close>

lemma set_bucket_starts_length: "set_bucket_starts n = Inr ss \<Longrightarrow> length ss = n"
  by (auto simp: set_bucket_starts_def res_simps)

lemma fillIn_bucket_count: "lh_fillIn j = Inr h \<Longrightarrow> bucket_count h = unat (num_buckets j)"
  by (auto simp: lh_fillIn_def res_simps Let_def bucket_count_def set_bucket_starts_length)

lemma degrade_histogram_rep:
  assumes "hist_rep h M" and "size M < 1073741824" and "degrade_histogram ratio h = Inr h'"
  shows "hist_rep h' M \<and> bucket_count h' \<le> bucket_count h"
proof -
  obtain n new where n: "new_LogHistogram n = Inr new" "lh_merge_in new h = Inr h'"
    using assms(3) by (auto simp: degrade_histogram_def res_simps)
  then obtain ss where ss: "set_bucket_starts n = Inr ss" "bucket_starts new = ss"
    by (auto simp: new_LogHistogram_def res_simps)
  have "1 < n" using ss(1) by (auto simp: set_bucket_starts_def res_simps)
  have len: "length ss = n"
    using ss(1) by (rule set_bucket_starts_length)
  have le: "n \<le> bucket_count h"
    using n(2) ss(2) len by (auto simp: lh_merge_in_def res_simps bucket_count_def)
  then have "n \<le> 536870912" using assms(1) by (simp add: hist_rep_def)
  then have new: "hist_rep new {#}" using new_hist_rep [OF \<open>1 < n\<close>] n(1) by auto
  have "set (bucket_starts new) \<subseteq> set (bucket_starts h)"
    using hist_rep_starts [OF new assms(1)] le ss(2) len by (simp add: bucket_count_def)
  then have "\<exists>h'. lh_merge_in new h = Inr h' \<and> represents h' ({#} + M) \<and> bucket_starts h' = bucket_starts new"
    using assms new by (intro merge_represents) (auto simp: hist_rep_def)
  then show ?thesis using n(2) hist_rep_same_starts [OF new] le ss(2) len by (auto simp: bucket_count_def)
qed

lemma degrade_histogram_total:
  assumes "hist_rep h M" and "size M < 1073741824" and "0 \<le> r" and "r \<le> 1"
    and "2 \<le> rnd (of_nat (bucket_count h) * r)"
  shows "\<exists>h'. degrade_histogram (Fin r) h = Inr h' \<and> hist_rep h' M
     \<and> int (bucket_count h') = \<lfloor>rnd (of_nat (bucket_count h) * r)\<rfloor>"
proof -
  let ?c = "bucket_count h" let ?x = "rnd (of_nat ?c * r)"
  have c: "?c \<le> 536870912" using assms(1) by (simp add: hist_rep_def)
  have e: "dof_int (int ?c) = Fin (of_nat ?c)" using dof_int_exact [of "int ?c"] c by simp
  have b: "0 \<le> of_nat ?c * r" "of_nat ?c * r \<le> of_nat ?c" using assms(3,4) by (auto simp: mult_left_le)
  have "rnd (of_nat ?c) = of_nat ?c" using rnd_int [of "int ?c"] c by simp
  then have x: "?x \<le> of_nat ?c" using rnd_mono [OF b(2)] by simp
  have m: "dmul (Fin (of_nat ?c)) (Fin r) = Fin ?x"
    using mk_double_fin_int(1) [of 0 "of_nat ?c * r" "int ?c"] b c by simp
  have f: "2 \<le> \<lfloor>?x\<rfloor>" "\<lfloor>?x\<rfloor> \<le> int ?c" using assms(5) x by (simp_all add: floor_le_iff le_floor_iff)
  have fc: "nat \<lfloor>?x\<rfloor> \<le> 536870912" using f(2) c by linarith
  obtain new where new: "new_LogHistogram (nat \<lfloor>?x\<rfloor>) = Inr new" "hist_rep new {#}" "bucket_count new = nat \<lfloor>?x\<rfloor>"
    using new_hist_rep [of "nat \<lfloor>?x\<rfloor>"] f(1) fc by auto
  have "set (bucket_starts new) \<subseteq> set (bucket_starts h)"
    using hist_rep_starts [OF new(2) assms(1)] new(3) f by simp
  then obtain h' where h': "lh_merge_in new h = Inr h'" "represents h' M" "bucket_starts h' = bucket_starts new"
    using merge_represents [of new "{#}" h M] new(2) assms(1,2) by (auto simp: hist_rep_def)
  have d: "dtrunc 0 4294967295 (Fin ?x) = Inr \<lfloor>?x\<rfloor>"
  proof -
    have "\<lfloor>?x\<rfloor> \<le> 4294967295" "0 \<le> ?x" using f(2) c assms(5) by linarith+
    then show ?thesis using f(1) by (simp del: floor_less_iff floor_le_iff floor_le_numeral)
  qed
  have "degrade_histogram (Fin r) h = Inr h'"
    by (simp only: degrade_histogram_def e m d bindE.simps new(1) h'(1))
  then show ?thesis using h' hist_rep_same_starts [OF new(2)] new(3) f by (auto simp: bucket_count_def)
qed

section \<open>Properties\<close>

definition list_summary :: "int list \<Rightarrow> int \<Rightarrow> JSSummary" where
  "list_summary xs k = empty_summary \<lparr>sum_items := xs, future_hist_size := Some k\<rparr>"

definition hist4_summary :: JSSummary where
  "hist4_summary = lh_serialize_to hist4 empty_summary"

lemma hist4_rep: "hist_rep hist4 {#1, 5#}"
proof -
  have "bucket_count hist4 = 4" by (simp add: bucket_count_def hist4_def)
  then show ?thesis using hist4_represents set_bucket_starts_4 by (simp add: hist_rep_def hist4_def)
qed

lemma hist4_summary_holds: "holds_data histogram_ops hist_rep hist4_summary {#1, 5#}"
  using hist_ser.write_law [OF hist4_rep, of empty_summary] hist4_rep
  by (auto simp: holds_data_def hist4_summary_def histogram_ops_def valid_data_def empty_summary_def INT_MAX_def)

lemma list_summary_holds: "valid_data (mset xs) \<Longrightarrow> holds_data histogram_ops hist_rep (list_summary xs k) (mset xs)"
  by (simp add: holds_data_def list_summary_def empty_summary_def histogram_ops_def has_histo_def)



text \<open>
  When two lists of together more than 300 values are merged, the histogram made of
  the left one counts the positions 0, 1, 2, ... of its values instead of the values themselves.
\<close>

theorem make_aggregate_counts_positions:
  assumes "1 < k" and "k \<le> 536870912" and "300 < length xs + length ys" and "length xs + length ys < 1073741824"
    and "valid_data (mset ys)"
  shows "\<exists>s. merge_summary histogram_ops (list_summary xs k) (list_summary ys k') = Inr s
     \<and> holds_data histogram_ops hist_rep s (mset (map int [0..<length xs]) + mset ys)"
proof -
  let ?a = "list_summary xs k" let ?b = "list_summary ys k'"
  have nh: "\<not> has_histo ?a" "\<not> has_histo ?b" by (simp_all add: list_summary_def empty_summary_def has_histo_def)
  have si: "sum_items ?a = xs" "sum_items ?b = ys" "future_hist_size ?a = Some k"
    by (simp_all add: list_summary_def)
  obtain s1 where s1: "make_aggregate_histo ?a = Inr s1" "has_histo s1"
    "holds_data histogram_ops hist_rep s1 (mset (map int [0..<length xs]))"
    using make_histo_index [OF nh(1) si(3) assms(1,2)] assms(4) unfolding si(1) by auto
  have "\<exists>s. merge_into_aggregate histogram_ops s1 ?b = Inr s
      \<and> holds_data histogram_ops hist_rep s (mset (map int [0..<length xs]) + mset ys) \<and> ag_has histogram_ops s"
    by (rule hist_ser.merge_into_holds [OF s1(3) list_summary_holds [OF assms(5)]])
      (use s1(2) assms(4) in \<open>simp_all add: histogram_ops_def\<close>)
  moreover have "should_make_histo ?a ?b = Inr True"
    using nh assms(3,4) unfolding should_make_histo_def si contains_aggregate_def
    by (simp add: in_int_def INT_MAX_def INT_MIN_def)
  then have "merge_summary histogram_ops ?a ?b = merge_into_aggregate histogram_ops s1 ?b"
    using nh s1(1) by (simp add: merge_summary_def contains_aggregate_def histogram_ops_def)
  ultimately show ?thesis by auto
qed

theorem make_aggregate_counts_positions_witness:
  "\<exists>s. merge_summary histogram_ops (list_summary (replicate 200 7) 16) (list_summary (replicate 200 9) 16) = Inr s
     \<and> holds_data histogram_ops hist_rep s (mset (map int [0..<length (replicate 200 (7 :: int))]) + mset (replicate 200 9))"
  by (rule make_aggregate_counts_positions) (simp_all add: valid_data_def INT_MAX_def)


definition degrade_op :: "unit DegradeSummary" where
  "degrade_op = start_degrade (new_DegradeSummary (OpId 1 2) \<lparr>cur_step := 0, steps := [Fin (1/2), Fin 1]\<rparr>)"

definition degrade_tuple :: Tuple where
  "degrade_tuple = add_e empty_tuple (empty_element \<lparr>summary := Some hist4_summary\<rparr>)"

definition degraded_tuple :: Tuple where
  "degraded_tuple = add_e empty_tuple (empty_element \<lparr>summary := Some (empty_summary
     \<lparr>histo := Some \<lparr>bucket_vals = [0, 2], num_buckets = 2\<rparr>\<rparr>)\<rparr>)"

lemma degrade_run:
  "process_degrade 9000 (\<lambda>_. 5000) (uncongested_capacity_ratio 0) None degrade_op degrade_tuple
     = Inr (degraded_tuple, degrade_op)"
  by code_simp


end
