(* ===== verification/JS_CubeImpl.thy ===== *)
theory JS_CubeImpl
  imports JS_Batch JS_Summary
begin

text \<open>
  What a cube knows of its schema: dimensions (\<^verbatim>\<open>cube/dimension.cc\<close>, \<^verbatim>\<open>cube/dimension_factory.h\<close>, the
  key functions of \<^verbatim>\<open>cube/mysql/dimension_*.cc\<close>), aggregates (\<^verbatim>\<open>cube/aggregate.cc\<close>,
  \<^verbatim>\<open>cube/aggregate_factory.h\<close>, \<^verbatim>\<open>cube/masstree/mt_aggregate.cc\<close>, the merging functions of
  \<^verbatim>\<open>cube/mysql/aggregate*\<close>) and \<^verbatim>\<open>cube/cube_impl.h\<close>.  A tuple index is kept as the signed integer of
  the schema: it is stored as a size_t and read back as an int.
\<close>

section \<open>Elements of a tuple\<close>

definition tuple_e :: "Tuple \<Rightarrow> int \<Rightarrow> Element res" where
  "tuple_e t i = (if 0 \<le> i then nthE (e t) (nat i) else Inl OutOfBounds)"

definition mutable_e :: "Tuple \<Rightarrow> int \<Rightarrow> (Element \<Rightarrow> Element res) \<Rightarrow> Tuple res" where
  "mutable_e t i f = bindE (tuple_e t i) (\<lambda>x. bindE (f x) (\<lambda>y. Inr (t \<lparr>e := (e t)[nat i := y]\<rparr>)))"

text \<open>Printing a double with \<^verbatim>\<open>operator<<\<close>: the conversion \<^verbatim>\<open>%g\<close> with six significant digits.\<close>

definition round_even :: "rat \<Rightarrow> int" where
  "round_even q = (let f = \<lfloor>q\<rfloor>; r = q - of_int f in
     if r < 1 / 2 \<or> (r = 1 / 2 \<and> even f) then f else f + 1)"

definition pow10 :: "int \<Rightarrow> rat" where
  "pow10 k = (if 0 \<le> k then 10 ^ nat k else 1 / 10 ^ nat (- k))"

definition exponent10 :: "rat \<Rightarrow> int" where
  "exponent10 q = (if 1 \<le> q then int (length (show_nat (nat \<lfloor>q\<rfloor>))) - 1
     else (case find (\<lambda>n. 1 \<le> q * 10 ^ n) [1..<400] of Some n \<Rightarrow> - int n | None \<Rightarrow> - 400))"

definition strip_zeros :: "string \<Rightarrow> string" where
  "strip_zeros s = rev (dropWhile (\<lambda>c. c = CHR ''0'') (rev s))"

definition with_point :: "string \<Rightarrow> string \<Rightarrow> string" where
  "with_point ip fp = (let f = strip_zeros fp in if f = [] then ip else ip @ ''.'' @ f)"

definition show_pos_rat :: "rat \<Rightarrow> string" where
  "show_pos_rat q =
     (let x0 = exponent10 q; r0 = round_even (q * pow10 (5 - x0));
          (x, r) = (if r0 = 1000000 then (x0 + 1, 100000) else (x0, r0));
          ds = show_nat (nat r)
      in if x < - 4 \<or> 6 \<le> x
         then with_point (take 1 ds) (drop 1 ds) @ ''e'' @ (if x < 0 then ''-'' else ''+'')
            @ (let es = show_nat (nat \<bar>x\<bar>) in if length es < 2 then ''0'' @ es else es)
         else if 0 \<le> x then with_point (take (nat x + 1) ds) (drop (nat x + 1) ds)
         else with_point ''0'' (replicate (nat (- x) - 1) (CHR ''0'') @ ds))"

fun show_double :: "double \<Rightarrow> string" where
  "show_double (Fin q) = (if q = 0 then ''0'' else if q < 0 then ''-'' @ show_pos_rat (- q) else show_pos_rat q)"
| "show_double PInf = ''inf''"
| "show_double NInf = ''-inf''"
| "show_double NaN = ''nan''"

section \<open>Dimensions\<close>

record Dimension =
  d_name :: string
  d_type :: DimensionType
  d_indexes :: "int list"

definition tuple_element_count :: nat where
  "tuple_element_count = 1"

definition dimension_init :: "SchemaDimension \<Rightarrow> Dimension res" where
  "dimension_init s =
     (if length (dim_tuple_indexes s) \<noteq> tuple_element_count then Inl LogFatal
      else Inr \<lparr>d_name = dim_name s, d_type = dim_type s, d_indexes = dim_tuple_indexes s\<rparr>)"

definition create_dimension :: "SchemaDimension \<Rightarrow> Dimension res" where
  "create_dimension s = (case dim_type s of
       DIM_TIME \<Rightarrow> dimension_init s
     | DIM_TIME_CONTAINMENT \<Rightarrow> dimension_init s
     | DIM_INT32 \<Rightarrow> dimension_init s
     | DIM_DOUBLE \<Rightarrow> dimension_init s
     | DIM_STRING \<Rightarrow> dimension_init s
     | _ \<Rightarrow> Inl LogFatal)"

definition DTC_SECS_PER_LEVEL :: "u32 list" where
  "DTC_SECS_PER_LEVEL = [2147483647, 3600, 1800, 600, 300, 60, 30, 10, 5, 1]"

definition DTC_LEVEL_COUNT :: nat where
  "DTC_LEVEL_COUNT = length DTC_SECS_PER_LEVEL"

definition flat_leaf_level :: u32 where
  "flat_leaf_level = 1"

definition time_containment_leaf_level :: u32 where
  "time_containment_leaf_level = of_nat (DTC_LEVEL_COUNT - 1)"

definition leaf_level :: "Dimension \<Rightarrow> u32" where
  "leaf_level d = (if d_type d = DIM_TIME_CONTAINMENT then time_containment_leaf_level else flat_leaf_level)"

definition double_get_key :: "Element \<Rightarrow> string res" where
  "double_get_key x = (case d_val x of Some v \<Rightarrow> Inr (show_double v) | None \<Rightarrow> Inl LogFatal)"

definition int_get_key :: "Element \<Rightarrow> string res" where
  "int_get_key x = (case i_val x of Some v \<Rightarrow> Inr (show_int v) | None \<Rightarrow> Inl LogFatal)"

definition string_get_key :: "Element \<Rightarrow> string res" where
  "string_get_key x = (case s_val x of
       Some v \<Rightarrow> Inr (if length v > 254 then take 254 v else v) | None \<Rightarrow> Inl LogFatal)"

definition time_get_key :: "Element \<Rightarrow> string res" where
  "time_get_key x = (case t_val x of Some v \<Rightarrow> Inr (show_int v) | None \<Rightarrow> Inl LogFatal)"

definition time_containment_get_key :: "Element \<Rightarrow> string res" where
  "time_containment_get_key x = (case t_val x of Some v \<Rightarrow> Inr (show_int v) | None \<Rightarrow> Inl LogFatal)"

text \<open>The virtual call \<^verbatim>\<open>get_key(t, ostr)\<close>; a URL dimension cannot be created.\<close>

definition get_key :: "Dimension \<Rightarrow> Tuple \<Rightarrow> string res" where
  "get_key d t = bindE (nthE (d_indexes d) 0) (\<lambda>i. bindE (tuple_e t i) (case d_type d of
       DIM_DOUBLE \<Rightarrow> double_get_key
     | DIM_INT32 \<Rightarrow> int_get_key
     | DIM_STRING \<Rightarrow> string_get_key
     | DIM_TIME \<Rightarrow> time_get_key
     | DIM_TIME_CONTAINMENT \<Rightarrow> time_containment_get_key
     | DIM_URL \<Rightarrow> (\<lambda>_. Inl LogFatal)))"

section \<open>Aggregates\<close>

datatype AggClass =
    MTSum | MTVersion
  | MyCount | MyAvg | MyString | MyQuantHistogram | MyQuantSample | MyQuantSketch
  | MyMinInt | MyMinDouble | MyMinTime | MyVersion

record CubeAggregate =
  a_class :: AggClass
  a_name :: string
  a_indexes :: "int list"

definition number_tuple_elements :: "AggClass \<Rightarrow> nat" where
  "number_tuple_elements c = (case c of MyAvg \<Rightarrow> 2 | MyVersion \<Rightarrow> 0 | _ \<Rightarrow> 1)"

definition aggregate_init :: "AggClass \<Rightarrow> SchemaAggregate \<Rightarrow> CubeAggregate res" where
  "aggregate_init c s =
     (if length (agg_tuple_indexes s) \<noteq> number_tuple_elements c then Inl LogFatal
      else Inr \<lparr>a_class = c, a_name = agg_name s, a_indexes = agg_tuple_indexes s\<rparr>)"

definition create_mt_aggregate :: "SchemaAggregate \<Rightarrow> CubeAggregate res" where
  "create_mt_aggregate s =
     (if agg_type s = ''count'' then aggregate_init MTSum s
      else if agg_type s = ''sum'' then aggregate_init MTSum s
      else Inl LogFatal)"

definition create_mysql_aggregate :: "SchemaAggregate \<Rightarrow> CubeAggregate res" where
  "create_mysql_aggregate s =
     (if agg_type s = ''count'' then aggregate_init MyCount s
      else if agg_type s = ''avg'' then aggregate_init MyAvg s
      else if agg_type s = ''string'' then aggregate_init MyString s
      else if agg_type s = ''quantile_histogram'' then aggregate_init MyQuantHistogram s
      else if agg_type s = ''quantile_sample'' then aggregate_init MyQuantSample s
      else if agg_type s = ''quantile_sketch'' then aggregate_init MyQuantSketch s
      else if agg_type s = ''min_i'' then aggregate_init MyMinInt s
      else if agg_type s = ''min_d'' then aggregate_init MyMinDouble s
      else if agg_type s = ''min_t'' then aggregate_init MyMinTime s
      else Inl LogFatal)"

definition mt_version_aggregate :: CubeAggregate where
  "mt_version_aggregate = \<lparr>a_class = MTVersion, a_name = [], a_indexes = []\<rparr>"

definition mysql_version_aggregate :: CubeAggregate where
  "mysql_version_aggregate = \<lparr>a_class = MyVersion, a_name = ''version'', a_indexes = []\<rparr>"

text \<open>Fields are appended until the index exists.\<close>

definition pad_to :: "int \<Rightarrow> Tuple \<Rightarrow> Tuple" where
  "pad_to i t = t \<lparr>e := e t @ replicate (nat (i + 1) - length (e t)) empty_element\<rparr>"

definition set_i_val :: "int \<Rightarrow> Element \<Rightarrow> Element" where
  "set_i_val v x = x \<lparr>i_val := Some v\<rparr>"

definition default_count :: "int \<Rightarrow> Tuple \<Rightarrow> Tuple res" where
  "default_count i t = mutable_e t i (\<lambda>x. Inr (if i_val x = None then set_i_val 1 x else x))"

definition insert_default_values :: "CubeAggregate \<Rightarrow> Tuple \<Rightarrow> Tuple res" where
  "insert_default_values a t = (case a_class a of
       MyCount \<Rightarrow> bindE (nthE (a_indexes a) 0) (\<lambda>i. default_count i t)
     | MyAvg \<Rightarrow> bindE (nthE (a_indexes a) 1) (\<lambda>i. default_count i t)
     | MyVersion \<Rightarrow> Inr (t \<lparr>version := Some 0\<rparr>)
     | _ \<Rightarrow> Inr t)"

definition make_full_tuple :: "CubeAggregate \<Rightarrow> Tuple \<Rightarrow> Tuple res" where
  "make_full_tuple a t =
     bindE (foldE (\<lambda>k t. bindE (nthE (a_indexes a) k) (\<lambda>i. Inr (pad_to i t)))
        [0..<number_tuple_elements (a_class a)] t) (insert_default_values a)"

text \<open>The shared body of the counting aggregates.\<close>

definition merge_count :: "int \<Rightarrow> Tuple \<Rightarrow> Tuple \<Rightarrow> Tuple res" where
  "merge_count i into update =
     (if int (length (e update)) - 1 \<ge> i then
        bindE (tuple_e update i) (\<lambda>u.
        mutable_e into i (\<lambda>x. bindE (intE (get_i_val x + get_i_val u)) (\<lambda>v. Inr (set_i_val v x))))
      else mutable_e into i (\<lambda>x. bindE (intE (get_i_val x + 1)) (\<lambda>v. Inr (set_i_val v x))))"

definition merge_sum :: "Element \<Rightarrow> Element \<Rightarrow> Element res" where
  "merge_sum x u = (if i_val x \<noteq> None
     then bindE (intE (get_i_val x + get_i_val u)) (\<lambda>v. Inr (set_i_val v x))
     else Inr (x \<lparr>d_val := Some (dadd (get_d_val x) (get_d_val u))\<rparr>))"

definition merge_avg :: "int \<Rightarrow> int \<Rightarrow> Tuple \<Rightarrow> Tuple \<Rightarrow> Tuple res" where
  "merge_avg i j into update =
     bindE (tuple_e update i) (\<lambda>u. bindE (mutable_e into i (\<lambda>x. merge_sum x u)) (\<lambda>t. merge_count j t update))"

definition merge_version :: "Tuple \<Rightarrow> Tuple \<Rightarrow> Tuple" where
  "merge_version into update =
     (if get_version update > get_version into then into \<lparr>version := Some (get_version update)\<rparr> else into)"

text \<open>\<^verbatim>\<open>combine\<close> of the minimum on the three value types.\<close>

definition merge_simple :: "(Element \<Rightarrow> Element \<Rightarrow> Element) \<Rightarrow> int \<Rightarrow> Tuple \<Rightarrow> Tuple \<Rightarrow> Tuple res" where
  "merge_simple comb i into update =
     bindE (tuple_e update i) (\<lambda>u. mutable_e into i (\<lambda>x. Inr (comb x u)))"

definition min_int :: "Element \<Rightarrow> Element \<Rightarrow> Element" where
  "min_int x u = set_i_val (if get_i_val x < get_i_val u then get_i_val x else get_i_val u) x"

definition min_double :: "Element \<Rightarrow> Element \<Rightarrow> Element" where
  "min_double x u = x \<lparr>d_val := Some (if dlt (get_d_val x) (get_d_val u) then get_d_val x else get_d_val u)\<rparr>"

definition min_time :: "Element \<Rightarrow> Element \<Rightarrow> Element" where
  "min_time x u = x \<lparr>t_val := Some (if get_t_val x < get_t_val u then get_t_val x else get_t_val u)\<rparr>"

definition get_summary :: "Element \<Rightarrow> JSSummary" where
  "get_summary x = (case summary x of None \<Rightarrow> empty_summary | Some s \<Rightarrow> s)"

text \<open>The three instances of merge_summary (their random draws included) are arguments.\<close>

record agg_env =
  merge_histo :: "JSSummary \<Rightarrow> JSSummary \<Rightarrow> JSSummary res"
  merge_sample :: "JSSummary \<Rightarrow> JSSummary \<Rightarrow> JSSummary res"
  merge_sketch :: "JSSummary \<Rightarrow> JSSummary \<Rightarrow> JSSummary res"

definition merge_quantile ::
  "(JSSummary \<Rightarrow> JSSummary \<Rightarrow> JSSummary res) \<Rightarrow> int \<Rightarrow> Tuple \<Rightarrow> Tuple \<Rightarrow> Tuple res" where
  "merge_quantile mrg i into update =
     bindE (tuple_e update i) (\<lambda>u. mutable_e into i (\<lambda>x.
       bindE (mrg (get_summary x) (get_summary u)) (\<lambda>s. Inr (x \<lparr>summary := Some s\<rparr>))))"

definition merge_full_tuple_into :: "agg_env \<Rightarrow> CubeAggregate \<Rightarrow> Tuple \<Rightarrow> Tuple \<Rightarrow> Tuple res" where
  "merge_full_tuple_into env a into update =
     (let ix = nthE (a_indexes a) in case a_class a of
       MyCount \<Rightarrow> bindE (ix 0) (\<lambda>i. merge_count i into update)
     | MyAvg \<Rightarrow> bindE (ix 0) (\<lambda>i. bindE (ix 1) (\<lambda>j. merge_avg i j into update))
     | MyString \<Rightarrow> bindE (ix 0) (\<lambda>i. merge_simple (\<lambda>x u. x \<lparr>s_val := Some (get_s_val u)\<rparr>) i into update)
     | MyQuantHistogram \<Rightarrow> bindE (ix 0) (\<lambda>i. merge_quantile (merge_histo env) i into update)
     | MyQuantSample \<Rightarrow> bindE (ix 0) (\<lambda>i. merge_quantile (merge_sample env) i into update)
     | MyQuantSketch \<Rightarrow> bindE (ix 0) (\<lambda>i. merge_quantile (merge_sketch env) i into update)
     | MyMinInt \<Rightarrow> bindE (ix 0) (\<lambda>i. merge_simple min_int i into update)
     | MyMinDouble \<Rightarrow> bindE (ix 0) (\<lambda>i. merge_simple min_double i into update)
     | MyMinTime \<Rightarrow> bindE (ix 0) (\<lambda>i. merge_simple min_time i into update)
     | _ \<Rightarrow> Inr (merge_version into update))"

definition agg_merge_tuple_into :: "agg_env \<Rightarrow> CubeAggregate \<Rightarrow> Tuple \<Rightarrow> Tuple \<Rightarrow> Tuple res" where
  "agg_merge_tuple_into env a into update = (case a_class a of
       MTSum \<Rightarrow> bindE (nthE (a_indexes a) 0) (\<lambda>i. merge_count i into update)
     | MTVersion \<Rightarrow> Inr (merge_version into update)
     | _ \<Rightarrow> bindE (make_full_tuple a into) (\<lambda>t. merge_full_tuple_into env a t update))"


definition delta_count :: "int \<Rightarrow> Tuple \<Rightarrow> Tuple \<Rightarrow> Tuple res" where
  "delta_count i newV oldV =
     bindE (if int (length (e oldV)) - 1 \<ge> i then bindE (tuple_e oldV i) (\<lambda>x. Inr (get_i_val x)) else Inr 1) (\<lambda>old_v.
     bindE (if int (length (e newV)) > i then bindE (tuple_e newV i) (\<lambda>x. Inr (get_i_val x, newV))
            else if old_v > 1 then Inl LogFatal else Inr (1, pad_to i newV)) (\<lambda>(new_v, t).
     bindE (intE (new_v - old_v)) (\<lambda>v. mutable_e t i (\<lambda>x. Inr (set_i_val v x)))))"

definition delta_avg :: "int \<Rightarrow> int \<Rightarrow> Tuple \<Rightarrow> Tuple \<Rightarrow> Tuple res" where
  "delta_avg i j newV oldV =
     bindE (tuple_e oldV i) (\<lambda>old_e.
     let old_sum = (case d_val old_e of Some d \<Rightarrow> d | None \<Rightarrow> dof_int (get_i_val old_e)) in
     bindE (mutable_e newV i (\<lambda>x. case d_val x of
         Some d \<Rightarrow> Inr (x \<lparr>d_val := Some (dsub d old_sum)\<rparr>)
       | None \<Rightarrow> bindE (dtrunc INT_MIN INT_MAX old_sum) (\<lambda>k.
           bindE (intE (get_i_val x - k)) (\<lambda>v. Inr (set_i_val v x))))) (\<lambda>t.
     bindE (tuple_e t j) (\<lambda>nc. bindE (tuple_e oldV j) (\<lambda>oc.
     bindE (intE (get_i_val nc - get_i_val oc)) (\<lambda>v. mutable_e t j (\<lambda>x. Inr (set_i_val v x)))))))"

definition update_from_delta :: "CubeAggregate \<Rightarrow> Tuple \<Rightarrow> Tuple \<Rightarrow> Tuple res" where
  "update_from_delta a newV oldV = (case a_class a of
       MTSum \<Rightarrow> bindE (nthE (a_indexes a) 0) (\<lambda>i. delta_count i newV oldV)
     | MyCount \<Rightarrow> bindE (nthE (a_indexes a) 0) (\<lambda>i. delta_count i newV oldV)
     | MyAvg \<Rightarrow> bindE (nthE (a_indexes a) 0) (\<lambda>i. bindE (nthE (a_indexes a) 1) (\<lambda>j. delta_avg i j newV oldV))
     | MTVersion \<Rightarrow> Inr (merge_version newV oldV)
     | _ \<Rightarrow> Inr newV)"

section \<open>DataCubeImpl\<close>

record DataCubeImpl =
  ci_dimensions :: "Dimension list"
  ci_aggregates :: "CubeAggregate list"
  dimensionMap :: "(string, nat) stdmap"
  aggregateMap :: "(string, nat) stdmap"
  src_tuple_min_len :: int

fun build_dimensions :: "SchemaDimension list \<Rightarrow> DataCubeImpl \<Rightarrow> DataCubeImpl res" where
  "build_dimensions [] c = Inr c"
| "build_dimensions (s # ss) c = bindE (create_dimension s) (\<lambda>d.
     let ds = ci_dimensions c @ [d] in
     build_dimensions ss (c \<lparr>ci_dimensions := ds, dimensionMap := map_set (d_name d) (length ds - 1) (dimensionMap c)\<rparr>))"

fun build_aggregates :: "(SchemaAggregate \<Rightarrow> CubeAggregate res) \<Rightarrow> SchemaAggregate list \<Rightarrow> DataCubeImpl \<Rightarrow> DataCubeImpl res" where
  "build_aggregates create [] c = Inr c"
| "build_aggregates create (s # ss) c = bindE (create s) (\<lambda>a.
     let as = ci_aggregates c @ [a] in
     build_aggregates create ss (c \<lparr>ci_aggregates := as, aggregateMap := map_set (a_name a) (length as - 1) (aggregateMap c)\<rparr>))"

definition build_cube ::
  "(SchemaAggregate \<Rightarrow> CubeAggregate res) \<Rightarrow> CubeAggregate \<Rightarrow> CubeSchema \<Rightarrow> DataCubeImpl res" where
  "build_cube create version_agg s =
     bindE (build_dimensions (dimensions s)
       \<lparr>ci_dimensions = [], ci_aggregates = [], dimensionMap = [], aggregateMap = [], src_tuple_min_len = 0\<rparr>) (\<lambda>c.
     bindE (build_aggregates create (aggregates s) c) (\<lambda>c.
     let as = ci_aggregates c @ [version_agg] in
     Inr (c \<lparr>ci_aggregates := as, aggregateMap := map_set ''version'' (length as - 1) (aggregateMap c)\<rparr>)))"

text \<open>\<^verbatim>\<open>find_in\<close> returns the position as an int, -1 when there is none.\<close>

definition find_in :: "(string, nat) stdmap \<Rightarrow> string \<Rightarrow> int" where
  "find_in m nm = (case map_find nm m of Some p \<Rightarrow> to_int32 (int p) | None \<Rightarrow> - 1)"

definition get_dimension :: "DataCubeImpl \<Rightarrow> string \<Rightarrow> Dimension res" where
  "get_dimension c nm = (let pos = find_in (dimensionMap c) nm in
     if pos > - 1 then nthE (ci_dimensions c) (nat pos) else Inl LogFatal)"

definition get_aggregate :: "DataCubeImpl \<Rightarrow> string \<Rightarrow> CubeAggregate res" where
  "get_aggregate c nm = (let pos = find_in (aggregateMap c) nm in
     if pos > - 1 then nthE (ci_aggregates c) (nat pos) else Inl LogFatal)"

definition has_dimension :: "DataCubeImpl \<Rightarrow> string \<Rightarrow> bool" where
  "has_dimension c nm = map_has nm (dimensionMap c)"

definition has_aggregate :: "DataCubeImpl \<Rightarrow> string \<Rightarrow> bool" where
  "has_aggregate c nm = map_has nm (aggregateMap c)"

definition num_dimensions :: "DataCubeImpl \<Rightarrow> nat" where
  "num_dimensions c = length (ci_dimensions c)"

definition num_aggregates :: "DataCubeImpl \<Rightarrow> nat" where
  "num_aggregates c = length (ci_aggregates c)"

definition dimension_offset :: "DataCubeImpl \<Rightarrow> string \<Rightarrow> int list res" where
  "dimension_offset c nm = bindE (get_dimension c nm) (\<lambda>d. Inr (d_indexes d))"

definition aggregate_offset :: "DataCubeImpl \<Rightarrow> string \<Rightarrow> int list res" where
  "aggregate_offset c nm = bindE (get_aggregate c nm) (\<lambda>a. Inr (a_indexes a))"

fun unrolled_loop :: "Dimension list \<Rightarrow> u32 list \<Rightarrow> bool res" where
  "unrolled_loop [] ls = Inr True"
| "unrolled_loop (d # ds) [] = Inl OutOfBounds"
| "unrolled_loop (d # ds) (l # ls) = (if l < leaf_level d then Inr False else unrolled_loop ds ls)"

definition is_unrolled :: "DataCubeImpl \<Rightarrow> u32 list \<Rightarrow> bool res" where
  "is_unrolled c levels = unrolled_loop (ci_dimensions c) levels"

definition get_leaf_levels :: "DataCubeImpl \<Rightarrow> u32 list" where
  "get_leaf_levels c = map leaf_level (ci_dimensions c)"

fun key_loop :: "Dimension list \<Rightarrow> Tuple \<Rightarrow> u32 list \<Rightarrow> string \<Rightarrow> string res" where
  "key_loop [] t ls ostr = Inr ostr"
| "key_loop (d # ds) t ls ostr = bindE (get_key d t) (\<lambda>k. case ls of [] \<Rightarrow> Inl OutOfBounds
     | l # ls' \<Rightarrow> key_loop ds t ls' (ostr @ k @ ''|'' @ show_nat (unat l) @ ''|''))"

definition get_dimension_key :: "DataCubeImpl \<Rightarrow> Tuple \<Rightarrow> u32 list \<Rightarrow> DimensionKey res" where
  "get_dimension_key c t levels = key_loop (ci_dimensions c) t levels []"

definition merge_tuple_into :: "agg_env \<Rightarrow> DataCubeImpl \<Rightarrow> Tuple \<Rightarrow> Tuple \<Rightarrow> Tuple res" where
  "merge_tuple_into env c into update =
     foldE (\<lambda>a t. agg_merge_tuple_into env a t update) (ci_aggregates c) into"

definition min_len_loop :: "Dimension list \<Rightarrow> int \<Rightarrow> int" where
  "min_len_loop ds n = fold (\<lambda>d n. fold (\<lambda>m n. max m n) (d_indexes d) n) ds n"

fun reorder_loop :: "nat \<Rightarrow> Dimension list \<Rightarrow> Tuple \<Rightarrow> Tuple \<Rightarrow> Tuple res" where
  "reorder_loop i [] t r = Inr r"
| "reorder_loop i (d # ds) t r =
     bindE (foldE (\<lambda>part r. bindE (nthE (d_indexes d) part) (\<lambda>src_offset.
        bindE (nthE (e t) (i + part)) (\<lambda>x. mutable_e r src_offset (\<lambda>_. Inr x))))
        [0..<tuple_element_count] r) (reorder_loop (Suc i) ds t)"

definition get_sourceformat_tuple :: "DataCubeImpl \<Rightarrow> Tuple \<Rightarrow> (Tuple \<times> DataCubeImpl) res" where
  "get_sourceformat_tuple c t =
     (let n = (if src_tuple_min_len c = 0 then min_len_loop (ci_dimensions c) 0 else src_tuple_min_len c) in
      bindE (reorder_loop 0 (ci_dimensions c) t \<lparr>e = replicate (nat (n + 1)) empty_element, version = None\<rparr>) (\<lambda>r.
      Inr (r, c \<lparr>src_tuple_min_len := n\<rparr>)))"

text \<open>The tuple \<^verbatim>\<open>process_delta\<close> hands to \<^verbatim>\<open>process\<close>.\<close>

definition delta_tuple :: "DataCubeImpl \<Rightarrow> Tuple \<Rightarrow> Tuple \<Rightarrow> Tuple res" where
  "delta_tuple c oldV newV = foldE (\<lambda>a t. update_from_delta a t oldV) (ci_aggregates c) newV"

section \<open>Keys\<close>

lemma key_loop_acc: "key_loop ds t ls ostr = bindE (key_loop ds t ls []) (\<lambda>k. Inr (ostr @ k))"
proof (induction ds arbitrary: ls ostr)
  case (Cons d ds)
  show ?case
  proof (cases "get_key d t")
    case (Inr k)
    show ?thesis
    proof (cases ls)
      case (Cons l ls')
      let ?s = "k @ ''|'' @ show_nat (unat l) @ ''|''"
      show ?thesis using Inr Cons Cons.IH [of ls' "ostr @ ?s"] Cons.IH [of ls' ?s]
        by (simp add: bindE_assoc)
    qed (use Inr in simp)
  qed simp
qed simp

lemma show_nat_no_bar: "CHR ''|'' \<notin> set (show_nat n)"
  using show_nat_digits [of n] by (auto simp: list_all_iff is_digit_def)

lemma show_int_no_bar: "CHR ''|'' \<notin> set (show_int i)"
  by (simp add: show_int_def show_nat_no_bar)

lemma sep_split:
  "x \<notin> set xs \<Longrightarrow> x \<notin> set ys \<Longrightarrow> xs @ x # us = ys @ x # vs \<longleftrightarrow> xs = ys \<and> us = vs"
proof (induction xs arbitrary: ys)
  case Nil
  then show ?case by (cases ys) auto
next
  case (Cons a xs)
  then show ?case by (cases ys) auto
qed

text \<open>The parts of a key can be read back when no dimension value contains the separator.\<close>

definition bar_free :: "DataCubeImpl \<Rightarrow> Tuple \<Rightarrow> bool" where
  "bar_free c t = list_all (\<lambda>d. case get_key d t of Inr k \<Rightarrow> CHR ''|'' \<notin> set k | Inl _ \<Rightarrow> True) (ci_dimensions c)"

lemma key_loop_inj:
  assumes "key_loop ds t ls [] = Inr k" "key_loop ds t' ls' [] = Inr k"
    and "length ls = length ds" "length ls' = length ds"
    and "list_all (\<lambda>d. case get_key d t of Inr k \<Rightarrow> CHR ''|'' \<notin> set k | Inl _ \<Rightarrow> True) ds"
    and "list_all (\<lambda>d. case get_key d t' of Inr k \<Rightarrow> CHR ''|'' \<notin> set k | Inl _ \<Rightarrow> True) ds"
  shows "(\<forall>d \<in> set ds. get_key d t = get_key d t') \<and> ls = ls'"
  using assms
proof (induction ds arbitrary: ls ls' k)
  case (Cons d ds)
  obtain l ls1 l' ls1' where ls: "ls = l # ls1" "ls' = l' # ls1'"
    using Cons.prems(3,4) by (auto simp: length_Suc_conv)
  obtain a r where a: "get_key d t = Inr a" "key_loop ds t ls1 [] = Inr r"
      "k = (a @ ''|'' @ show_nat (unat l) @ ''|'') @ r"
    using Cons.prems(1) by (auto simp: ls res_simps key_loop_acc [where ostr = "_ @ _"])
  obtain a' r' where a': "get_key d t' = Inr a'" "key_loop ds t' ls1' [] = Inr r'"
      "k = (a' @ ''|'' @ show_nat (unat l') @ ''|'') @ r'"
    using Cons.prems(2) by (auto simp: ls res_simps key_loop_acc [where ostr = "_ @ _"])
  have nb: "CHR ''|'' \<notin> set a" "CHR ''|'' \<notin> set a'" using Cons.prems(5,6) a(1) a'(1) by auto
  have "a @ CHR ''|'' # (show_nat (unat l) @ CHR ''|'' # r) = a' @ CHR ''|'' # (show_nat (unat l') @ CHR ''|'' # r')"
    using a(3) a'(3) by simp
  then have "a = a'" "show_nat (unat l) @ CHR ''|'' # r = show_nat (unat l') @ CHR ''|'' # r'"
    using sep_split [OF nb] by auto
  moreover from this(2) have "show_nat (unat l) = show_nat (unat l')" "r = r'"
    using sep_split [OF show_nat_no_bar show_nat_no_bar] by auto
  ultimately have "a = a'" "l = l'" "r = r'" by (auto simp: show_nat_inj intro: word_unat_eq_iff [THEN iffD2])
  moreover have "(\<forall>d \<in> set ds. get_key d t = get_key d t') \<and> ls1 = ls1'"
    using Cons.IH [OF a(2), of ls1'] a'(2) \<open>r = r'\<close> Cons.prems(3-6) ls by simp
  ultimately show ?case using a(1) a'(1) ls by simp
qed simp

text \<open>
  Property C36: two tuples get the same dimension key only when every dimension has the same
  printed value and they are rolled up to the same levels, provided no printed value contains
  the separator.
\<close>

theorem dimension_key_injective:
  assumes "get_dimension_key c t ls = Inr k" and "get_dimension_key c t' ls' = Inr k"
    and "length ls = num_dimensions c" and "length ls' = num_dimensions c"
    and "bar_free c t" and "bar_free c t'"
  shows "(\<forall>d \<in> set (ci_dimensions c). get_key d t = get_key d t') \<and> ls = ls'"
  using assms key_loop_inj [of "ci_dimensions c" t ls k t' ls']
  by (simp add: get_dimension_key_def num_dimensions_def bar_free_def)

definition demo_cube :: DataCubeImpl where
  "demo_cube = \<lparr>ci_dimensions =
       [\<lparr>d_name = ''url'', d_type = DIM_STRING, d_indexes = [0]\<rparr>, \<lparr>d_name = ''host'', d_type = DIM_STRING, d_indexes = [1]\<rparr>],
     ci_aggregates = [\<lparr>a_class = MTSum, a_name = ''count'', a_indexes = [2]\<rparr>, mt_version_aggregate],
     dimensionMap = [(''host'', 1), (''url'', 0)], aggregateMap = [(''count'', 0), (''version'', 1)], src_tuple_min_len = 0\<rparr>"

definition demo_tuple :: "string \<Rightarrow> string \<Rightarrow> int \<Rightarrow> Tuple" where
  "demo_tuple a b n = \<lparr>e = [string_element a, string_element b, int_element n], version = None\<rparr>"

lemmas demo_defs = demo_cube_def demo_tuple_def mt_version_aggregate_def

lemma show_nat_1: "show_nat (Suc 0) = ''1''"
  by code_simp

lemma demo_get_key:
  "get_key \<lparr>d_name = nm, d_type = DIM_STRING, d_indexes = [0]\<rparr> (demo_tuple a b n) = Inr (take 254 a)"
  "get_key \<lparr>d_name = nm, d_type = DIM_STRING, d_indexes = [1]\<rparr> (demo_tuple a b n) = Inr (take 254 b)"
  by (auto simp: get_key_def demo_tuple_def tuple_e_def string_get_key_def)

lemma demo_key:
  "get_dimension_key demo_cube (demo_tuple a b n) [x, y] =
     Inr (take 254 a @ ''|'' @ show_nat (unat x) @ ''|'' @ take 254 b @ ''|'' @ show_nat (unat y) @ ''|'')"
  by (simp add: get_dimension_key_def demo_cube_def demo_get_key)

theorem dimension_key_injective_witness:
  "map (\<lambda>d. get_key d (demo_tuple ''a'' ''b'' 1)) (ci_dimensions demo_cube)
     = map (\<lambda>d. get_key d (demo_tuple ''a'' ''b'' 7)) (ci_dimensions demo_cube) \<and> [1 :: u32, 1] = [1, 1]"
proof -
  have k: "get_dimension_key demo_cube (demo_tuple ''a'' ''b'' 1) [1, 1] = Inr ''a|1|b|1|''"
    "get_dimension_key demo_cube (demo_tuple ''a'' ''b'' 7) [1, 1] = Inr ''a|1|b|1|''"
    by (simp_all add: demo_key show_nat_1)
  have l: "length [1 :: u32, 1] = num_dimensions demo_cube"
    and b: "bar_free demo_cube (demo_tuple ''a'' ''b'' 1)" "bar_free demo_cube (demo_tuple ''a'' ''b'' 7)"
    by (simp_all add: num_dimensions_def demo_cube_def bar_free_def demo_get_key)
  from dimension_key_injective [OF k l l b] show ?thesis unfolding map_eq_conv .
qed

text \<open>With a separator inside a value two different cells share a key.\<close>

theorem dimension_key_collision:
  "get_dimension_key demo_cube (demo_tuple ''x|1|y'' ''z'' n) [1, 1] = get_dimension_key demo_cube (demo_tuple ''x'' ''y|1|z'' n) [1, 1]
   \<and> demo_tuple ''x|1|y'' ''z'' n \<noteq> demo_tuple ''x'' ''y|1|z'' n"
proof
  show "get_dimension_key demo_cube (demo_tuple ''x|1|y'' ''z'' n) [1, 1]
    = get_dimension_key demo_cube (demo_tuple ''x'' ''y|1|z'' n) [1, 1]"
    by (simp add: demo_key show_nat_1)
  show "demo_tuple ''x|1|y'' ''z'' n \<noteq> demo_tuple ''x'' ''y|1|z'' n"
    by (simp add: demo_tuple_def string_element_def empty_element_def)
qed

section \<open>Merging\<close>

lemma tuple_e_Inr [res_simps]: "tuple_e t i = Inr x \<longleftrightarrow> 0 \<le> i \<and> nat i < length (e t) \<and> x = e t ! nat i"
  by (auto simp: tuple_e_def res_simps)

lemma mutable_e_Inr [res_simps]:
  "mutable_e t i f = Inr t' \<longleftrightarrow> 0 \<le> i \<and> nat i < length (e t)
     \<and> (\<exists>y. f (e t ! nat i) = Inr y \<and> t' = t \<lparr>e := (e t)[nat i := y]\<rparr>)"
  by (auto simp: mutable_e_def res_simps)

lemma get_set_i_val [simp]: "get_i_val (set_i_val v x) = v"
  by (simp add: get_i_val_def set_i_val_def)

text \<open>What a tuple counts for: the value of its count field, one when it has none.\<close>

definition count_weight :: "int \<Rightarrow> Tuple \<Rightarrow> int" where
  "count_weight i t = (if i < int (length (e t)) then get_i_val (e t ! nat i) else 1)"

lemma merge_count_total:
  assumes "0 \<le> i" "nat i < length (e t)" "in_int (get_i_val (e t ! nat i) + count_weight i u)"
  shows "merge_count i t u = Inr (t \<lparr>e := (e t)[nat i := set_i_val (get_i_val (e t ! nat i) + count_weight i u) (e t ! nat i)]\<rparr>)"
  using assms by (auto simp: merge_count_def count_weight_def mutable_e_def tuple_e_def)

lemma merge_counts_fold:
  assumes "0 \<le> i" "nat i < length (e t)" "0 \<le> get_i_val (e t ! nat i)"
    and "\<forall>u \<in> set us. 0 \<le> count_weight i u"
    and "get_i_val (e t ! nat i) + (\<Sum>u \<leftarrow> us. count_weight i u) \<le> INT_MAX"
  shows "\<exists>t'. foldE (\<lambda>u t. merge_count i t u) us t = Inr t' \<and> length (e t') = length (e t)
     \<and> get_i_val (e t' ! nat i) = get_i_val (e t ! nat i) + (\<Sum>u \<leftarrow> us. count_weight i u)
     \<and> (\<forall>j. j \<noteq> nat i \<longrightarrow> e t' ! j = e t ! j)"
  using assms
proof (induction us arbitrary: t)
  case (Cons u us)
  let ?v = "get_i_val (e t ! nat i) + count_weight i u"
  let ?t = "t \<lparr>e := (e t)[nat i := set_i_val ?v (e t ! nat i)]\<rparr>"
  have nn: "0 \<le> (\<Sum>u \<leftarrow> us. count_weight i u)" using Cons.prems(4) by (intro sum_list_nonneg) auto
  then have "in_int ?v" using Cons.prems(3-5) by (auto simp: in_int_def INT_MIN_def)
  then have m: "merge_count i t u = Inr ?t" using merge_count_total Cons.prems(1,2) by blast
  have "\<exists>t'. foldE (\<lambda>u t. merge_count i t u) us ?t = Inr t' \<and> length (e t') = length (e ?t)
     \<and> get_i_val (e t' ! nat i) = get_i_val (e ?t ! nat i) + (\<Sum>u \<leftarrow> us. count_weight i u)
     \<and> (\<forall>j. j \<noteq> nat i \<longrightarrow> e t' ! j = e ?t ! j)"
    using Cons.prems nn by (intro Cons.IH) (auto simp: algebra_simps)
  then show ?case using m Cons.prems(2) by (auto simp: algebra_simps)
qed auto

text \<open>
  Merging a delta into the old value of a cell gives the new value back: what
  process_delta computes for a counting aggregate is the difference.
\<close>

theorem delta_restores:
  assumes "delta_count i newV oldV = Inr d" and "merge_count i oldV d = Inr m"
    and "nat i < length (e oldV)"
  shows "count_weight i m = count_weight i newV"
proof -
  have i: "0 \<le> i" using assms(2) by (auto simp: merge_count_def res_simps split: if_splits)
  have old: "int (length (e oldV)) - 1 \<ge> i" using i assms(3) by linarith
  obtain new_v t where t: "intE (new_v - get_i_val (e oldV ! nat i)) = Inr (new_v - get_i_val (e oldV ! nat i))"
      "mutable_e t i (\<lambda>x. Inr (set_i_val (new_v - get_i_val (e oldV ! nat i)) x)) = Inr d"
      "new_v = count_weight i newV" "nat i < length (e t)"
    using assms(1) old i
    by (auto simp: delta_count_def res_simps count_weight_def split: if_splits)
  have "count_weight i d = new_v - get_i_val (e oldV ! nat i)" "nat i < length (e d)"
    using t i by (auto simp: res_simps count_weight_def)
  then show ?thesis using assms(2) t(3) i assms(3)
    by (auto simp: merge_count_def res_simps count_weight_def split: if_splits)
qed

theorem delta_restores_witness:
  "count_weight 2 (demo_tuple ''a'' ''b'' 7) = count_weight 2 (demo_tuple ''a'' ''b'' 7)
   \<and> delta_count 2 (demo_tuple ''a'' ''b'' 7) (demo_tuple ''a'' ''b'' 5) = Inr (demo_tuple ''a'' ''b'' 2)
   \<and> merge_count 2 (demo_tuple ''a'' ''b'' 5) (demo_tuple ''a'' ''b'' 2) = Inr (demo_tuple ''a'' ''b'' 7)"
proof -
  have d: "delta_count 2 (demo_tuple ''a'' ''b'' 7) (demo_tuple ''a'' ''b'' 5) = Inr (demo_tuple ''a'' ''b'' 2)"
    by code_simp
  have m: "merge_count 2 (demo_tuple ''a'' ''b'' 5) (demo_tuple ''a'' ''b'' 2) = Inr (demo_tuple ''a'' ''b'' 7)"
    by code_simp
  show ?thesis using delta_restores [OF d m] d m by (simp add: demo_tuple_def)
qed

text \<open>
  The MySQL version aggregate resets the version of the tuple merged into before it takes the
  maximum, so that the version of the update replaces it, even a smaller one; the Masstree
  aggregate keeps the maximum.
\<close>

theorem mysql_version_not_maximal:
  "agg_merge_tuple_into env mysql_version_aggregate into update
     = Inr (into \<lparr>version := Some (get_version update)\<rparr>)
   \<and> (\<exists>t. agg_merge_tuple_into env mt_version_aggregate into update = Inr t
        \<and> get_version t = max (get_version into) (get_version update))"
  by (cases "get_version update = 0")
    (auto simp: agg_merge_tuple_into_def mysql_version_aggregate_def mt_version_aggregate_def make_full_tuple_def
      number_tuple_elements_def insert_default_values_def merge_full_tuple_into_def merge_version_def
      get_version_def word_gt_0 max_def)

end
