(* ===== verification/JS_Cube.thy ===== *)
theory JS_Cube
  imports JS_CubeImpl JS_Monitors
begin

text \<open>
  The cube proper (\<^verbatim>\<open>cube/cube.h\<close>, \<^verbatim>\<open>cube/cube.cc\<close>): tuples are dispatched by the hash of their
  dimension key to processors, each with a task queue and a thread that merges tuples into a
  batch, and a second thread that writes batches to the store and carries flush barriers.

  The virtual functions of a subscriber and of the storing subclass are arguments (\<^verbatim>\<open>SubOps\<close>,
  \<^verbatim>\<open>StoreOps\<close>).  A pointer to a chain is a number, a subscriber object an index into the heap
  of subscriber objects, a FlushInfo an index into the list of those created.
\<close>

section \<open>Subscribers\<close>

datatype Action = NO_SEND | SEND | SEND_NO_BATCH | SEND_UPDATE

record 'u SubOps =
  action_on_tuple :: "nat option \<Rightarrow> Tuple \<Rightarrow> 'u \<Rightarrow> Action \<times> 'u"
  sub_need_new :: "Tuple \<Rightarrow> 'u \<Rightarrow> bool"
  sub_need_old :: "Tuple \<Rightarrow> 'u \<Rightarrow> bool"
  insert_callback :: "Tuple \<Rightarrow> Tuple option \<Rightarrow> 'u \<Rightarrow> 'u"
  update_callback :: "Tuple \<Rightarrow> Tuple option \<Rightarrow> Tuple option \<Rightarrow> 'u \<Rightarrow> 'u"
  flush_callback :: "u32 \<Rightarrow> 'u \<Rightarrow> 'u"
  incoming_meta :: "nat \<Rightarrow> DataplaneMessage \<Rightarrow> u32 \<Rightarrow> 'u \<Rightarrow> u32 option \<times> 'u"

record 'u SubObj =
  so_has_cube :: bool
  so_state :: 'u

section \<open>State\<close>

record FlushInfo =
  fi_id :: u32
  fi_subsc :: nat
  fi_count :: u32

datatype ProcessThreadTask =
    TupleInsertion "nat option" Tuple DimensionKey "u32 list"
  | FlushTask nat

text \<open>What is posted to the flush thread, and where that thread is in \<^verbatim>\<open>do_check_flush\<close>.\<close>

datatype flush_post = DoBarrier nat | DoCheckFlush

datatype flush_phase = Idle | Checking | Flushing TupleBatch

record ProcessCallable =
  process_tasks :: "ProcessThreadTask list"
  tupleBatcher :: TupleBatch
  flush_posts :: "flush_post list"
  phase :: flush_phase

record ('u, 'b) DataCube =
  dc_impl :: DataCubeImpl
  cube_max_stage :: u32
  in_chain_count :: u32
  sub_heap :: "'u SubObj list"
  subscribers :: "(operator_id_t, nat) stdmap"
  current_levels :: "(nat, u32 list) stdmap"
  flushCongestMon :: QueueCongestionMonitor
  processCongestMon :: QueueCongestionMonitor
  processors :: "ProcessCallable list"
  flush_infos :: "FlushInfo list"
  store :: 'b

record 'b StoreOps =
  save_tuple :: "DataCubeImpl \<Rightarrow> Tuple \<Rightarrow> bool \<Rightarrow> bool \<Rightarrow> 'b \<Rightarrow> (Tuple option \<times> Tuple option \<times> 'b) res"
  save_tuple_batch :: "DataCubeImpl \<Rightarrow> Tuple list \<Rightarrow> u32 list list \<Rightarrow> bool list \<Rightarrow> bool list \<Rightarrow> 'b \<Rightarrow>
     (Tuple option list \<times> Tuple option list \<times> 'b) res"

definition new_ProcessCallable :: ProcessCallable where
  "new_ProcessCallable = \<lparr>process_tasks = [], tupleBatcher = new_TupleBatch, flush_posts = [], phase = Idle\<rparr>"

definition new_DataCube ::
  "DataCubeImpl \<Rightarrow> u32 \<Rightarrow> nat \<Rightarrow> QueueCongestionMonitor \<Rightarrow> QueueCongestionMonitor \<Rightarrow> 'b \<Rightarrow> ('u, 'b) DataCube" where
  "new_DataCube im max_stage threads fm pm st = \<lparr>dc_impl = im, cube_max_stage = max_stage, in_chain_count = 0,
     sub_heap = [], subscribers = [], current_levels = [], flushCongestMon = fm, processCongestMon = pm,
     processors = replicate threads new_ProcessCallable, flush_infos = [], store = st\<rparr>"

definition upd_proc :: "nat \<Rightarrow> (ProcessCallable \<Rightarrow> ProcessCallable) \<Rightarrow> ('u, 'b) DataCube \<Rightarrow> ('u, 'b) DataCube" where
  "upd_proc p f c = c \<lparr>processors := (processors c)[p := f (processors c ! p)]\<rparr>"

definition upd_sub :: "nat \<Rightarrow> ('u \<Rightarrow> 'u) \<Rightarrow> ('u, 'b) DataCube \<Rightarrow> ('u, 'b) DataCube" where
  "upd_sub i f c = c \<lparr>sub_heap := (sub_heap c)[i := (sub_heap c ! i) \<lparr>so_state := f (so_state (sub_heap c ! i))\<rparr>]\<rparr>"

section \<open>Dispatch\<close>

text \<open>A char is signed, the sum is unsigned; the loop ends at the first NUL.\<close>

definition char_word :: "char \<Rightarrow> u32" where
  "char_word ch = signed_take_bit 7 (of_nat (of_char ch))"

definition hash_step :: "char \<Rightarrow> u32 \<Rightarrow> u32" where
  "hash_step ch seed = xor seed (char_word ch + 0x9e3779b9 + push_bit 6 seed + drop_bit 2 seed)"

definition c_str :: "string \<Rightarrow> string" where
  "c_str s = takeWhile (\<lambda>ch. (of_char ch :: nat) \<noteq> 0) s"

definition fast_string_hash :: "string \<Rightarrow> u32" where
  "fast_string_hash s = fold hash_step (c_str s) 0"

definition assign :: "nat option \<Rightarrow> Tuple \<Rightarrow> DimensionKey \<Rightarrow> u32 list \<Rightarrow> ProcessCallable \<Rightarrow> ProcessCallable" where
  "assign chain t k levels pr = pr \<lparr>process_tasks := process_tasks pr @ [TupleInsertion chain t k levels]\<rparr>"

definition barrier :: "nat \<Rightarrow> ProcessCallable \<Rightarrow> ProcessCallable" where
  "barrier f pr = pr \<lparr>process_tasks := process_tasks pr @ [FlushTask f]\<rparr>"

definition chain_levels :: "nat option \<Rightarrow> ('u, 'b) DataCube \<Rightarrow> u32 list" where
  "chain_levels chain c = (case chain of None \<Rightarrow> get_leaf_levels (dc_impl c)
     | Some ch \<Rightarrow> (case map_find ch (current_levels c) of Some ls \<Rightarrow> ls | None \<Rightarrow> get_leaf_levels (dc_impl c)))"

definition cube_process :: "nat option \<Rightarrow> Tuple \<Rightarrow> ('u, 'b) DataCube \<Rightarrow> ('u, 'b) DataCube res" where
  "cube_process chain t c =
     (if cube_max_stage c < 1 then Inr c
      else let c1 = (if cube_max_stage c > 4 then c \<lparr>processCongestMon := q_report_insert 1 (processCongestMon c)\<rparr> else c);
               levels = chain_levels chain c1 in
        bindE (get_dimension_key (dc_impl c1) t levels) (\<lambda>k.
        let kh = unat (fast_string_hash k) in
        if cube_max_stage c1 < 2 then Inr c1
        else checkE (processors c1 \<noteq> []) OutOfBounds
          (Inr (upd_proc (kh mod length (processors c1)) (assign chain t k levels) c1))))"

definition set_current_levels :: "nat \<Rightarrow> u32 list \<Rightarrow> ('u, 'b) DataCube \<Rightarrow> ('u, 'b) DataCube" where
  "set_current_levels ch ls c = c \<lparr>current_levels := map_set ch ls (current_levels c)\<rparr>"

definition cube_flush :: "nat \<Rightarrow> ('u, 'b) DataCube \<Rightarrow> ('u, 'b) DataCube" where
  "cube_flush f c = c \<lparr>flush_infos := (flush_infos c)[f := (flush_infos c ! f) \<lparr>fi_count := of_nat (length (processors c))\<rparr>],
     processors := map (barrier f) (processors c)\<rparr>"

definition new_FlushInfo :: "u32 \<Rightarrow> nat \<Rightarrow> ('u, 'b) DataCube \<Rightarrow> nat \<times> ('u, 'b) DataCube" where
  "new_FlushInfo i sub c = (length (flush_infos c), c \<lparr>flush_infos := flush_infos c @ [\<lparr>fi_id = i, fi_subsc = sub, fi_count = 0\<rparr>]\<rparr>)"

definition cube_in_chains :: "('u, 'b) DataCube \<Rightarrow> u32" where
  "cube_in_chains c = in_chain_count c"

definition meta_to_sub :: "'u SubOps \<Rightarrow> nat \<Rightarrow> DataplaneMessage \<Rightarrow> nat \<Rightarrow> ('u, 'b) DataCube \<Rightarrow> ('u, 'b) DataCube res" where
  "meta_to_sub subs ch msg i c = bindE (nthE (sub_heap c) i) (\<lambda>so.
     let (f, u) = incoming_meta subs ch msg (cube_in_chains c) (so_state so);
         c1 = c \<lparr>sub_heap := (sub_heap c)[i := so \<lparr>so_state := u\<rparr>]\<rparr> in
     case f of None \<Rightarrow> Inr c1
     | Some n \<Rightarrow> (let (fi, c2) = new_FlushInfo n i c1 in Inr (cube_flush fi c2)))"

definition rollup_msg :: "nat option \<Rightarrow> DataplaneMessage \<Rightarrow> ('u, 'b) DataCube \<Rightarrow> ('u, 'b) DataCube res" where
  "rollup_msg chain msg c =
     (if dp_type msg \<noteq> ROLLUP_LEVELS then Inr c
      else case chain of None \<Rightarrow> Inr c
      | Some ch \<Rightarrow>
          if map_has ch (current_levels c) then Inr c
          else if rollup_levels msg = [] then Inr (set_current_levels ch (get_leaf_levels (dc_impl c)) c)
          else if length (rollup_levels msg) \<noteq> num_dimensions (dc_impl c) then Inl LogFatal
          else Inr (set_current_levels ch (map word_of_int (rollup_levels msg)) c))"

fun process_tuples :: "nat option \<Rightarrow> Tuple option list \<Rightarrow> ('u, 'b) DataCube \<Rightarrow> ('u, 'b) DataCube res" where
  "process_tuples chain [] c = Inr c"
| "process_tuples chain (None # ts) c = process_tuples chain ts c"
| "process_tuples chain (Some t # ts) c = bindE (cube_process chain t c) (process_tuples chain ts)"

definition cube_process_msg ::
  "'u SubOps \<Rightarrow> nat option \<Rightarrow> Tuple option list \<Rightarrow> DataplaneMessage \<Rightarrow> ('u, 'b) DataCube \<Rightarrow> ('u, 'b) DataCube res" where
  "cube_process_msg subs chain tuples msg c =
     bindE (process_tuples chain tuples c) (\<lambda>c1.
     bindE (if dp_type msg = DATA then Inr c1
            else case chain of None \<Rightarrow> Inl LogFatal
              | Some ch \<Rightarrow> foldE (\<lambda>(_, i). meta_to_sub subs ch msg i) (subscribers c1) c1) (\<lambda>c2.
     bindE (rollup_msg chain msg c2) (\<lambda>c3.
     Inr (if dp_type msg = NO_MORE_DATA
          then (case chain of Some ch \<Rightarrow> c3 \<lparr>current_levels := map_erase ch (current_levels c3)\<rparr> | None \<Rightarrow> c3)
          else c3))))"

text \<open>A chain tells the cube how many members it has and whether the cube is its head.\<close>

definition cube_add_chain :: "nat \<Rightarrow> nat \<Rightarrow> bool \<Rightarrow> ('u, 'b) DataCube \<Rightarrow> ('u, 'b) DataCube" where
  "cube_add_chain ch n_members head_is_cube c =
     (if n_members > 0 \<and> \<not> head_is_cube
      then set_current_levels ch (get_leaf_levels (dc_impl c)) (c \<lparr>in_chain_count := in_chain_count c + 1\<rparr>)
      else c)"

definition cube_chain_stopping ::
  "'u SubOps \<Rightarrow> nat \<Rightarrow> nat \<Rightarrow> bool \<Rightarrow> ('u, 'b) DataCube \<Rightarrow> ('u, 'b) DataCube res" where
  "cube_chain_stopping subs ch n_members head_is_cube c =
     checkE (n_members > 0) OutOfBounds
       (cube_process_msg subs (Some ch) [] (mk_msg NO_MORE_DATA)
         (if head_is_cube then c else c \<lparr>in_chain_count := in_chain_count c - 1\<rparr>))"

section \<open>Subscription\<close>

definition add_subscriber :: "operator_id_t \<Rightarrow> nat \<Rightarrow> ('u, 'b) DataCube \<Rightarrow> ('u, 'b) DataCube res" where
  "add_subscriber sid i c = bindE (nthE (sub_heap c) i) (\<lambda>so.
     if so_has_cube so then Inl LogFatal
     else Inr (c \<lparr>sub_heap := (sub_heap c)[i := so \<lparr>so_has_cube := True\<rparr>], subscribers := map_set sid i (subscribers c)\<rparr>))"

definition remove_subscriber :: "operator_id_t \<Rightarrow> ('u, 'b) DataCube \<Rightarrow> ('u, 'b) DataCube" where
  "remove_subscriber sid c = c \<lparr>subscribers := map_erase sid (subscribers c)\<rparr>"

definition callback_ids :: "(nat \<Rightarrow> ('u, 'b) DataCube \<Rightarrow> ('u, 'b) DataCube) \<Rightarrow> operator_id_t list \<Rightarrow> ('u, 'b) DataCube \<Rightarrow> ('u, 'b) DataCube" where
  "callback_ids f ids c = fold (\<lambda>sid c. case map_find sid (subscribers c) of Some i \<Rightarrow> f i c | None \<Rightarrow> c) ids c"

definition save_callback :: "'u SubOps \<Rightarrow> TupleProcessingInfo \<Rightarrow> Tuple option \<Rightarrow> Tuple option \<Rightarrow> ('u, 'b) DataCube \<Rightarrow> ('u, 'b) DataCube" where
  "save_callback subs tpi new_t old_t c =
     callback_ids (\<lambda>i. upd_sub i (update_callback subs (tpi_t tpi) new_t old_t)) (tpi_update tpi)
       (callback_ids (\<lambda>i. upd_sub i (insert_callback subs (tpi_t tpi) new_t)) (tpi_insert tpi) c)"

definition cube_ops :: "'u SubOps \<Rightarrow> 'b StoreOps \<Rightarrow> ('u, 'b) DataCube CubeOps" where
  "cube_ops subs st = \<lparr>
     cube_save_tuple = (\<lambda>t nn no c. bindE (save_tuple st (dc_impl c) t nn no (store c)) (\<lambda>(n, old, s). Inr (n, old, c \<lparr>store := s\<rparr>))),
     cube_save_tuple_batch = (\<lambda>ts ls nns nos c. bindE (save_tuple_batch st (dc_impl c) ts ls nns nos (store c)) (\<lambda>(ns, os, s). Inr (ns, os, c \<lparr>store := s\<rparr>))),
     cube_save_callback = (\<lambda>tpi n old c. Inr (save_callback subs tpi n old c))\<rparr>"

definition empty_dim_tuple :: "CubeSchema \<Rightarrow> Tuple" where
  "empty_dim_tuple s = \<lparr>e = replicate (length (dimensions s)) empty_element, version = None\<rparr>"

section \<open>Processing a tuple\<close>

text \<open>What one subscriber adds to the processing record; the flag is \<^verbatim>\<open>can_batch\<close>.\<close>

definition ask_subscriber ::
  "'u SubOps \<Rightarrow> nat option \<Rightarrow> Tuple \<Rightarrow> bool \<Rightarrow> operator_id_t \<times> nat \<Rightarrow>
   TupleProcessingInfo \<times> bool \<times> ('u, 'b) DataCube \<Rightarrow> (TupleProcessingInfo \<times> bool \<times> ('u, 'b) DataCube) res" where
  "ask_subscriber subs chain t in_batch it s = (case (it, s) of ((sid, i), (tpi, can_batch, c)) \<Rightarrow>
     bindE (nthE (sub_heap c) i) (\<lambda>so.
     let (act, u) = action_on_tuple subs chain t (so_state so);
         c1 = c \<lparr>sub_heap := (sub_heap c)[i := so \<lparr>so_state := u\<rparr>]\<rparr>;
         tpi1 = (if in_batch then tpi else tpi \<lparr>need_new_value := sub_need_new subs t u, need_old_value := sub_need_old subs t u\<rparr>)
     in Inr (case act of
         NO_SEND \<Rightarrow> (tpi1, can_batch, c1)
       | SEND \<Rightarrow> (if in_batch then tpi1 else tpi1 \<lparr>tpi_insert := tpi_insert tpi1 @ [sid]\<rparr>, can_batch, c1)
       | SEND_NO_BATCH \<Rightarrow> (if in_batch then tpi1 else tpi1 \<lparr>tpi_insert := tpi_insert tpi1 @ [sid]\<rparr>, False, c1)
       | SEND_UPDATE \<Rightarrow> (if in_batch then tpi1 else tpi1 \<lparr>tpi_update := tpi_update tpi1 @ [sid]\<rparr>, can_batch, c1))))"

text \<open>
  The record of a key that is in the batch already is the one in the vector: merging into its
  tuple changes the vector.
\<close>

definition fetch_tpi ::
  "agg_env \<Rightarrow> DataCubeImpl \<Rightarrow> Tuple \<Rightarrow> DimensionKey \<Rightarrow> u32 list \<Rightarrow> TupleBatch \<Rightarrow> (TupleProcessingInfo \<times> TupleBatch) res" where
  "fetch_tpi env im t k levels b =
     (if \<not> batch_contains k b then Inr (new_TupleProcessingInfo t k levels, b)
      else bindE (batch_get k b) (\<lambda>tpi.
        bindE (merge_tuple_into env im (tpi_t tpi) t) (\<lambda>t'.
        let tpi' = tpi \<lparr>tpi_t := t'\<rparr> in
        Inr (tpi', b \<lparr>tpi_store := (tpi_store b)[the (map_find k (lookup b)) := tpi']\<rparr>))))"

definition check_flush :: "ProcessCallable \<Rightarrow> ProcessCallable" where
  "check_flush pr = pr \<lparr>flush_posts := flush_posts pr @ [DoCheckFlush]\<rparr>"

definition do_process ::
  "agg_env \<Rightarrow> 'u SubOps \<Rightarrow> 'b StoreOps \<Rightarrow> nat \<Rightarrow> nat option \<Rightarrow> Tuple \<Rightarrow> DimensionKey \<Rightarrow> u32 list \<Rightarrow>
   ('u, 'b) DataCube \<Rightarrow> ('u, 'b) DataCube res" where
  "do_process env subs st p chain t k levels c =
     (if cube_max_stage c < 3 then Inr c
      else bindE (nthE (processors c) p) (\<lambda>pr.
        let in_batch = batch_contains k (tupleBatcher pr) in
        bindE (fetch_tpi env (dc_impl c) t k levels (tupleBatcher pr)) (\<lambda>(tpi0, b0).
        bindE (foldE (ask_subscriber subs chain t in_batch) (subscribers c) (tpi0, True, c)) (\<lambda>(tpi, can_batch, c1).
        bindE (batch_is_empty b0) (\<lambda>was_empty.
        bindE (if \<not> in_batch then insert_tuple (cube_ops subs st) tpi can_batch (b0, c1)
               else update_batched_tuple (cube_ops subs st) tpi can_batch (b0, c1)) (\<lambda>(b, c2).
        let c3 = (if \<not> in_batch \<and> can_batch then c2 \<lparr>flushCongestMon := q_report_insert 1 (flushCongestMon c2)\<rparr> else c2) in
        bindE (batch_is_empty b) (\<lambda>empty_now.
        let c4 = upd_proc p (\<lambda>pr. let pr1 = pr \<lparr>tupleBatcher := b\<rparr> in
                   if \<not> empty_now \<and> was_empty then check_flush pr1 else pr1) c3 in
        Inr (c4 \<lparr>processCongestMon := q_report_delete 1 (processCongestMon c4)\<rparr>))))))))"

section \<open>The threads of a processor\<close>

text \<open>
  One task of the process thread; \<^verbatim>\<open>dp\<close> is the virtual \<^verbatim>\<open>do_process\<close> of the cube.
\<close>

type_synonym ('u, 'b) do_process_fn =
  "nat \<Rightarrow> nat option \<Rightarrow> Tuple \<Rightarrow> DimensionKey \<Rightarrow> u32 list \<Rightarrow> ('u, 'b) DataCube \<Rightarrow> ('u, 'b) DataCube res"

definition barrier_to_flushqueue :: "nat \<Rightarrow> ProcessCallable \<Rightarrow> ProcessCallable" where
  "barrier_to_flushqueue f pr = pr \<lparr>flush_posts := flush_posts pr @ [DoBarrier f]\<rparr>"

definition run_process :: "('u, 'b) do_process_fn \<Rightarrow> nat \<Rightarrow> ('u, 'b) DataCube \<Rightarrow> ('u, 'b) DataCube res" where
  "run_process dp p c = bindE (nthE (processors c) p) (\<lambda>pr. case process_tasks pr of
       [] \<Rightarrow> Inr c
     | task # rest \<Rightarrow>
         (let c1 = upd_proc p (process_tasks_update (\<lambda>_. rest)) c in
          case task of TupleInsertion chain t k levels \<Rightarrow> dp p chain t k levels c1
          | FlushTask f \<Rightarrow> Inr (upd_proc p (barrier_to_flushqueue f) c1)))"

definition dec_and_get :: "FlushInfo \<Rightarrow> u32 \<times> FlushInfo" where
  "dec_and_get fi = (fi_count fi, fi \<lparr>fi_count := fi_count fi - 1\<rparr>)"

text \<open>The counter read before the decrement tells whether this barrier is the last.\<close>

definition is_last_barrier :: "FlushInfo \<Rightarrow> bool" where
  "is_last_barrier fi \<longleftrightarrow> fst (dec_and_get fi) = 1"

definition do_barrier :: "'u SubOps \<Rightarrow> nat \<Rightarrow> ('u, 'b) DataCube \<Rightarrow> ('u, 'b) DataCube res" where
  "do_barrier subs f c = bindE (nthE (flush_infos c) f) (\<lambda>fi.
     let c1 = c \<lparr>flush_infos := (flush_infos c)[f := snd (dec_and_get fi)]\<rparr> in
     Inr (if is_last_barrier fi then upd_sub (fi_subsc fi) (flush_callback subs (fi_id fi)) c1 else c1))"

text \<open>
  The flush thread: it takes a post when idle; in \<^verbatim>\<open>do_check_flush\<close> it swaps the batch out while
  there is one, writes it, and looks again.
\<close>

definition flush_post_step :: "'u SubOps \<Rightarrow> nat \<Rightarrow> ('u, 'b) DataCube \<Rightarrow> ('u, 'b) DataCube res" where
  "flush_post_step subs p c = bindE (nthE (processors c) p) (\<lambda>pr. case flush_posts pr of
       [] \<Rightarrow> Inr c
     | post # rest \<Rightarrow>
         (let c1 = upd_proc p (flush_posts_update (\<lambda>_. rest)) c in
          case post of DoBarrier f \<Rightarrow> do_barrier subs f c1
          | DoCheckFlush \<Rightarrow> Inr (upd_proc p (phase_update (\<lambda>_. Checking)) c1)))"

definition batcher_ready :: "ProcessCallable \<Rightarrow> bool res" where
  "batcher_ready pr = bindE (batch_is_empty (tupleBatcher pr)) (\<lambda>b. Inr (\<not> b))"

definition swap_batch :: "ProcessCallable \<Rightarrow> ProcessCallable" where
  "swap_batch pr = pr \<lparr>phase := Flushing (tupleBatcher pr), tupleBatcher := new_TupleBatch\<rparr>"

definition check_step :: "nat \<Rightarrow> ('u, 'b) DataCube \<Rightarrow> ('u, 'b) DataCube res" where
  "check_step p c = bindE (nthE (processors c) p) (\<lambda>pr.
     bindE (batcher_ready pr) (\<lambda>ready.
     Inr (upd_proc p (if ready then swap_batch else phase_update (\<lambda>_. Idle)) c)))"

definition write_step :: "'u SubOps \<Rightarrow> 'b StoreOps \<Rightarrow> nat \<Rightarrow> TupleBatch \<Rightarrow> ('u, 'b) DataCube \<Rightarrow> ('u, 'b) DataCube res" where
  "write_step subs st p tb c =
     bindE (batch_size tb) (\<lambda>n.
     bindE (batch_flush (cube_ops subs st) (tb, c)) (\<lambda>(_, c1).
     Inr (upd_proc p (phase_update (\<lambda>_. Checking))
       (c1 \<lparr>flushCongestMon := q_report_delete (of_nat n) (flushCongestMon c1)\<rparr>))))"

definition flush_step :: "'u SubOps \<Rightarrow> 'b StoreOps \<Rightarrow> nat \<Rightarrow> ('u, 'b) DataCube \<Rightarrow> ('u, 'b) DataCube res" where
  "flush_step subs st p c = bindE (nthE (processors c) p) (\<lambda>pr. case phase pr of
       Idle \<Rightarrow> flush_post_step subs p c
     | Checking \<Rightarrow> check_step p c
     | Flushing tb \<Rightarrow> write_step subs st p tb c)"

section \<open>Dispatch keeps the order of a key\<close>

definition task_key :: "ProcessThreadTask \<Rightarrow> DimensionKey option" where
  "task_key tk = (case tk of TupleInsertion _ _ k _ \<Rightarrow> Some k | FlushTask _ \<Rightarrow> None)"

definition queued :: "DimensionKey \<Rightarrow> ProcessCallable \<Rightarrow> Tuple list" where
  "queued k pr = concat (map (\<lambda>tk. case tk of TupleInsertion _ t k' _ \<Rightarrow> if k' = k then [t] else [] | _ \<Rightarrow> []) (process_tasks pr))"

lemma is_last_barrier_iff [simp]: "is_last_barrier fi \<longleftrightarrow> fi_count fi = 1"
  by (simp add: is_last_barrier_def dec_and_get_def)

lemma upd_proc_simps [simp]:
  "dc_impl (upd_proc p f c) = dc_impl c" "cube_max_stage (upd_proc p f c) = cube_max_stage c"
  "current_levels (upd_proc p f c) = current_levels c" "sub_heap (upd_proc p f c) = sub_heap c"
  "subscribers (upd_proc p f c) = subscribers c" "flush_infos (upd_proc p f c) = flush_infos c"
  "flushCongestMon (upd_proc p f c) = flushCongestMon c" "store (upd_proc p f c) = store c"
  "processCongestMon (upd_proc p f c) = processCongestMon c"
  "length (processors (upd_proc p f c)) = length (processors c)"
  by (simp_all add: upd_proc_def)

lemma upd_proc_nth:
  "p < length (processors c) \<Longrightarrow> processors (upd_proc p f c) ! q = (if q = p then f (processors c ! p) else processors c ! q)"
  by (auto simp: upd_proc_def)

definition home_proc :: "DimensionKey \<Rightarrow> ('u, 'b) DataCube \<Rightarrow> nat" where
  "home_proc k c = unat (fast_string_hash k) mod length (processors c)"

definition has_key :: "nat option \<Rightarrow> ('u, 'b) DataCube \<Rightarrow> DimensionKey \<Rightarrow> Tuple \<Rightarrow> bool" where
  "has_key chain c k t \<longleftrightarrow> get_dimension_key (dc_impl c) t (chain_levels chain c) = Inr k"

lemma cube_process_queued:
  assumes "cube_process chain t c = Inr c'" and "2 \<le> cube_max_stage c"
  shows "queued k (processors c' ! q) = queued k (processors c ! q) @ (if q = home_proc k c \<and> has_key chain c k t then [t] else [])"
    and "dc_impl c' = dc_impl c" and "current_levels c' = current_levels c" and "cube_max_stage c' = cube_max_stage c"
    and "length (processors c') = length (processors c)" and "processors c \<noteq> []"
proof -
  have st: "\<not> cube_max_stage c < 1" "\<not> cube_max_stage c < 2"
    using assms(2) by (auto simp: not_less word_le_nat_alt)
  define c1 where "c1 = (if cube_max_stage c > 4 then c \<lparr>processCongestMon := q_report_insert 1 (processCongestMon c)\<rparr> else c)"
  have c1: "dc_impl c1 = dc_impl c" "chain_levels chain c1 = chain_levels chain c" "processors c1 = processors c"
      "cube_max_stage c1 = cube_max_stage c" "current_levels c1 = current_levels c"
    by (auto simp: c1_def chain_levels_def split: option.splits)
  obtain k0 where k0: "get_dimension_key (dc_impl c) t (chain_levels chain c) = Inr k0" "processors c \<noteq> []"
      "c' = upd_proc (home_proc k0 c) (assign chain t k0 (chain_levels chain c)) c1"
    using assms(1) st c1 by (auto simp: cube_process_def c1_def [symmetric] Let_def res_simps home_proc_def)
  then have p: "home_proc k0 c < length (processors c)" by (simp add: home_proc_def)
  show "queued k (processors c' ! q) = queued k (processors c ! q) @ (if q = home_proc k c \<and> has_key chain c k t then [t] else [])"
    using k0 p c1 by (auto simp: upd_proc_nth queued_def assign_def has_key_def)
  show "dc_impl c' = dc_impl c" "current_levels c' = current_levels c" "cube_max_stage c' = cube_max_stage c"
    "length (processors c') = length (processors c)" "processors c \<noteq> []"
    using k0 c1 by auto
qed

text \<open>
  Property C5: all tuples of a cell go to one processor, and its queue holds them in the order in
  which they arrived.
\<close>

theorem dispatch_keeps_order:
  assumes "process_tuples chain (map Some ts) c = Inr c'" and "2 \<le> cube_max_stage c"
  shows "queued k (processors c' ! q) =
     queued k (processors c ! q) @ (if q = home_proc k c then filter (has_key chain c k) ts else [])"
  using assms
proof (induction ts arbitrary: c)
  case (Cons t ts)
  from Cons.prems(1) obtain c1 where c1: "cube_process chain t c = Inr c1" "process_tuples chain (map Some ts) c1 = Inr c'"
    by (auto simp: res_simps)
  note s = cube_process_queued [OF c1(1) Cons.prems(2)]
  have "2 \<le> cube_max_stage c1" using s(4) Cons.prems(2) by simp
  moreover have "home_proc k c1 = home_proc k c" using s(5) by (simp add: home_proc_def)
  moreover have "has_key chain c1 k = has_key chain c k"
    using s(2,3) by (simp add: has_key_def chain_levels_def fun_eq_iff split: option.splits)
  ultimately show ?case using Cons.IH [OF c1(2)] s(1) by auto
qed simp

definition idle_cube :: "nat \<Rightarrow> (unit, unit) DataCube" where
  "idle_cube n = new_DataCube demo_cube 5 n idle_queue idle_queue ()"

lemma idle_cube_simps:
  "dc_impl (idle_cube n) = demo_cube" "cube_max_stage (idle_cube n) = 5" "length (processors (idle_cube n)) = n"
  "current_levels (idle_cube n) = []"
  by (simp_all add: idle_cube_def new_DataCube_def)

lemma idle_processors: "processors (idle_cube n) = replicate n new_ProcessCallable"
  by (simp add: idle_cube_def new_DataCube_def)

theorem dispatch_keeps_order_witness:
  "\<exists>c'. process_tuples None (map Some [demo_tuple ''a'' ''b'' 1, demo_tuple ''x'' ''y'' 2, demo_tuple ''a'' ''b'' 3]) (idle_cube 2) = Inr c'
     \<and> queued ''a|1|b|1|'' (processors c' ! home_proc ''a|1|b|1|'' (idle_cube 2)) = [demo_tuple ''a'' ''b'' 1, demo_tuple ''a'' ''b'' 3]"
proof -
  let ?ts = "[demo_tuple ''a'' ''b'' 1, demo_tuple ''x'' ''y'' 2, demo_tuple ''a'' ''b'' 3]" and ?k = "''a|1|b|1|''"
  have lv: "get_leaf_levels demo_cube = [1, 1]" by (simp add: get_leaf_levels_def demo_cube_def leaf_level_def flat_leaf_level_def)
  have step: "\<exists>c'. cube_process None (demo_tuple a b n) c = Inr c' \<and> dc_impl c' = demo_cube \<and> cube_max_stage c' = 5 \<and> processors c' \<noteq> []"
    if "dc_impl c = demo_cube" "cube_max_stage c = 5" "processors c \<noteq> []" for a b n and c :: "(unit, unit) DataCube"
    using that lv by (simp add: cube_process_def chain_levels_def demo_key Let_def upd_proc_def)
  obtain c1 where 1: "cube_process None (demo_tuple ''a'' ''b'' 1) (idle_cube 2) = Inr c1"
      "dc_impl c1 = demo_cube" "cube_max_stage c1 = 5" "processors c1 \<noteq> []"
    using step [of "idle_cube 2" "''a''" "''b''" 1] by (auto simp: idle_cube_simps idle_processors)
  obtain c2 where 2: "cube_process None (demo_tuple ''x'' ''y'' 2) c1 = Inr c2"
      "dc_impl c2 = demo_cube" "cube_max_stage c2 = 5" "processors c2 \<noteq> []"
    using step [OF 1(2-4)] by blast
  obtain c' where "cube_process None (demo_tuple ''a'' ''b'' 3) c2 = Inr c'" using step [OF 2(2-4)] by blast
  then have c': "process_tuples None (map Some ?ts) (idle_cube 2) = Inr c'" using 1(1) 2(1) by simp
  have "has_key None (idle_cube 2) ?k (demo_tuple a b n) \<longleftrightarrow> take 254 a @ ''|1|'' @ take 254 b @ ''|1|'' = ?k" for a b n
    by (simp add: has_key_def chain_levels_def idle_cube_simps lv demo_key show_nat_1)
  then have f: "filter (has_key None (idle_cube 2) ?k) ?ts = [demo_tuple ''a'' ''b'' 1, demo_tuple ''a'' ''b'' 3]" by simp
  have "queued ?k (processors (idle_cube 2) ! home_proc ?k (idle_cube 2)) = []"
    by (simp add: idle_processors home_proc_def queued_def new_ProcessCallable_def)
  then show ?thesis
    using dispatch_keeps_order [OF c', of ?k "home_proc ?k (idle_cube 2)"] c' f by (simp add: idle_cube_simps)
qed

section \<open>Batching\<close>

text \<open>No subscriber asks for a write of its own.\<close>

definition batching :: "'u SubOps \<Rightarrow> bool" where
  "batching subs \<longleftrightarrow> (\<forall>chain t u. fst (action_on_tuple subs chain t u) \<noteq> SEND_NO_BATCH)"

definition subs_ok :: "('u, 'b) DataCube \<Rightarrow> bool" where
  "subs_ok c = list_all (\<lambda>(_, i). i < length (sub_heap c)) (subscribers c)"

definition same_cell :: "TupleProcessingInfo \<Rightarrow> TupleProcessingInfo \<Rightarrow> bool" where
  "same_cell a b \<longleftrightarrow> tpi_t a = tpi_t b \<and> tpi_key a = tpi_key b \<and> tpi_levels a = tpi_levels b"

lemma same_cell_refl [simp]: "same_cell a a"
  by (simp add: same_cell_def)

lemma ask_subscriber_batching:
  assumes "batching subs" and "i < length (sub_heap c)"
  shows "\<exists>tpi' h. ask_subscriber subs chain t ib (sid, i) (tpi, True, c) = Inr (tpi', True, c \<lparr>sub_heap := h\<rparr>)
     \<and> length h = length (sub_heap c) \<and> same_cell tpi' tpi \<and> (ib \<longrightarrow> tpi' = tpi)"
proof -
  obtain act u where a: "action_on_tuple subs chain t (so_state (sub_heap c ! i)) = (act, u)"
    by (cases "action_on_tuple subs chain t (so_state (sub_heap c ! i))")
  have "act \<noteq> SEND_NO_BATCH" using assms(1) a by (auto simp: batching_def dest: spec [of _ chain] spec [of _ t]) (metis fst_conv)
  then show ?thesis using assms(2) a
    by (cases act) (auto simp: ask_subscriber_def Let_def same_cell_def)
qed

lemma ask_subscribers_batching:
  assumes "batching subs" and "list_all (\<lambda>(_, i). i < length (sub_heap c)) its"
  shows "\<exists>tpi' h. foldE (ask_subscriber subs chain t ib) its (tpi, True, c) = Inr (tpi', True, c \<lparr>sub_heap := h\<rparr>)
     \<and> length h = length (sub_heap c) \<and> same_cell tpi' tpi \<and> (ib \<longrightarrow> tpi' = tpi)"
  using assms(2)
proof (induction its arbitrary: tpi c)
  case Nil
  have "c = c \<lparr>sub_heap := sub_heap c\<rparr>" by simp
  then show ?case by (metis foldE.simps(1) same_cell_refl)
next
  case (Cons it its)
  obtain sid i where it: "it = (sid, i)" by (cases it)
  obtain tpi1 h1 where 1: "ask_subscriber subs chain t ib (sid, i) (tpi, True, c) = Inr (tpi1, True, c \<lparr>sub_heap := h1\<rparr>)"
      "length h1 = length (sub_heap c)" "same_cell tpi1 tpi" "ib \<longrightarrow> tpi1 = tpi"
    using ask_subscriber_batching [OF assms(1), of i c chain t ib sid tpi] Cons.prems it by auto
  obtain tpi2 h2 where 2: "foldE (ask_subscriber subs chain t ib) its (tpi1, True, c \<lparr>sub_heap := h1\<rparr>)
        = Inr (tpi2, True, c \<lparr>sub_heap := h1\<rparr> \<lparr>sub_heap := h2\<rparr>)"
      "length h2 = length h1" "same_cell tpi2 tpi1" "ib \<longrightarrow> tpi2 = tpi1"
    using Cons.IH [of "c \<lparr>sub_heap := h1\<rparr>" tpi1] Cons.prems 1(2) by auto
  then show ?case using 1 it by (auto simp: same_cell_def)
qed

text \<open>The record a tuple ends up in, given what the batch holds for its key.\<close>

definition merged_cell :: "agg_env \<Rightarrow> DataCubeImpl \<Rightarrow> Tuple \<Rightarrow> TupleProcessingInfo option \<Rightarrow> Tuple res" where
  "merged_cell env im t cell = (case cell of None \<Rightarrow> Inr t | Some tpi \<Rightarrow> merge_tuple_into env im (tpi_t tpi) t)"

lemma fetch_tpi_clean:
  assumes "clean b" and "merged_cell env im t (map_find k (batch_abs b)) = Inr t'"
  shows "\<exists>tpi b0. fetch_tpi env im t k levels b = Inr (tpi, b0) \<and> clean b0 \<and> tpi_t tpi = t' \<and> tpi_key tpi = k
     \<and> batch_contains k b0 = batch_contains k b \<and> (batch_abs b0 = [] \<longleftrightarrow> batch_abs b = [])
     \<and> map_set k x (batch_abs b0) = map_set k x (batch_abs b)"
proof (cases "map_find k (lookup b)")
  case None
  then show ?thesis using assms
    by (simp add: fetch_tpi_def batch_contains_def map_has_def merged_cell_def batch_find new_TupleProcessingInfo_def)
next
  case (Some pos)
  let ?tpi = "(tpi_store b ! pos) \<lparr>tpi_t := t'\<rparr>"
  note cf = clean_find [OF assms(1) Some]
  have key: "tpi_key ?tpi = k" using cf(2) by simp
  obtain b' where b': "batch_set ?tpi pos b = Inr b'" "clean b'" "lookup b' = lookup b"
      "batch_abs b' = map_set k ?tpi (batch_abs b)"
    using batch_set_clean [OF assms(1), of ?tpi pos] Some key by auto
  have b'_eq: "b' = b \<lparr>tpi_store := (tpi_store b)[pos := ?tpi]\<rparr>"
    using b'(1,3) cf(1) by (cases b) (auto simp: batch_set_def)
  have "fetch_tpi env im t k levels b = Inr (?tpi, b')"
    using Some cf(1) assms(2)
    by (simp add: fetch_tpi_def batch_contains_def map_has_def batch_get_def merged_cell_def batch_find b'_eq Let_def)
  moreover have "batch_abs b \<noteq> []" using Some by (auto simp: batch_abs_def)
  ultimately show ?thesis using b' key by (auto simp: batch_contains_def map_set_set_same)
qed

lemma enter_batch:
  assumes "clean b0" and "batch_contains (tpi_key tpi) b0 = ib"
  shows "\<exists>b1. (if \<not> ib then insert_tuple ops tpi True (b0, c) else update_batched_tuple ops tpi True (b0, c)) = Inr (b1, c)
     \<and> clean b1 \<and> batch_abs b1 = map_set (tpi_key tpi) tpi (batch_abs b0)"
  using insert_tuple_abs [OF assms(1), of tpi ops c] update_batched_tuple_abs [OF assms(1), of tpi ops c] assms(2)
  by (cases ib) simp_all

lemma do_process_clean:
  assumes "\<not> cube_max_stage c < 3" and "p < length (processors c)" and "clean (tupleBatcher (processors c ! p))"
    and "subs_ok c" and "batching subs"
    and "merged_cell env (dc_impl c) t (map_find k (batch_abs (tupleBatcher (processors c ! p)))) = Inr t'"
  shows "\<exists>b h fm pm tpi. do_process env subs st p chain t k levels c = Inr (c \<lparr>sub_heap := h, flushCongestMon := fm, processCongestMon := pm,
       processors := (processors c)[p := (processors c ! p) \<lparr>tupleBatcher := b,
         flush_posts := flush_posts (processors c ! p) @ (if batch_abs (tupleBatcher (processors c ! p)) = [] then [DoCheckFlush] else [])\<rparr>]\<rparr>)
     \<and> clean b \<and> batch_abs b = map_set k tpi (batch_abs (tupleBatcher (processors c ! p))) \<and> tpi_t tpi = t' \<and> tpi_key tpi = k
     \<and> length h = length (sub_heap c)
     \<and> fm = (if map_has k (batch_abs (tupleBatcher (processors c ! p))) then flushCongestMon c else q_report_insert 1 (flushCongestMon c))
     \<and> pm = q_report_delete 1 (processCongestMon c)"
proof -
  let ?pr = "processors c ! p" and ?b = "tupleBatcher (processors c ! p)"
  let ?ib = "batch_contains k ?b"
  obtain tpi0 b0 where f: "fetch_tpi env (dc_impl c) t k levels ?b = Inr (tpi0, b0)" "clean b0" "tpi_t tpi0 = t'" "tpi_key tpi0 = k"
      "batch_contains k b0 = ?ib" "batch_abs b0 = [] \<longleftrightarrow> batch_abs ?b = []"
    using fetch_tpi_clean [OF assms(3,6)] by blast
  have f': "map_set k x (batch_abs b0) = map_set k x (batch_abs ?b)" for x
    using fetch_tpi_clean [OF assms(3,6), of levels x] f(1) by auto
  obtain tpi h where a: "foldE (ask_subscriber subs chain t ?ib) (subscribers c) (tpi0, True, c) = Inr (tpi, True, c \<lparr>sub_heap := h\<rparr>)"
      "length h = length (sub_heap c)" "same_cell tpi tpi0"
    using ask_subscribers_batching [OF assms(5), of c "subscribers c" chain t ?ib tpi0] assms(4) by (auto simp: subs_ok_def)
  have key: "tpi_key tpi = k" "tpi_t tpi = t'" using a(3) f(3,4) by (auto simp: same_cell_def)
  obtain b1 where b1: "(if \<not> ?ib then insert_tuple (cube_ops subs st) tpi True (b0, c \<lparr>sub_heap := h\<rparr>)
        else update_batched_tuple (cube_ops subs st) tpi True (b0, c \<lparr>sub_heap := h\<rparr>)) = Inr (b1, c \<lparr>sub_heap := h\<rparr>)"
      "clean b1" "batch_abs b1 = map_set k tpi (batch_abs ?b)"
    using enter_batch [OF f(2), of tpi ?ib] f(5) key f' by metis
  have e0: "batch_is_empty b0 = Inr (batch_abs ?b = [])" using batch_is_empty_abs [OF f(2)] f(6) by simp
  have e1: "batch_is_empty b1 = Inr False" using batch_is_empty_abs [OF b1(2)] b1(3) by simp
  let ?fm = "if map_has k (batch_abs ?b) then flushCongestMon c else q_report_insert 1 (flushCongestMon c)"
  let ?pr' = "?pr \<lparr>tupleBatcher := b1, flush_posts := flush_posts ?pr @ (if batch_abs ?b = [] then [DoCheckFlush] else [])\<rparr>"
  have "do_process env subs st p chain t k levels c
    = Inr (upd_proc p (\<lambda>_. ?pr') (c \<lparr>sub_heap := h, flushCongestMon := ?fm\<rparr>)
        \<lparr>processCongestMon := q_report_delete 1 (processCongestMon c)\<rparr>)"
    using assms(1,2) f(1) a(1) b1(1) e0 e1
    by (simp add: do_process_def Let_def check_flush_def batch_contains_abs upd_proc_def)
  also have "\<dots> = Inr (c \<lparr>sub_heap := h, flushCongestMon := ?fm, processCongestMon := q_report_delete 1 (processCongestMon c),
       processors := (processors c)[p := ?pr']\<rparr>)"
    by (cases c) (simp add: upd_proc_def)
  finally show ?thesis using b1(2,3) key a(2) by blast
qed

text \<open>The reference for a cell: its tuples are merged one after the other.\<close>

fun accumulate :: "agg_env \<Rightarrow> DataCubeImpl \<Rightarrow> Tuple option \<Rightarrow> Tuple list \<Rightarrow> Tuple option res" where
  "accumulate env im cell [] = Inr cell"
| "accumulate env im cell (t # ts) =
     bindE (case cell of None \<Rightarrow> Inr t | Some x \<Rightarrow> merge_tuple_into env im x t) (\<lambda>x. accumulate env im (Some x) ts)"

definition cell_tuple :: "nat \<Rightarrow> DimensionKey \<Rightarrow> ('u, 'b) DataCube \<Rightarrow> Tuple option" where
  "cell_tuple p k c = map_option tpi_t (map_find k (batch_abs (tupleBatcher (processors c ! p))))"

type_synonym insertion = "nat option \<times> Tuple \<times> DimensionKey \<times> u32 list"

definition insert_all :: "agg_env \<Rightarrow> 'u SubOps \<Rightarrow> 'b StoreOps \<Rightarrow> nat \<Rightarrow> insertion list \<Rightarrow> ('u, 'b) DataCube \<Rightarrow> ('u, 'b) DataCube res" where
  "insert_all env subs st p ins c = foldE (\<lambda>(chain, t, k, levels). do_process env subs st p chain t k levels) ins c"

definition tuples_of :: "DimensionKey \<Rightarrow> insertion list \<Rightarrow> Tuple list" where
  "tuples_of k ins = concat (map (\<lambda>(_, t, k', _). if k' = k then [t] else []) ins)"


definition demo_env :: agg_env where
  "demo_env = \<lparr>merge_histo = merge_summary histogram_ops, merge_sample = (\<lambda>_ _. Inl AssertFail), merge_sketch = (\<lambda>_ _. Inl AssertFail)\<rparr>"

definition demo_subs :: "unit SubOps" where
  "demo_subs = \<lparr>action_on_tuple = (\<lambda>_ _ u. (SEND, u)), sub_need_new = (\<lambda>_ _. True), sub_need_old = (\<lambda>_ _. False),
     insert_callback = (\<lambda>_ _ u. u), update_callback = (\<lambda>_ _ _ u. u), flush_callback = (\<lambda>_ u. u),
     incoming_meta = (\<lambda>_ _ _ u. (None, u))\<rparr>"

definition demo_store :: "unit StoreOps" where
  "demo_store = \<lparr>save_tuple = (\<lambda>_ t _ _ s. Inr (Some t, None, s)),
     save_tuple_batch = (\<lambda>_ ts _ _ _ s. Inr (map Some ts, map (\<lambda>_. None) ts, s))\<rparr>"

lemma demo_batching: "batching demo_subs"
  by (simp add: batching_def demo_subs_def)

definition demo_ins :: "insertion list" where
  "demo_ins = [(None, demo_tuple ''a'' ''b'' 1, ''a|1|b|1|'', [1, 1]), (None, demo_tuple ''a'' ''b'' 3, ''a|1|b|1|'', [1, 1])]"


text \<open>
  A write of a batched cell on its own frees the cell's position but leaves the key in the map:
  the next such write frees the same position again, and the size of the batch trips an assertion.
\<close>

theorem unbatched_twice_asserts:
  assumes "clean b" and "length (tpi_store b) = 1" and "batch_contains (tpi_key tpi) b"
    and "update_batched_tuple ops tpi False (b, c) = Inr (b1, c1)"
    and "update_batched_tuple ops tpi' False (b1, c1) = Inr (b2, c2)"
  shows "batch_is_empty b1 = Inr True \<and> batch_is_empty b2 = Inl AssertFail"
proof -
  obtain pos where pos: "map_find (tpi_key tpi) (lookup b) = Some pos"
    using assms(3) by (auto simp: batch_contains_def map_has_def)
  have b1: "tpi_store b1 = tpi_store b" "length (holes b1) = 1"
    using assms(1,4) pos by (auto simp: update_batched_tuple_def map_index_def remove_tuple_def clean_def res_simps split: prod.splits)
  moreover have "tpi_store b2 = tpi_store b1" "length (holes b2) = Suc (length (holes b1))"
    using assms(5) by (auto simp: update_batched_tuple_def remove_tuple_def res_simps split: prod.splits)
  ultimately show ?thesis using assms(2) by (simp add: batch_is_empty_def batch_size_def)
qed

end
