(* ===== verification/JS_CubeThreads.thy ===== *)
theory JS_CubeThreads
  imports JS_Cube
begin

text \<open>
  The threads of a cube as a labelled transition system: tuples are accepted, flushes are
  requested, and every processor's two threads take their steps, in any interleaving.  The
  invariants give the guarantee flushes rest on: when a subscriber's flush callback runs, every
  tuple that was merged ahead of the barrier has been written, and the callback runs once.
\<close>

section \<open>Steps\<close>

datatype clabel =
    LAccept | LEnv | LReq nat | LIns nat DimensionKey | LPost nat nat | LBar nat nat bool
  | LStart nat | LCheck nat | LWrite nat "DimensionKey list"

definition batch_keys :: "TupleBatch \<Rightarrow> DimensionKey list" where
  "batch_keys b = map fst (lookup b)"

definition same_threads :: "('u, 'b) DataCube \<Rightarrow> ('u, 'b) DataCube \<Rightarrow> bool" where
  "same_threads c c' \<longleftrightarrow> processors c' = processors c \<and> flush_infos c' = flush_infos c
     \<and> cube_max_stage c' = cube_max_stage c"

text \<open>
  The environment step stands for everything that leaves the threads alone: subscriptions,
  rollup levels, chains starting and stopping, what subscribers do on their own.
\<close>

inductive cube_step ::
  "agg_env \<Rightarrow> 'u SubOps \<Rightarrow> 'b StoreOps \<Rightarrow> ('u, 'b) DataCube \<Rightarrow> clabel \<Rightarrow> ('u, 'b) DataCube \<Rightarrow> bool"
  for env subs st where
  Accept: "cube_process chain t c = Inr c' \<Longrightarrow> cube_step env subs st c LAccept c'"
| Env: "same_threads c c' \<Longrightarrow> subs_ok c' \<Longrightarrow> cube_step env subs st c LEnv c'"
| Req: "new_FlushInfo i sub c = (f, c1) \<Longrightarrow> cube_step env subs st c (LReq f) (cube_flush f c1)"
| Ins: "p < length (processors c) \<Longrightarrow> process_tasks (processors c ! p) = TupleInsertion chain t k levels # rest \<Longrightarrow>
    run_process (do_process env subs st) p c = Inr c' \<Longrightarrow> cube_step env subs st c (LIns p k) c'"
| Post: "p < length (processors c) \<Longrightarrow> process_tasks (processors c ! p) = FlushTask f # rest \<Longrightarrow>
    run_process (do_process env subs st) p c = Inr c' \<Longrightarrow> cube_step env subs st c (LPost p f) c'"
| Bar: "p < length (processors c) \<Longrightarrow> phase (processors c ! p) = Idle \<Longrightarrow> flush_posts (processors c ! p) = DoBarrier f # rest \<Longrightarrow>
    flush_step subs st p c = Inr c' \<Longrightarrow> cube_step env subs st c (LBar p f (is_last_barrier (flush_infos c ! f))) c'"
| Start: "p < length (processors c) \<Longrightarrow> phase (processors c ! p) = Idle \<Longrightarrow> flush_posts (processors c ! p) = DoCheckFlush # rest \<Longrightarrow>
    flush_step subs st p c = Inr c' \<Longrightarrow> cube_step env subs st c (LStart p) c'"
| Check: "p < length (processors c) \<Longrightarrow> phase (processors c ! p) = Checking \<Longrightarrow>
    flush_step subs st p c = Inr c' \<Longrightarrow> cube_step env subs st c (LCheck p) c'"
| Write: "p < length (processors c) \<Longrightarrow> phase (processors c ! p) = Flushing tb \<Longrightarrow>
    flush_step subs st p c = Inr c' \<Longrightarrow> cube_step env subs st c (LWrite p (batch_keys tb)) c'"

inductive cube_run ::
  "agg_env \<Rightarrow> 'u SubOps \<Rightarrow> 'b StoreOps \<Rightarrow> ('u, 'b) DataCube \<Rightarrow> clabel list \<Rightarrow> ('u, 'b) DataCube \<Rightarrow> bool"
  for env subs st where
  Stop: "cube_run env subs st c [] c"
| Step: "cube_step env subs st c l c1 \<Longrightarrow> cube_run env subs st c1 ls c' \<Longrightarrow> cube_run env subs st c (l # ls) c'"

inductive_simps run_Cons: "cube_run env subs st c (l # ls) c'"
inductive_simps run_Nil: "cube_run env subs st c [] c'"

lemma cube_run_append:
  "cube_run env subs st c (xs @ ys) c' \<longleftrightarrow> (\<exists>c1. cube_run env subs st c xs c1 \<and> cube_run env subs st c1 ys c')"
proof (induction xs arbitrary: c)
  case Nil
  show ?case by (auto simp: run_Nil)
next
  case (Cons x xs)
  show ?case by (auto simp: run_Cons Cons.IH)
qed

section \<open>What a write leaves alone\<close>

definition write_frame :: "('u, 'b) DataCube \<Rightarrow> ('u, 'b) DataCube \<Rightarrow> bool" where
  "write_frame c c' \<longleftrightarrow> same_threads c c' \<and> subscribers c' = subscribers c \<and> length (sub_heap c') = length (sub_heap c)"

lemma write_frame_refl [simp]: "write_frame c c"
  by (simp add: write_frame_def same_threads_def)

lemma write_frame_trans: "write_frame a b \<Longrightarrow> write_frame b c \<Longrightarrow> write_frame a c"
  by (simp add: write_frame_def same_threads_def)

lemma upd_sub_frame [simp]: "write_frame c (upd_sub i f c)"
  by (simp add: write_frame_def same_threads_def upd_sub_def)

lemma callback_ids_frame: "(\<And>i c. write_frame c (f i c)) \<Longrightarrow> write_frame c (callback_ids f ids c)"
proof (induction ids arbitrary: c)
  case (Cons sid ids)
  have "write_frame c (case map_find sid (subscribers c) of Some i \<Rightarrow> f i c | None \<Rightarrow> c)"
    using Cons.prems by (auto split: option.splits)
  then show ?case using Cons by (auto simp: callback_ids_def intro: write_frame_trans)
qed (simp add: callback_ids_def)

lemma save_callback_frame: "write_frame c (save_callback subs tpi n old c)"
  unfolding save_callback_def by (rule write_frame_trans [OF callback_ids_frame callback_ids_frame]) simp_all

lemma callback_loop_frame:
  "callback_loop (cube_ops subs st) tpis ns os c = Inr c' \<Longrightarrow> write_frame c c'"
proof (induction "cube_ops subs st" tpis ns os c rule: callback_loop.induct)
  case (2 tpi tpis n ns old os c)
  then show ?case by (auto simp: cube_ops_def intro: write_frame_trans [OF save_callback_frame])
qed auto

lemma flush_chunk_frame: "flush_chunk (cube_ops subs st) tpis ps c = Inr c' \<Longrightarrow> write_frame c c'"
proof -
  assume "flush_chunk (cube_ops subs st) tpis ps c = Inr c'"
  then obtain s ns os tps where "callback_loop (cube_ops subs st) tps ns os (c \<lparr>store := s\<rparr>) = Inr c'"
    by (auto simp: flush_chunk_def cube_ops_def res_simps split: prod.splits)
  then have "write_frame (c \<lparr>store := s\<rparr>) c'" by (rule callback_loop_frame)
  then show ?thesis by (simp add: write_frame_def same_threads_def)
qed

lemma flush_loop_frame: "flush_loop (cube_ops subs st) tpis ps c = Inr c' \<Longrightarrow> write_frame c c'"
proof (induction "cube_ops subs st" tpis ps c rule: flush_loop.induct)
  case (2 tpis p ps c)
  then show ?case by (auto simp: res_simps intro: write_frame_trans [OF flush_chunk_frame])
qed auto

lemma write_step_frame:
  assumes "write_step subs st p tb c = Inr c'" and "p < length (processors c)"
  shows "processors c' = (processors c)[p := (processors c ! p) \<lparr>phase := Checking\<rparr>] \<and> flush_infos c' = flush_infos c
     \<and> cube_max_stage c' = cube_max_stage c \<and> subscribers c' = subscribers c \<and> length (sub_heap c') = length (sub_heap c)"
proof -
  obtain c1 n where "write_frame c c1" "c' = upd_proc p (phase_update (\<lambda>_. Checking))
       (c1 \<lparr>flushCongestMon := q_report_delete (of_nat n) (flushCongestMon c1)\<rparr>)"
    using assms(1) flush_loop_frame by (fastforce simp: write_step_def batch_flush_def res_simps split: prod.splits)
  then show ?thesis by (simp add: write_frame_def same_threads_def upd_proc_def)
qed

section \<open>The threads without the data\<close>

text \<open>
  The abstract machine keeps of a processor which tasks are flushes, which keys are batched and
  being written, and what is posted to the flush thread; of a flush it keeps the counter.
\<close>

datatype aphase = AIdle | AChecking | AFlushing "DimensionKey set"

record aproc =
  a_tasks :: "nat option list"
  a_keys :: "DimensionKey set"
  a_posts :: "flush_post list"
  a_phase :: aphase

type_synonym astate = "aproc list \<times> u32 list"

inductive astep :: "astate \<Rightarrow> clabel \<Rightarrow> astate \<Rightarrow> bool" where
  AAccept: "p < length ps \<Longrightarrow> astep (ps, cs) LAccept (ps[p := (ps ! p) \<lparr>a_tasks := a_tasks (ps ! p) @ [None]\<rparr>], cs)"
| AEnv: "astep s LEnv s"
| AReq: "astep (ps, cs) (LReq (length cs))
    (map (\<lambda>a. a \<lparr>a_tasks := a_tasks a @ [Some (length cs)]\<rparr>) ps, cs @ [of_nat (length ps)])"
| AIns: "p < length ps \<Longrightarrow> a_tasks (ps ! p) = None # rest \<Longrightarrow>
    astep (ps, cs) (LIns p k) (ps[p := (ps ! p) \<lparr>a_tasks := rest, a_keys := insert k (a_keys (ps ! p)),
      a_posts := a_posts (ps ! p) @ (if a_keys (ps ! p) = {} then [DoCheckFlush] else [])\<rparr>], cs)"
| APost: "p < length ps \<Longrightarrow> a_tasks (ps ! p) = Some f # rest \<Longrightarrow>
    astep (ps, cs) (LPost p f) (ps[p := (ps ! p) \<lparr>a_tasks := rest, a_posts := a_posts (ps ! p) @ [DoBarrier f]\<rparr>], cs)"
| ABar: "p < length ps \<Longrightarrow> a_phase (ps ! p) = AIdle \<Longrightarrow> a_posts (ps ! p) = DoBarrier f # rest \<Longrightarrow> f < length cs \<Longrightarrow>
    astep (ps, cs) (LBar p f (cs ! f = 1)) (ps[p := (ps ! p) \<lparr>a_posts := rest\<rparr>], cs[f := cs ! f - 1])"
| AStart: "p < length ps \<Longrightarrow> a_phase (ps ! p) = AIdle \<Longrightarrow> a_posts (ps ! p) = DoCheckFlush # rest \<Longrightarrow>
    astep (ps, cs) (LStart p) (ps[p := (ps ! p) \<lparr>a_posts := rest, a_phase := AChecking\<rparr>], cs)"
| ACheck: "p < length ps \<Longrightarrow> a_phase (ps ! p) = AChecking \<Longrightarrow>
    astep (ps, cs) (LCheck p) (ps[p := (ps ! p) \<lparr>a_phase := if a_keys (ps ! p) = {} then AIdle else AFlushing (a_keys (ps ! p)),
      a_keys := {}\<rparr>], cs)"
| AWrite: "p < length ps \<Longrightarrow> a_phase (ps ! p) = AFlushing K \<Longrightarrow> set ks = K \<Longrightarrow>
    astep (ps, cs) (LWrite p ks) (ps[p := (ps ! p) \<lparr>a_phase := AChecking\<rparr>], cs)"

definition abs_task :: "ProcessThreadTask \<Rightarrow> nat option" where
  "abs_task tk = (case tk of TupleInsertion _ _ _ _ \<Rightarrow> None | FlushTask f \<Rightarrow> Some f)"

definition abs_phase :: "flush_phase \<Rightarrow> aphase" where
  "abs_phase ph = (case ph of Idle \<Rightarrow> AIdle | Checking \<Rightarrow> AChecking | Flushing tb \<Rightarrow> AFlushing (set (batch_keys tb)))"

definition abs_proc :: "ProcessCallable \<Rightarrow> aproc" where
  "abs_proc pr = \<lparr>a_tasks = map abs_task (process_tasks pr), a_keys = set (batch_keys (tupleBatcher pr)),
     a_posts = flush_posts pr, a_phase = abs_phase (phase pr)\<rparr>"

definition abs_cube :: "('u, 'b) DataCube \<Rightarrow> astate" where
  "abs_cube c = (map abs_proc (processors c), map fi_count (flush_infos c))"

definition threads_ok :: "('u, 'b) DataCube \<Rightarrow> bool" where
  "threads_ok c \<longleftrightarrow> \<not> cube_max_stage c < 3 \<and> subs_ok c \<and> (\<forall>pr \<in> set (processors c). clean (tupleBatcher pr))"

lemma threads_ok_update:
  assumes "threads_ok c" and "processors c' = (processors c)[p := pr]" and "clean (tupleBatcher pr)"
    and "cube_max_stage c' = cube_max_stage c" "subscribers c' = subscribers c" "length (sub_heap c') = length (sub_heap c)"
  shows "threads_ok c'"
  using assms by (auto simp: threads_ok_def subs_ok_def dest!: in_set_update)

lemma threads_ok_clean: "threads_ok c \<Longrightarrow> p < length (processors c) \<Longrightarrow> clean (tupleBatcher (processors c ! p))"
  by (simp add: threads_ok_def)

lemma clean_keys_empty: "batch_keys b = [] \<longleftrightarrow> batch_abs b = []"
  by (simp add: batch_keys_def batch_abs_def)

lemma batch_keys_abs: "set (batch_keys b) = fst ` set (batch_abs b)"
  by (auto simp: batch_keys_def batch_abs_def) force+

lemma abs_cube_update:
  "processors c' = (processors c)[p := pr] \<Longrightarrow> flush_infos c' = flush_infos c \<Longrightarrow>
   abs_cube c' = ((map abs_proc (processors c))[p := abs_proc pr], map fi_count (flush_infos c))"
  by (simp add: abs_cube_def map_update)

section \<open>Simulation\<close>

text \<open>A tuple that was merged without an error is merged as \<^verbatim>\<open>do_process_clean\<close> says.\<close>

lemma do_process_merged:
  assumes "do_process env subs st p chain t k levels c = Inr c'" and "\<not> cube_max_stage c < 3"
    and "p < length (processors c)" and "clean (tupleBatcher (processors c ! p))"
  shows "\<exists>t'. merged_cell env (dc_impl c) t (map_find k (batch_abs (tupleBatcher (processors c ! p)))) = Inr t'"
proof (cases "map_find k (lookup (tupleBatcher (processors c ! p)))")
  case (Some pos)
  then show ?thesis using assms clean_find(1) [OF assms(4) Some]
    by (auto simp: do_process_def fetch_tpi_def batch_contains_def map_has_def batch_get_def merged_cell_def batch_find
        res_simps Let_def split: prod.splits)
qed (simp add: merged_cell_def batch_find)

lemma sim_insert:
  assumes "threads_ok c" and "batching subs" and "p < length (processors c)"
    and "process_tasks (processors c ! p) = TupleInsertion chain t k levels # rest"
    and "run_process (do_process env subs st) p c = Inr c'"
  shows "threads_ok c' \<and> astep (abs_cube c) (LIns p k) (abs_cube c')"
proof -
  let ?c = "upd_proc p (process_tasks_update (\<lambda>_. rest)) c"
  let ?pr = "processors ?c ! p" and ?b = "tupleBatcher (processors c ! p)"
  have b: "tupleBatcher ?pr = ?b" "flush_posts ?pr = flush_posts (processors c ! p)" "phase ?pr = phase (processors c ! p)"
      "process_tasks ?pr = rest" using assms(3) by (simp_all add: upd_proc_nth)
  have ok: "\<not> cube_max_stage ?c < 3" "p < length (processors ?c)" "clean (tupleBatcher ?pr)" "subs_ok ?c"
    using assms(1,3) threads_ok_clean [OF assms(1,3)] b(1) by (auto simp: threads_ok_def subs_ok_def)
  have dp: "do_process env subs st p chain t k levels ?c = Inr c'"
    using assms(3-5) by (simp add: run_process_def Let_def)
  obtain t' where "merged_cell env (dc_impl ?c) t (map_find k (batch_abs (tupleBatcher ?pr))) = Inr t'"
    using do_process_merged [OF dp ok(1-3)] by blast
  then obtain b1 tpi where r: "processors c' = (processors ?c)[p := ?pr \<lparr>tupleBatcher := b1,
         flush_posts := flush_posts ?pr @ (if batch_abs ?b = [] then [DoCheckFlush] else [])\<rparr>]"
      "clean b1" "batch_abs b1 = map_set k tpi (batch_abs ?b)" "flush_infos c' = flush_infos c"
      "cube_max_stage c' = cube_max_stage c" "subscribers c' = subscribers c" "length (sub_heap c') = length (sub_heap c)"
    using do_process_clean [OF ok assms(2), of env t k t' st chain levels] dp b(1) by auto
  let ?pr' = "?pr \<lparr>tupleBatcher := b1, flush_posts := flush_posts ?pr @ (if batch_abs ?b = [] then [DoCheckFlush] else [])\<rparr>"
  have procs: "processors c' = (processors c)[p := ?pr']" using r(1) by (simp add: upd_proc_def)
  have "set (batch_keys b1) = insert k (set (batch_keys ?b))" using r(3) by (simp add: batch_keys_abs)
  moreover have "set (batch_keys ?b) = {} \<longleftrightarrow> batch_abs ?b = []" by (simp add: batch_keys_abs)
  ultimately have "abs_proc ?pr' = (abs_proc (processors c ! p)) \<lparr>a_tasks := map abs_task rest,
      a_keys := insert k (a_keys (abs_proc (processors c ! p))),
      a_posts := a_posts (abs_proc (processors c ! p)) @ (if a_keys (abs_proc (processors c ! p)) = {} then [DoCheckFlush] else [])\<rparr>"
    using b by (simp add: abs_proc_def)
  moreover have "a_tasks (abs_proc (processors c ! p)) = None # map abs_task rest"
    using assms(4) by (simp add: abs_proc_def abs_task_def)
  ultimately have "astep (abs_cube c) (LIns p k) (abs_cube c')"
    using AIns [of p "map abs_proc (processors c)" "map abs_task rest" "map fi_count (flush_infos c)" k] assms(3)
    unfolding abs_cube_update [OF procs r(4)] by (simp add: abs_cube_def)
  moreover have "threads_ok c'" using threads_ok_update [OF assms(1) procs] r by simp
  ultimately show ?thesis by simp
qed

lemma sim_accept:
  assumes "threads_ok c" and "cube_process chain t c = Inr c'"
  shows "threads_ok c' \<and> astep (abs_cube c) LAccept (abs_cube c')"
proof -
  have st: "\<not> cube_max_stage c < 1" "\<not> cube_max_stage c < 2"
    using assms(1) by (auto simp: threads_ok_def not_less word_le_nat_alt)
  define c1 where "c1 = (if cube_max_stage c > 4 then c \<lparr>processCongestMon := q_report_insert 1 (processCongestMon c)\<rparr> else c)"
  have c1: "processors c1 = processors c" "cube_max_stage c1 = cube_max_stage c" "flush_infos c1 = flush_infos c"
      "subscribers c1 = subscribers c" "sub_heap c1 = sub_heap c"
    by (auto simp: c1_def)
  obtain k where k: "processors c \<noteq> []" "c' = upd_proc (home_proc k c) (assign chain t k (chain_levels chain c1)) c1"
    using assms(2) st c1 by (auto simp: cube_process_def c1_def [symmetric] Let_def res_simps home_proc_def)
  let ?p = "home_proc k c" and ?pr = "assign chain t k (chain_levels chain c1) (processors c ! home_proc k c)"
  have p: "?p < length (processors c)" using k(1) by (simp add: home_proc_def)
  have procs: "processors c' = (processors c)[?p := ?pr]" using k(2) c1(1) by (simp add: upd_proc_def)
  have rest: "flush_infos c' = flush_infos c" "cube_max_stage c' = cube_max_stage c" "subscribers c' = subscribers c"
      "length (sub_heap c') = length (sub_heap c)" using k(2) c1 by auto
  have "abs_proc ?pr = (abs_proc (processors c ! ?p)) \<lparr>a_tasks := a_tasks (abs_proc (processors c ! ?p)) @ [None]\<rparr>"
    by (simp add: abs_proc_def assign_def abs_task_def)
  then have "astep (abs_cube c) LAccept (abs_cube c')"
    using AAccept [of ?p "map abs_proc (processors c)" "map fi_count (flush_infos c)"] p
    unfolding abs_cube_update [OF procs rest(1)] by (simp add: abs_cube_def)
  moreover have "clean (tupleBatcher ?pr)" using threads_ok_clean [OF assms(1) p] by (simp add: assign_def)
  ultimately show ?thesis using threads_ok_update [OF assms(1) procs] rest by simp
qed

lemma sim_request:
  assumes "threads_ok c" and "new_FlushInfo i sub c = (f, c1)"
  shows "threads_ok (cube_flush f c1) \<and> astep (abs_cube c) (LReq f) (abs_cube (cube_flush f c1))"
proof -
  have f: "f = length (flush_infos c)" "c1 = c \<lparr>flush_infos := flush_infos c @ [\<lparr>fi_id = i, fi_subsc = sub, fi_count = 0\<rparr>]\<rparr>"
    using assms(2) by (auto simp: new_FlushInfo_def)
  have "abs_cube (cube_flush f c1) = (map (\<lambda>a. a \<lparr>a_tasks := a_tasks a @ [Some f]\<rparr>) (map abs_proc (processors c)),
      map fi_count (flush_infos c) @ [of_nat (length (map abs_proc (processors c)))])"
    by (simp add: abs_cube_def cube_flush_def f list_update_append abs_proc_def barrier_def abs_task_def)
  then have "astep (abs_cube c) (LReq f) (abs_cube (cube_flush f c1))"
    using AReq [of "map abs_proc (processors c)" "map fi_count (flush_infos c)"] f(1) by (simp only: abs_cube_def length_map)
  then show ?thesis using assms(1) by (auto simp: threads_ok_def subs_ok_def cube_flush_def f barrier_def)
qed

lemma sim_post:
  assumes "threads_ok c" and "p < length (processors c)" and "process_tasks (processors c ! p) = FlushTask f # rest"
    and "run_process dp p c = Inr c'"
  shows "threads_ok c' \<and> astep (abs_cube c) (LPost p f) (abs_cube c')"
proof -
  let ?pr = "(processors c ! p) \<lparr>process_tasks := rest, flush_posts := flush_posts (processors c ! p) @ [DoBarrier f]\<rparr>"
  have procs: "processors c' = (processors c)[p := ?pr]" and rest: "flush_infos c' = flush_infos c"
      "cube_max_stage c' = cube_max_stage c" "subscribers c' = subscribers c" "length (sub_heap c') = length (sub_heap c)"
    using assms(2-4) by (auto simp: run_process_def Let_def upd_proc_def barrier_to_flushqueue_def)
  have "abs_proc ?pr = (abs_proc (processors c ! p)) \<lparr>a_tasks := map abs_task rest, a_posts := a_posts (abs_proc (processors c ! p)) @ [DoBarrier f]\<rparr>"
    by (simp add: abs_proc_def)
  moreover have "a_tasks (abs_proc (processors c ! p)) = Some f # map abs_task rest"
    using assms(3) by (simp add: abs_proc_def abs_task_def)
  ultimately have "astep (abs_cube c) (LPost p f) (abs_cube c')"
    using APost [of p "map abs_proc (processors c)" f "map abs_task rest" "map fi_count (flush_infos c)"] assms(2)
    unfolding abs_cube_update [OF procs rest(1)] by (simp add: abs_cube_def)
  then show ?thesis using threads_ok_update [OF assms(1) procs] rest threads_ok_clean [OF assms(1,2)] by simp
qed

lemma sim_barrier:
  assumes "threads_ok c" and "p < length (processors c)" and "phase (processors c ! p) = Idle"
    and "flush_posts (processors c ! p) = DoBarrier f # rest" and "flush_step subs st p c = Inr c'"
  shows "threads_ok c' \<and> astep (abs_cube c) (LBar p f (is_last_barrier (flush_infos c ! f))) (abs_cube c')"
proof -
  let ?pr = "(processors c ! p) \<lparr>flush_posts := rest\<rparr>" and ?fi = "flush_infos c ! f"
  have f: "f < length (flush_infos c)" and procs: "processors c' = (processors c)[p := ?pr]"
      and fi: "flush_infos c' = (flush_infos c)[f := ?fi \<lparr>fi_count := fi_count ?fi - 1\<rparr>]"
      and rest: "cube_max_stage c' = cube_max_stage c" "subscribers c' = subscribers c" "length (sub_heap c') = length (sub_heap c)"
    using assms(2-5)
    by (auto simp: flush_step_def flush_post_step_def Let_def do_barrier_def dec_and_get_def res_simps upd_proc_def upd_sub_def)
  have a: "abs_cube c' = ((map abs_proc (processors c))[p := abs_proc ?pr], (map fi_count (flush_infos c))[f := fi_count ?fi - 1])"
    by (simp add: abs_cube_def procs fi map_update)
  have "abs_proc ?pr = (abs_proc (processors c ! p)) \<lparr>a_posts := rest\<rparr>" "a_posts (abs_proc (processors c ! p)) = DoBarrier f # rest"
      "a_phase (abs_proc (processors c ! p)) = AIdle"
    using assms(3,4) by (simp_all add: abs_proc_def abs_phase_def)
  then have "astep (abs_cube c) (LBar p f (fi_count ?fi = 1)) (abs_cube c')"
    using ABar [of p "map abs_proc (processors c)" f rest "map fi_count (flush_infos c)"] assms(2) f
    unfolding a by (simp add: abs_cube_def)
  then show ?thesis using threads_ok_update [OF assms(1) procs] rest threads_ok_clean [OF assms(1,2)] by simp
qed

lemma sim_local:
  assumes "threads_ok c" and "p < length (processors c)" and "processors c' = (processors c)[p := pr]"
    and "clean (tupleBatcher pr)" and "flush_infos c' = flush_infos c" and "cube_max_stage c' = cube_max_stage c"
    and "subscribers c' = subscribers c" and "length (sub_heap c') = length (sub_heap c)"
    and "astep (map abs_proc (processors c), map fi_count (flush_infos c)) l
       ((map abs_proc (processors c))[p := abs_proc pr], map fi_count (flush_infos c))"
  shows "threads_ok c' \<and> astep (abs_cube c) l (abs_cube c')"
  using assms threads_ok_update [OF assms(1,3)] abs_cube_update [OF assms(3,5)] by (simp add: abs_cube_def)

lemma sim_start:
  assumes "threads_ok c" and "p < length (processors c)" and "phase (processors c ! p) = Idle"
    and "flush_posts (processors c ! p) = DoCheckFlush # rest" and "flush_step subs st p c = Inr c'"
  shows "threads_ok c' \<and> astep (abs_cube c) (LStart p) (abs_cube c')"
proof (rule sim_local [OF assms(1,2)])
  let ?pr = "(processors c ! p) \<lparr>flush_posts := rest, phase := Checking\<rparr>"
  show "processors c' = (processors c)[p := ?pr]" "flush_infos c' = flush_infos c" "cube_max_stage c' = cube_max_stage c"
    "subscribers c' = subscribers c" "length (sub_heap c') = length (sub_heap c)"
    using assms(2-5) by (auto simp: flush_step_def flush_post_step_def Let_def upd_proc_def)
  show "clean (tupleBatcher ?pr)" using threads_ok_clean [OF assms(1,2)] by simp
  have "abs_proc ?pr = (abs_proc (processors c ! p)) \<lparr>a_posts := rest, a_phase := AChecking\<rparr>"
    by (simp add: abs_proc_def abs_phase_def)
  moreover have "a_posts (abs_proc (processors c ! p)) = DoCheckFlush # rest" "a_phase (abs_proc (processors c ! p)) = AIdle"
    using assms(3,4) by (simp_all add: abs_proc_def abs_phase_def)
  ultimately show "astep (map abs_proc (processors c), map fi_count (flush_infos c)) (LStart p)
     ((map abs_proc (processors c))[p := abs_proc ?pr], map fi_count (flush_infos c))"
    using AStart [of p "map abs_proc (processors c)" rest "map fi_count (flush_infos c)"] assms(2) by simp
qed

lemma sim_check:
  assumes "threads_ok c" and "p < length (processors c)" and "phase (processors c ! p) = Checking" and "flush_step subs st p c = Inr c'"
  shows "threads_ok c' \<and> astep (abs_cube c) (LCheck p) (abs_cube c')"
proof (rule sim_local [OF assms(1,2)])
  let ?b = "tupleBatcher (processors c ! p)"
  let ?pr = "if batch_abs ?b = [] then (processors c ! p) \<lparr>phase := Idle\<rparr> else swap_batch (processors c ! p)"
  note cl = threads_ok_clean [OF assms(1,2)]
  show "processors c' = (processors c)[p := ?pr]" "flush_infos c' = flush_infos c" "cube_max_stage c' = cube_max_stage c"
    "subscribers c' = subscribers c" "length (sub_heap c') = length (sub_heap c)"
    using assms(2-4) batch_is_empty_abs [OF cl]
    by (auto simp: flush_step_def check_step_def batcher_ready_def upd_proc_def)
  show "clean (tupleBatcher ?pr)" using cl by (simp add: swap_batch_def)
  have "set (batch_keys ?b) = {} \<longleftrightarrow> batch_abs ?b = []" by (simp add: batch_keys_abs)
  moreover have "batch_keys new_TupleBatch = []" by (simp add: batch_keys_def new_TupleBatch_def)
  ultimately have "abs_proc ?pr = (abs_proc (processors c ! p)) \<lparr>a_phase := if a_keys (abs_proc (processors c ! p)) = {} then AIdle
      else AFlushing (a_keys (abs_proc (processors c ! p))), a_keys := {}\<rparr>"
    by (auto simp: abs_proc_def abs_phase_def swap_batch_def)
  moreover have "a_phase (abs_proc (processors c ! p)) = AChecking" using assms(3) by (simp add: abs_proc_def abs_phase_def)
  ultimately show "astep (map abs_proc (processors c), map fi_count (flush_infos c)) (LCheck p)
     ((map abs_proc (processors c))[p := abs_proc ?pr], map fi_count (flush_infos c))"
    using ACheck [of p "map abs_proc (processors c)" "map fi_count (flush_infos c)"] assms(2)
    by (cases "a_keys (abs_proc (processors c ! p)) = {}") simp_all
qed

lemma sim_write:
  assumes "threads_ok c" and "p < length (processors c)" and "phase (processors c ! p) = Flushing tb" and "flush_step subs st p c = Inr c'"
  shows "threads_ok c' \<and> astep (abs_cube c) (LWrite p (batch_keys tb)) (abs_cube c')"
proof (rule sim_local [OF assms(1,2)])
  let ?pr = "(processors c ! p) \<lparr>phase := Checking\<rparr>"
  have "write_step subs st p tb c = Inr c'" using assms(2-4) by (simp add: flush_step_def)
  then show "processors c' = (processors c)[p := ?pr]" "flush_infos c' = flush_infos c" "cube_max_stage c' = cube_max_stage c"
    "subscribers c' = subscribers c" "length (sub_heap c') = length (sub_heap c)"
    using write_step_frame [OF _ assms(2)] by auto
  show "clean (tupleBatcher ?pr)" using threads_ok_clean [OF assms(1,2)] by simp
  have "abs_proc ?pr = (abs_proc (processors c ! p)) \<lparr>a_phase := AChecking\<rparr>"
      "a_phase (abs_proc (processors c ! p)) = AFlushing (set (batch_keys tb))"
    using assms(3) by (simp_all add: abs_proc_def abs_phase_def)
  then show "astep (map abs_proc (processors c), map fi_count (flush_infos c)) (LWrite p (batch_keys tb))
     ((map abs_proc (processors c))[p := abs_proc ?pr], map fi_count (flush_infos c))"
    using AWrite [of p "map abs_proc (processors c)" "set (batch_keys tb)" "batch_keys tb" "map fi_count (flush_infos c)"] assms(2) by simp
qed

text \<open>Every step of the cube is a step of the abstract machine.\<close>

lemma cube_step_sim:
  assumes "cube_step env subs st c l c'" and "batching subs" and "threads_ok c"
  shows "threads_ok c' \<and> astep (abs_cube c) l (abs_cube c')"
  using assms
proof (induction rule: cube_step.induct)
  case (Env c c')
  then have "abs_cube c' = abs_cube c" by (simp add: abs_cube_def same_threads_def)
  then show ?case using Env AEnv by (auto simp: threads_ok_def same_threads_def)
qed (rule sim_accept sim_request sim_insert sim_post sim_barrier sim_start sim_check sim_write; assumption)+

inductive arun :: "astate \<Rightarrow> clabel list \<Rightarrow> astate \<Rightarrow> bool" where
  AStop: "arun s [] s"
| AStep: "astep s l s1 \<Longrightarrow> arun s1 ls s' \<Longrightarrow> arun s (l # ls) s'"

inductive_simps arun_Cons: "arun s (l # ls) s'"
inductive_simps arun_Nil: "arun s [] s'"

lemma arun_append: "arun s (xs @ ys) s' \<longleftrightarrow> (\<exists>s1. arun s xs s1 \<and> arun s1 ys s')"
proof (induction xs arbitrary: s)
  case Nil
  show ?case by (auto simp: arun_Nil)
next
  case (Cons x xs)
  show ?case by (auto simp: arun_Cons Cons.IH)
qed

lemma cube_run_sim:
  assumes "cube_run env subs st c ls c'" and "batching subs" and "threads_ok c"
  shows "threads_ok c' \<and> arun (abs_cube c) ls (abs_cube c')"
  using assms
proof (induction rule: cube_run.induct)
  case (Stop c)
  then show ?case by (simp add: arun_Nil)
next
  case (Step c l c1 ls c')
  have "threads_ok c1 \<and> astep (abs_cube c) l (abs_cube c1)"
    using cube_step_sim [OF Step.hyps(1) Step.prems] .
  then show ?case using Step.IH [OF Step.prems(1)] AStep by blast
qed

section \<open>Invariants of the abstract machine\<close>

text \<open>A batch with keys is going to be noticed by the flush thread.\<close>

definition wake :: "aproc \<Rightarrow> bool" where
  "wake a \<longleftrightarrow> a_keys a = {} \<or> a_phase a \<noteq> AIdle \<or> DoCheckFlush \<in> set (a_posts a)"

text \<open>How often a processor still has to pass the barrier of a flush.\<close>

definition pend :: "nat \<Rightarrow> aproc \<Rightarrow> nat" where
  "pend f a = count_list (a_tasks a) (Some f) + count_list (a_posts a) (DoBarrier f)"

definition ainv :: "astate \<Rightarrow> bool" where
  "ainv s \<longleftrightarrow> (case s of (ps, cs) \<Rightarrow> length ps < 4294967296
     \<and> (\<forall>a \<in> set ps. wake a \<and> (\<forall>f. pend f a \<le> 1 \<and> (length cs \<le> f \<longrightarrow> pend f a = 0)))
     \<and> (\<forall>f < length cs. unat (cs ! f) = sum_list (map (pend f) ps)))"

lemma ainv_local:
  assumes "ainv (ps, cs)" and "p < length ps" and "wake a" and "\<And>f. pend f a = pend f (ps ! p)"
  shows "ainv (ps[p := a], cs)"
proof -
  have "map (pend f) (ps[p := a]) = map (pend f) ps" for f
    using assms(2,4) by (simp add: map_update list_update_same_conv)
  then show ?thesis using assms by (auto simp: ainv_def dest!: in_set_update)
qed

lemma ainv_wake: "ainv (ps, cs) \<Longrightarrow> p < length ps \<Longrightarrow> wake (ps ! p)"
  by (simp add: ainv_def)

lemma ainv_pend: "ainv (ps, cs) \<Longrightarrow> p < length ps \<Longrightarrow> pend f (ps ! p) \<le> 1"
  by (simp add: ainv_def)

lemma ainv_sum: "ainv (ps, cs) \<Longrightarrow> f < length cs \<Longrightarrow> unat (cs ! f) = sum_list (map (pend f) ps)"
  by (simp add: ainv_def)

lemma ainv_request:
  assumes "ainv (ps, cs)"
  shows "ainv (map (\<lambda>a. a \<lparr>a_tasks := a_tasks a @ [Some (length cs)]\<rparr>) ps, cs @ [of_nat (length ps)])"
proof -
  let ?g = "\<lambda>a. a \<lparr>a_tasks := a_tasks a @ [Some (length cs)]\<rparr>"
  have p: "pend f (?g a) = pend f a + (if f = length cs then 1 else 0)" for f a
    by (simp add: pend_def)
  have z: "pend (length cs) a = 0" if "a \<in> set ps" for a using assms that by (simp add: ainv_def)
  have "map (pend (length cs)) (map ?g ps) = map (\<lambda>_. 1) ps" using p z by simp
  then have s: "sum_list (map (pend (length cs)) (map ?g ps)) = length ps" by (simp only: sum_list_triv) simp
  have o: "sum_list (map (pend f) (map ?g ps)) = sum_list (map (pend f) ps)" if "f \<noteq> length cs" for f
    using that p by (simp add: comp_def)
  have "unat ((cs @ [of_nat (length ps)]) ! f) = sum_list (map (pend f) (map ?g ps))" if "f < Suc (length cs)" for f
    using that assms s o [of f] ainv_sum [OF assms, of f]
    by (cases "f = length cs") (auto simp: nth_append ainv_def unat_of_nat32)
  moreover have "wake (?g a)" "pend f (?g a) \<le> 1" "Suc (length cs) \<le> f \<longrightarrow> pend f (?g a) = 0" if "a \<in> set ps" for a f
    using assms that z [OF that] p by (auto simp: ainv_def wake_def)
  ultimately show ?thesis using assms by (simp add: ainv_def)
qed

lemma ainv_barrier:
  assumes "ainv (ps, cs)" and "p < length ps" and "a_posts (ps ! p) = DoBarrier f # rest" and "a_phase (ps ! p) = AIdle"
    and "f < length cs"
  shows "ainv (ps[p := (ps ! p) \<lparr>a_posts := rest\<rparr>], cs[f := cs ! f - 1])"
proof -
  let ?a = "(ps ! p) \<lparr>a_posts := rest\<rparr>"
  have pf: "pend g (ps ! p) = pend g ?a + (if g = f then 1 else 0)" for g
    using assms(3) by (simp add: pend_def)
  have wk: "wake ?a" using ainv_wake [OF assms(1,2)] assms(3,4) by (auto simp: wake_def)
  have s: "sum_list (map (pend g) ps) = sum_list (map (pend g) (ps[p := ?a])) + (if g = f then 1 else 0)" for g
    using sum_list_map_update [OF assms(2), of "pend g" ?a] pf [of g] by simp
  have "unat (cs ! f - 1) = unat (cs ! f) - 1"
    using ainv_sum [OF assms(1,5)] s [of f] by (intro unat_minus_one) auto
  then have "unat ((cs[f := cs ! f - 1]) ! g) = sum_list (map (pend g) (ps[p := ?a]))" if "g < length cs" for g
    using s [of g] ainv_sum [OF assms(1) that] assms(5) that by (cases "g = f") auto
  moreover have "pend g ?a \<le> 1" "length cs \<le> g \<longrightarrow> pend g ?a = 0" for g
    using pf [of g] assms(1,2) ainv_pend [OF assms(1,2), of g] by (auto simp: ainv_def)
  ultimately show ?thesis using assms(1) wk by (auto simp: ainv_def dest!: in_set_update)
qed

lemma astep_ainv: "astep s l s' \<Longrightarrow> ainv s \<Longrightarrow> ainv s'"
proof (induction rule: astep.induct)
  case (AReq ps cs)
  then show ?case by (rule ainv_request)
next
  case (ABar p ps f rest cs)
  then show ?case by (intro ainv_barrier)
next
  case (AEnv s)
  then show ?case .
qed (rule ainv_local; auto simp: pend_def wake_def dest: ainv_wake)+

lemma astep_length: "astep s l s' \<Longrightarrow> length (fst s') = length (fst s)"
  by (induction rule: astep.induct) simp_all

lemma arun_ainv: "arun s ls s' \<Longrightarrow> ainv s \<Longrightarrow> ainv s' \<and> length (fst s') = length (fst s)"
  by (induction rule: arun.induct) (auto simp: astep_length astep_ainv)

section \<open>Barriers come after writes\<close>

definition writing :: "DimensionKey \<Rightarrow> aproc \<Rightarrow> bool" where
  "writing k a = (case a_phase a of AFlushing K \<Rightarrow> k \<in> K | _ \<Rightarrow> False)"

text \<open>A merged key that has not been written yet.\<close>

definition dirty :: "DimensionKey \<Rightarrow> aproc \<Rightarrow> bool" where
  "dirty k a \<longleftrightarrow> k \<in> a_keys a \<or> writing k a"

text \<open>A key that is going to be written before the barrier of \<^verbatim>\<open>f\<close>, which is posted, runs.\<close>

definition guarded :: "DimensionKey \<Rightarrow> nat \<Rightarrow> aproc \<Rightarrow> bool" where
  "guarded k f a \<longleftrightarrow> DoBarrier f \<in> set (a_posts a)
     \<and> (writing k a \<or> k \<in> a_keys a \<and> (a_phase a \<noteq> AIdle \<or> DoCheckFlush \<in> set (takeWhile (\<lambda>x. x \<noteq> DoBarrier f) (a_posts a))))"

definition wrote :: "nat \<Rightarrow> DimensionKey \<Rightarrow> clabel \<Rightarrow> bool" where
  "wrote q k l = (case l of LWrite p ks \<Rightarrow> p = q \<and> k \<in> set ks | _ \<Rightarrow> False)"

lemma wrote_iff: "wrote q k l \<longleftrightarrow> (\<exists>ks. l = LWrite q ks \<and> k \<in> set ks)"
  by (cases l) (auto simp: wrote_def)

lemma takeWhile_mono: "x \<in> set (takeWhile P xs) \<Longrightarrow> x \<in> set (takeWhile P (xs @ ys))"
  by (induction xs) (auto split: if_splits)

lemma insert_dirty: "astep s (LIns q k) s' \<Longrightarrow> dirty k (fst s' ! q)"
  by (cases rule: astep.cases) (auto simp: dirty_def)

lemma dirty_step:
  assumes "astep s l s'" and "q < length (fst s)" and "dirty k (fst s ! q)" and "\<not> wrote q k l"
  shows "dirty k (fst s' ! q)"
  using assms
  by (induction rule: astep.induct)
    (auto simp: dirty_def writing_def wrote_def nth_list_update split: aphase.splits)

lemma post_guarded:
  assumes "astep s (LPost q f) s'" and "ainv s" and "dirty k (fst s ! q)"
  shows "guarded k f (fst s' ! q)"
  using assms(1)
proof cases
  case (APost ps rest cs)
  have "count_list (a_posts (ps ! q)) (DoBarrier f) = 0"
    using ainv_pend [of ps cs q f] assms(2) APost by (simp add: pend_def)
  then have "takeWhile (\<lambda>x. x \<noteq> DoBarrier f) (a_posts (ps ! q) @ [DoBarrier f]) = a_posts (ps ! q)"
    by (subst takeWhile_append2) (auto simp: count_list_0_iff)
  then show ?thesis using APost assms(3) ainv_wake [of ps cs q] assms(2)
    by (auto simp: guarded_def dirty_def writing_def wake_def split: aphase.splits)
qed

lemma guarded_step:
  assumes "astep s l s'" and "q < length (fst s)" and "guarded k f (fst s ! q)" and "\<not> wrote q k l"
  shows "guarded k f (fst s' ! q) \<and> (\<forall>b. l \<noteq> LBar q f b)"
  using assms
proof (induction rule: astep.induct)
  case (ABar p ps f' rest cs)
  then show ?case
    by (cases "p = q") (auto simp: guarded_def writing_def split: if_splits)
next
  case (AIns p ps rest cs k')
  then show ?case
    by (cases "p = q") (auto simp: guarded_def writing_def intro: takeWhile_mono split: aphase.splits)
next
  case (APost p ps f' rest cs)
  then show ?case
    by (cases "p = q") (auto simp: guarded_def writing_def intro: takeWhile_mono split: aphase.splits)
next
  case (AStart p ps rest cs)
  then show ?case
    by (cases "p = q") (auto simp: guarded_def writing_def split: aphase.splits)
next
  case (ACheck p ps cs)
  then show ?case
    by (cases "p = q") (auto simp: guarded_def writing_def split: aphase.splits)
next
  case (AWrite p ps K ks cs)
  then show ?case
    by (cases "p = q") (auto simp: guarded_def writing_def wrote_def split: aphase.splits)
next
  case (AAccept p ps cs)
  then show ?case
    by (cases "p = q") (auto simp: guarded_def writing_def split: aphase.splits)
qed (auto simp: guarded_def writing_def split: aphase.splits)

lemma dirty_run:
  "arun s ls s' \<Longrightarrow> q < length (fst s) \<Longrightarrow> dirty k (fst s ! q) \<Longrightarrow> \<forall>l \<in> set ls. \<not> wrote q k l \<Longrightarrow> dirty k (fst s' ! q)"
  by (induction rule: arun.induct) (auto simp: astep_length dest: dirty_step)

lemma guarded_run:
  "arun s ls s' \<Longrightarrow> q < length (fst s) \<Longrightarrow> guarded k f (fst s ! q) \<Longrightarrow> \<forall>l \<in> set ls. \<not> wrote q k l \<Longrightarrow> guarded k f (fst s' ! q)"
  by (induction rule: arun.induct) (auto simp: astep_length dest: guarded_step)

lemma guarded_pend: "guarded k f a \<Longrightarrow> 1 \<le> pend f a"
  using count_list_0_iff [of "a_posts a" "DoBarrier f"] by (auto simp: guarded_def pend_def Suc_le_eq)

lemma two_pend:
  fixes g :: "'a \<Rightarrow> nat"
  assumes "p < length ps" "q < length ps" "p \<noteq> q"
  shows "g (ps ! p) + g (ps ! q) \<le> sum_list (map g ps)"
proof -
  have "sum_list (map g ps) = (\<Sum>i < length ps. g (ps ! i))" by (simp add: sum_list_sum_nth atLeast0LessThan)
  moreover have "(\<Sum>i \<in> {p, q}. g (ps ! i)) \<le> (\<Sum>i < length ps. g (ps ! i))"
    using assms by (intro sum_mono2) auto
  ultimately show ?thesis using assms(3) by simp
qed

text \<open>The callback cannot run while some processor still guards a key.\<close>

lemma callback_not_guarded:
  assumes "astep s (LBar p f True) s'" and "ainv s" and "q < length (fst s)"
  shows "\<not> guarded k f (fst s ! q)"
proof
  assume g: "guarded k f (fst s ! q)"
  have "\<not> wrote q k (LBar p f True)" by (simp add: wrote_def)
  then have "p \<noteq> q" using guarded_step [OF assms(1,3) g] by auto
  moreover obtain ps cs where s: "s = (ps, cs)" by (cases s)
  have "p < length ps" "f < length cs" "cs ! f = 1" "1 \<le> pend f (ps ! p)"
    using assms(1) by (cases rule: astep.cases; simp add: s pend_def)+
  ultimately show False
    using two_pend [of p ps q "pend f"] ainv_sum [of ps cs f] guarded_pend [OF g] assms(2,3) by (simp add: s)
qed

lemma callback_after_writes:
  assumes "arun s (as @ LIns q k # bs @ LPost q f # ds @ [LBar p f True]) s'" and "ainv s"
  shows "\<exists>l \<in> set (bs @ ds). wrote q k l"
proof (rule ccontr)
  assume "\<not> (\<exists>l \<in> set (bs @ ds). wrote q k l)"
  then have nw: "\<forall>l \<in> set bs. \<not> wrote q k l" "\<forall>l \<in> set ds. \<not> wrote q k l" by auto
  obtain s1 s2 s3 s4 s5 where r: "arun s as s1" "astep s1 (LIns q k) s2" "arun s2 bs s3" "astep s3 (LPost q f) s4"
      "arun s4 ds s5" "astep s5 (LBar p f True) s'"
    using assms(1) by (auto simp: arun_append arun_Cons arun_Nil)
  have q1: "q < length (fst s1)" using r(2) by (cases rule: astep.cases) simp
  have i: "ainv s1" "ainv s2" "ainv s3" "ainv s4" "ainv s5" and len: "length (fst s2) = length (fst s1)"
      "length (fst s3) = length (fst s1)" "length (fst s4) = length (fst s1)" "length (fst s5) = length (fst s1)"
    using arun_ainv [OF r(1) assms(2)] astep_ainv [OF r(2)] arun_ainv [OF r(3)] astep_ainv [OF r(4)] arun_ainv [OF r(5)]
      astep_length [OF r(2)] astep_length [OF r(4)] by auto
  have "dirty k (fst s3 ! q)" using dirty_run [OF r(3) _ insert_dirty [OF r(2)] nw(1)] q1 len by simp
  then have "guarded k f (fst s4 ! q)" using post_guarded [OF r(4) i(3)] by simp
  then have "guarded k f (fst s5 ! q)" using guarded_run [OF r(5) _ _ nw(2)] q1 len by simp
  then show False using callback_not_guarded [OF r(6) i(5)] q1 len by simp
qed

section \<open>The callback runs once, after all processors\<close>

definition awaiting :: "nat \<Rightarrow> nat \<Rightarrow> astate \<Rightarrow> bool" where
  "awaiting f q s \<longleftrightarrow> length (snd s) \<le> f \<or> pend f (fst s ! q) = 1"

lemma awaiting_step:
  assumes "astep s l s'" and "ainv s" and "q < length (fst s)" and "awaiting f q s"
  shows "awaiting f q s' \<or> (\<exists>b. l = LBar q f b)"
  using assms
proof (induction rule: astep.induct)
  case (AReq ps cs)
  have "pend (length cs) (ps ! q) = 0" using AReq by (simp add: ainv_def)
  then show ?case using AReq by (auto simp: awaiting_def pend_def)
next
  case (ABar p ps f' rest cs)
  then show ?case by (cases "p = q") (auto simp: awaiting_def pend_def)
qed (auto simp: awaiting_def pend_def nth_list_update)

lemma awaiting_run:
  assumes "arun s ls s'" and "ainv s" and "q < length (fst s)" and "awaiting f q s"
  shows "awaiting f q s' \<or> (\<exists>b. LBar q f b \<in> set ls)"
  using assms
proof (induction rule: arun.induct)
  case (AStep s l s1 ls s')
  then show ?case
    using awaiting_step [OF AStep.hyps(1) AStep.prems] astep_ainv [OF AStep.hyps(1)] astep_length [OF AStep.hyps(1)] by auto
qed simp

text \<open>A flush all processors have passed is over.\<close>

definition passed :: "nat \<Rightarrow> astate \<Rightarrow> bool" where
  "passed f s \<longleftrightarrow> f < length (snd s) \<and> (\<forall>q < length (fst s). pend f (fst s ! q) = 0)"

lemma passed_step:
  assumes "astep s l s'" and "passed f s"
  shows "passed f s' \<and> (\<forall>q b. l \<noteq> LBar q f b)"
  using assms
proof (induction rule: astep.induct)
  case (ABar p ps f' rest cs)
  then show ?case by (auto simp: passed_def pend_def nth_list_update split: if_splits)
qed (auto simp: passed_def pend_def nth_list_update)

lemma passed_run: "arun s ls s' \<Longrightarrow> passed f s \<Longrightarrow> passed f s' \<and> (\<forall>q b. LBar q f b \<notin> set ls)"
  by (induction rule: arun.induct) (use passed_step in fastforce)+

lemma callback_passed:
  assumes "astep s (LBar p f True) s'" and "ainv s"
  shows "passed f s'"
  using assms(1)
proof cases
  case (ABar ps rest cs)
  have i: "ainv s'" using astep_ainv assms by blast
  have "cs ! f = 1" using ABar by simp
  then have "sum_list (map (pend f) (fst s')) = 0"
    using ainv_sum [of "fst s'" "snd s'" f] i ABar by simp
  then show ?thesis using ABar by (auto simp: passed_def)
qed

section \<open>The cube\<close>

definition new_cube_ok :: "u32 \<Rightarrow> nat \<Rightarrow> bool" where
  "new_cube_ok max_stage threads \<longleftrightarrow> \<not> max_stage < 3 \<and> threads < 4294967296"

lemma new_cube_inv:
  assumes "new_cube_ok max_stage threads"
  shows "threads_ok (new_DataCube im max_stage threads fm pm s0)" "ainv (abs_cube (new_DataCube im max_stage threads fm pm s0))"
  using assms
  by (simp_all add: new_cube_ok_def threads_ok_def new_DataCube_def subs_ok_def new_ProcessCallable_def ainv_def abs_cube_def
      abs_proc_def wake_def pend_def batch_keys_def clean_new)
    (simp add: new_TupleBatch_def)


text \<open>
  Property C3: the callback of a flush runs only when every processor has passed the barrier, and
  no processor passes that barrier again: it runs at most once.
\<close>

theorem flush_callback_once:
  fixes subs :: "'u SubOps" and st :: "'b StoreOps"
  assumes "batching subs" and "new_cube_ok max_stage threads"
    and "cube_run env subs st (new_DataCube im max_stage threads fm pm s0) (as @ LBar p f True # bs) c'"
  shows "(\<forall>q < threads. \<exists>b. LBar q f b \<in> set (as @ [LBar p f True])) \<and> (\<forall>q b. LBar q f b \<notin> set bs)"
proof -
  let ?c = "new_DataCube im max_stage threads fm pm s0 :: ('u, 'b) DataCube"
  obtain s1 s2 where r: "arun (abs_cube ?c) as s1" "astep s1 (LBar p f True) s2" "arun s2 bs (abs_cube c')"
    using cube_run_sim [OF assms(3,1) new_cube_inv(1) [OF assms(2)]] by (auto simp: arun_append arun_Cons)
  have i: "ainv (abs_cube ?c)" "ainv s1" and len: "length (fst s1) = threads"
    using new_cube_inv(2) [OF assms(2)] arun_ainv [OF r(1)] by (auto simp: abs_cube_def new_DataCube_def)
  have run: "arun (abs_cube ?c) (as @ [LBar p f True]) s2"
    using r(1) AStep [OF r(2) AStop] unfolding arun_append by blast
  have ps: "passed f s2" by (rule callback_passed [OF r(2) i(2)])
  have "\<exists>b. LBar q f b \<in> set (as @ [LBar p f True])" if "q < threads" for q
  proof -
    have "awaiting f q (abs_cube ?c)" by (simp add: awaiting_def abs_cube_def new_DataCube_def)
    moreover have "q < length (fst (abs_cube ?c))" using that by (simp add: abs_cube_def new_DataCube_def)
    ultimately have "awaiting f q s2 \<or> (\<exists>b. LBar q f b \<in> set (as @ [LBar p f True]))"
      by (intro awaiting_run [OF run i(1)])
    moreover have "\<not> awaiting f q s2" using ps that astep_length [OF r(2)] len by (auto simp: passed_def awaiting_def)
    ultimately show ?thesis by blast
  qed
  then show ?thesis using passed_run [OF r(3) ps] by blast
qed

section \<open>An execution\<close>

text \<open>One processor, one tuple, one flush.\<close>

definition ex_tuple :: Tuple where
  "ex_tuple = demo_tuple ''a'' ''b'' 1"

definition ex_key :: DimensionKey where
  "ex_key = ''a|1|b|1|''"

definition ex_task :: ProcessThreadTask where
  "ex_task = TupleInsertion None ex_tuple ex_key [1, 1]"

definition ex1 :: "(unit, unit) DataCube" where
  "ex1 = (idle_cube 1) \<lparr>processCongestMon := q_report_insert 1 idle_queue,
     processors := [new_ProcessCallable \<lparr>process_tasks := [ex_task]\<rparr>]\<rparr>"

definition ex2 :: "(unit, unit) DataCube" where
  "ex2 = cube_flush 0 (snd (new_FlushInfo 9 0 ex1))"

lemma ex_accept: "cube_process None ex_tuple (idle_cube 1) = Inr ex1"
proof -
  have "get_leaf_levels demo_cube = [1, 1]" by (simp add: get_leaf_levels_def demo_cube_def leaf_level_def flat_leaf_level_def)
  moreover have "get_dimension_key demo_cube ex_tuple [1, 1] = Inr ex_key"
    by (simp add: ex_tuple_def ex_key_def demo_key show_nat_1)
  ultimately show ?thesis
    by (simp add: cube_process_def idle_cube_def new_DataCube_def chain_levels_def Let_def upd_proc_def assign_def ex1_def ex_task_def
        new_ProcessCallable_def)
qed

lemma ex2_procs: "processors ex2 = [\<lparr>process_tasks = [ex_task, FlushTask 0], tupleBatcher = new_TupleBatch, flush_posts = [], phase = Idle\<rparr>]"
    "map fi_count (flush_infos ex2) = [1]" "subscribers ex2 = []" "cube_max_stage ex2 = 5"
  by (simp_all add: ex2_def ex1_def cube_flush_def new_FlushInfo_def barrier_def new_ProcessCallable_def idle_cube_def new_DataCube_def)

lemma ex_insert:
  "\<exists>c b tpi. run_process (do_process demo_env demo_subs demo_store) 0 ex2 = Inr c \<and> clean b \<and> batch_abs b = [(ex_key, tpi)]
     \<and> processors c = [\<lparr>process_tasks = [FlushTask 0], tupleBatcher = b, flush_posts = [DoCheckFlush], phase = Idle\<rparr>]
     \<and> map fi_count (flush_infos c) = [1]"
proof -
  let ?c = "upd_proc 0 (process_tasks_update (\<lambda>_. [FlushTask 0])) ex2"
  have p: "processors ?c = [\<lparr>process_tasks = [FlushTask 0], tupleBatcher = new_TupleBatch, flush_posts = [], phase = Idle\<rparr>]"
    by (simp add: upd_proc_def ex2_procs)
  have "run_process (do_process demo_env demo_subs demo_store) 0 ex2 = do_process demo_env demo_subs demo_store 0 None ex_tuple ex_key [1, 1] ?c"
    by (simp add: run_process_def ex2_procs ex_task_def Let_def)
  moreover have "merged_cell demo_env (dc_impl ?c) ex_tuple (map_find ex_key (batch_abs (tupleBatcher (processors ?c ! 0)))) = Inr ex_tuple"
    by (simp add: p merged_cell_def)
  ultimately show ?thesis
    using do_process_clean [OF _ _ _ _ demo_batching, of ?c 0 demo_env ex_tuple ex_key ex_tuple demo_store None "[1, 1]"] p ex2_procs
    by (auto simp: subs_ok_def)
qed

lemma ex_steps:
  assumes "processors c = [\<lparr>process_tasks = [FlushTask 0], tupleBatcher = b, flush_posts = [DoCheckFlush], phase = Idle\<rparr>]"
    and "map fi_count (flush_infos c) = [1]" and "clean b" and "batch_abs b = [(k, tpi)]"
  shows "\<exists>c'. cube_run demo_env demo_subs demo_store c [LPost 0 0, LStart 0, LCheck 0, LWrite 0 [k], LCheck 0, LBar 0 0 True] c'"
proof -
  let ?P = "\<lambda>c tb posts ph. processors c = [\<lparr>process_tasks = [], tupleBatcher = tb, flush_posts = posts, phase = ph\<rparr>]
     \<and> map fi_count (flush_infos c) = [1]"
  obtain c1 where 1: "run_process (do_process demo_env demo_subs demo_store) 0 c = Inr c1" "?P c1 b [DoCheckFlush, DoBarrier 0] Idle"
    using assms(1,2) by (simp add: run_process_def Let_def upd_proc_def barrier_to_flushqueue_def)
  obtain c2 where 2: "flush_step demo_subs demo_store 0 c1 = Inr c2" "?P c2 b [DoBarrier 0] Checking"
    using 1(2) by (simp add: flush_step_def flush_post_step_def upd_proc_def Let_def)
  obtain c3 where 3: "flush_step demo_subs demo_store 0 c2 = Inr c3" "?P c3 new_TupleBatch [DoBarrier 0] (Flushing b)"
    using 2(2) batch_is_empty_abs [OF assms(3)] assms(4)
    by (simp add: flush_step_def check_step_def batcher_ready_def upd_proc_def swap_batch_def)
  have "length (lookup b) = length (batch_abs b)" by (simp add: batch_abs_def)
  then have "length (lookup b) \<le> max_elems_per_batch" using assms(4) by (simp add: max_elems_per_batch_def)
  note fl = batch_flush_abs [OF assms(3) this]
  have "is_ok (batch_flush (cube_ops demo_subs demo_store) (b, c3))"
    unfolding fl by (simp add: assms(4) flush_records_def cube_ops_def demo_store_def)
  then have "is_ok (write_step demo_subs demo_store 0 b c3)"
    using batch_size_abs [OF assms(3)] by (auto simp: write_step_def is_ok_iff)
  then obtain c4 where 4: "write_step demo_subs demo_store 0 b c3 = Inr c4" by (auto simp: is_ok_iff)
  then have 4: "flush_step demo_subs demo_store 0 c3 = Inr c4" "?P c4 new_TupleBatch [DoBarrier 0] Checking"
    using 3(2) write_step_frame [OF 4] by (auto simp: flush_step_def)
  obtain c5 where 5: "flush_step demo_subs demo_store 0 c4 = Inr c5" "?P c5 new_TupleBatch [DoBarrier 0] Idle"
    using 4(2) batch_is_empty_abs [OF clean_new]
    by (simp add: flush_step_def check_step_def batcher_ready_def upd_proc_def)
  have "flush_infos c5 \<noteq> []" "fi_count (flush_infos c5 ! 0) = 1" using 5(2) by auto
  then obtain c6 where 6: "flush_step demo_subs demo_store 0 c5 = Inr c6"
    using 5(2) by (simp add: flush_step_def flush_post_step_def do_barrier_def dec_and_get_def upd_proc_def Let_def)
  have k: "batch_keys b = [k]" using assms(4) by (auto simp: batch_keys_def batch_abs_def)
  have "cube_step demo_env demo_subs demo_store c (LPost 0 0) c1" using Post [OF _ _ 1(1)] assms(1) by simp
  moreover have "cube_step demo_env demo_subs demo_store c1 (LStart 0) c2" using Start [OF _ _ _ 2(1)] 1(2) by simp
  moreover have "cube_step demo_env demo_subs demo_store c2 (LCheck 0) c3" using Check [OF _ _ 3(1)] 2(2) by simp
  moreover have "cube_step demo_env demo_subs demo_store c3 (LWrite 0 [k]) c4" using Write [OF _ _ 4(1), of b] 3(2) k by auto
  moreover have "cube_step demo_env demo_subs demo_store c4 (LCheck 0) c5" using Check [OF _ _ 5(1)] 4(2) by simp
  moreover have "cube_step demo_env demo_subs demo_store c5 (LBar 0 0 True) c6"
    using Bar [OF _ _ _ 6] 5(2) \<open>fi_count (flush_infos c5 ! 0) = 1\<close> by simp
  ultimately show ?thesis by (blast intro: Step Stop)
qed

lemma ex_trace:
  "\<exists>c'. cube_run demo_env demo_subs demo_store (new_DataCube demo_cube 5 1 idle_queue idle_queue ())
     [LAccept, LReq 0, LIns 0 ex_key, LPost 0 0, LStart 0, LCheck 0, LWrite 0 [ex_key], LCheck 0, LBar 0 0 True] c'"
proof -
  obtain c3 b tpi where c3: "run_process (do_process demo_env demo_subs demo_store) 0 ex2 = Inr c3" "clean b" "batch_abs b = [(ex_key, tpi)]"
      "processors c3 = [\<lparr>process_tasks = [FlushTask 0], tupleBatcher = b, flush_posts = [DoCheckFlush], phase = Idle\<rparr>]"
      "map fi_count (flush_infos c3) = [1]"
    using ex_insert by auto
  have "cube_step demo_env demo_subs demo_store (idle_cube 1) LAccept ex1" by (rule Accept [OF ex_accept])
  moreover have "cube_step demo_env demo_subs demo_store ex1 (LReq 0) ex2"
    unfolding ex2_def by (rule Req) (simp add: new_FlushInfo_def ex1_def idle_cube_def new_DataCube_def)
  moreover have "cube_step demo_env demo_subs demo_store ex2 (LIns 0 ex_key) c3"
    using Ins [OF _ _ c3(1)] ex2_procs(1) by (simp add: ex_task_def)
  ultimately show ?thesis
    using ex_steps [OF c3(4,5,2,3)] unfolding idle_cube_def by (blast intro: Step)
qed


theorem flush_callback_once_witness:
  "(\<exists>b. LBar 0 0 b \<in> set ([LAccept, LReq 0, LIns 0 ex_key, LPost 0 0, LStart 0, LCheck 0,
      LWrite 0 [ex_key], LCheck 0] @ [LBar 0 0 True])) \<and> LBar 0 0 True \<notin> set []"
proof -
  obtain c' where run: "cube_run demo_env demo_subs demo_store (new_DataCube demo_cube 5 1 idle_queue idle_queue ())
     ([LAccept, LReq 0, LIns 0 ex_key, LPost 0 0, LStart 0, LCheck 0, LWrite 0 [ex_key], LCheck 0] @ LBar 0 0 True # []) c'"
    using ex_trace by auto
  have "new_cube_ok 5 1" by (simp add: new_cube_ok_def)
  from flush_callback_once [OF demo_batching this run] show ?thesis by simp
qed

end
