(* ===== verification/JS_MTCube.thy ===== *)
theory JS_MTCube
  imports JS_Cube
begin

text \<open>
  The in-memory cube (\<^verbatim>\<open>cube/masstree/mt_cube.h\<close>, \<^verbatim>\<open>cube/masstree/mt_cube.cc\<close>, the buffer operations of
  \<^verbatim>\<open>cube/masstree/mt_aggregate.h\<close>).  The Masstree behind it is third-party code: its get and set are
  arguments, and the locale \<^verbatim>\<open>kv_store\<close> states what the cube relies on.  A buffer is its sequence of
  eight-byte slots, one per aggregate; a buffer changed in place is put back under its key.
\<close>

section \<open>Buffers\<close>

record AggregateBuffer =
  buf_sz :: u32
  buf_data :: "int list"

definition int64E :: "int \<Rightarrow> int res" where
  "int64E x = (if - 9223372036854775808 \<le> x \<and> x \<le> 9223372036854775807 then Inr x else Inl IntOverflow)"

text \<open>Each aggregate takes the size of a mt_sum_t or of a uint64_t: eight bytes.\<close>

definition mt_size :: "CubeAggregate \<Rightarrow> nat" where
  "mt_size a = 8"

definition mt_from_tuple :: "CubeAggregate \<Rightarrow> nat \<Rightarrow> Tuple \<Rightarrow> int list \<times> u64 \<Rightarrow> (int list \<times> u64) res" where
  "mt_from_tuple a pos src s = (case s of (d, v) \<Rightarrow> (case a_class a of
       MTSum \<Rightarrow> bindE (nthE (a_indexes a) 0) (\<lambda>i. bindE (tuple_e src i) (\<lambda>x.
         bindE (updE d (pos div 8) (get_i_val x)) (\<lambda>d'. Inr (d', v))))
     | _ \<Rightarrow> Inr (d, v + 1)))"

definition mt_merge_buf :: "CubeAggregate \<Rightarrow> nat \<Rightarrow> int \<Rightarrow> int list \<Rightarrow> int list res" where
  "mt_merge_buf a pos w d = (case a_class a of
       MTSum \<Rightarrow> bindE (nthE d (pos div 8)) (\<lambda>v. bindE (int64E (v + w)) (updE d (pos div 8)))
     | _ \<Rightarrow> Inr d)"

definition mt_merge :: "CubeAggregate \<Rightarrow> nat \<Rightarrow> Tuple \<Rightarrow> int list \<Rightarrow> int list res" where
  "mt_merge a pos src d = (case a_class a of
       MTSum \<Rightarrow> bindE (nthE (a_indexes a) 0) (\<lambda>i. bindE (tuple_e src i) (\<lambda>x.
         bindE (nthE d (pos div 8)) (\<lambda>v. bindE (int64E (v + get_i_val x)) (updE d (pos div 8)))))
     | _ \<Rightarrow> Inr d)"

definition mt_add_to_tuple :: "CubeAggregate \<Rightarrow> nat \<Rightarrow> int list \<Rightarrow> Tuple \<Rightarrow> Tuple res" where
  "mt_add_to_tuple a pos d dest = (case a_class a of
       MTSum \<Rightarrow> bindE (nthE d (pos div 8)) (\<lambda>v. Inr (extend_tuple_int dest (to_int32 v)))
     | _ \<Rightarrow> Inr dest)"

section \<open>The cube\<close>

text \<open>\<^verbatim>\<open>sizeof(AggregateBuffer)\<close> is eight, four of them the first bytes of the data.\<close>

definition alloc_buffer :: "CubeAggregate list \<Rightarrow> AggregateBuffer" where
  "alloc_buffer as = (let sz = sum_list (map mt_size as) in
     \<lparr>buf_sz = of_nat (8 + sz - 4), buf_data = replicate (length as) 0\<rparr>)"

fun merge_aggs :: "CubeAggregate list \<Rightarrow> nat \<Rightarrow> nat \<Rightarrow> Tuple \<Rightarrow> int list \<Rightarrow> int list res" where
  "merge_aggs [] pos pos_end t d = Inr d"
| "merge_aggs (a # as) pos pos_end t d = bindE (mt_merge a pos t d) (\<lambda>d'.
     let pos' = pos + mt_size a in
     if pos' \<ge> pos_end then Inl LogFatal else merge_aggs as pos' pos_end t d')"

fun add_aggs :: "CubeAggregate list \<Rightarrow> nat \<Rightarrow> nat \<Rightarrow> int list \<Rightarrow> Tuple \<Rightarrow> Tuple res" where
  "add_aggs [] pos pos_end d target = Inr target"
| "add_aggs (a # as) pos pos_end d target = bindE (mt_add_to_tuple a pos d target) (\<lambda>target'.
     let pos' = pos + mt_size a in
     if pos' \<ge> pos_end then Inl LogFatal else add_aggs as pos' pos_end d target')"

definition extend_with_dims_from :: "DataCubeImpl \<Rightarrow> Tuple \<Rightarrow> Tuple \<Rightarrow> Tuple res" where
  "extend_with_dims_from im target t =
     foldE (\<lambda>d target. bindE (dimension_offset im (d_name d)) (\<lambda>idx. bindE (nthE idx 0) (\<lambda>i.
       bindE (tuple_e t i) (\<lambda>x. Inr (add_e target x))))) (ci_dimensions im) target"

definition extend_with_aggs :: "DataCubeImpl \<Rightarrow> Tuple \<Rightarrow> AggregateBuffer \<Rightarrow> Tuple res" where
  "extend_with_aggs im target from_store =
     add_aggs (ci_aggregates im) 0 (unat (buf_sz from_store)) (buf_data from_store) target"

record 'm kv_ops =
  kv_get :: "'m \<Rightarrow> string \<Rightarrow> AggregateBuffer option"
  kv_set :: "string \<Rightarrow> AggregateBuffer \<Rightarrow> 'm \<Rightarrow> 'm"

definition find_buffer :: "'m kv_ops \<Rightarrow> DataCubeImpl \<Rightarrow> DimensionKey \<Rightarrow> 'm \<Rightarrow> AggregateBuffer \<times> 'm" where
  "find_buffer kv im k m = (case kv_get kv m (c_str k) of
       Some b \<Rightarrow> (b, m)
     | None \<Rightarrow> (let b = alloc_buffer (ci_aggregates im) in (b, kv_set kv (c_str k) b m)))"

definition merge_buffer :: "'m kv_ops \<Rightarrow> DataCubeImpl \<Rightarrow> DimensionKey \<Rightarrow> Tuple \<Rightarrow> AggregateBuffer \<Rightarrow> 'm \<Rightarrow> (AggregateBuffer \<times> 'm) res" where
  "merge_buffer kv im k t b m =
     bindE (merge_aggs (ci_aggregates im) 0 (unat (buf_sz b)) t (buf_data b)) (\<lambda>d.
     let b' = b \<lparr>buf_data := d\<rparr> in Inr (b', kv_set kv (c_str k) b' m))"

text \<open>\<^verbatim>\<open>do_process\<close> of this cube merges straight into the tree: there is no batch and no subscriber.\<close>

definition mt_do_process :: "'m kv_ops \<Rightarrow> DataCubeImpl \<Rightarrow> Tuple \<Rightarrow> DimensionKey \<Rightarrow> 'm \<Rightarrow> 'm res" where
  "mt_do_process kv im t k m = (case find_buffer kv im k m of (b, m1) \<Rightarrow>
     bindE (merge_buffer kv im k t b m1) (\<lambda>(_, m2). Inr m2))"

definition cell_tuple_of :: "DataCubeImpl \<Rightarrow> Tuple \<Rightarrow> AggregateBuffer \<Rightarrow> Tuple res" where
  "cell_tuple_of im t b = bindE (extend_with_dims_from im empty_tuple t) (\<lambda>r. extend_with_aggs im r b)"

definition mt_save_tuple :: "'m kv_ops \<Rightarrow> DataCubeImpl \<Rightarrow> Tuple \<Rightarrow> bool \<Rightarrow> bool \<Rightarrow> 'm \<Rightarrow> (Tuple option \<times> Tuple option \<times> 'm) res" where
  "mt_save_tuple kv im t need_new need_old m =
     bindE (get_dimension_key im t (map leaf_level (ci_dimensions im))) (\<lambda>k.
     case find_buffer kv im k m of (b, m1) \<Rightarrow>
       bindE (if need_old then bindE (cell_tuple_of im t b) (\<lambda>r. Inr (Some r)) else Inr None) (\<lambda>old_t.
       bindE (merge_buffer kv im k t b m1) (\<lambda>(b', m2).
       bindE (if need_new then bindE (cell_tuple_of im t b') (\<lambda>r. Inr (Some r)) else Inr None) (\<lambda>new_t.
       Inr (new_t, old_t, m2)))))"

text \<open>The loop of the first overload starts at the size; the second overload has no body.\<close>

definition mt_save_tuple_batch_plain ::
  "'m kv_ops \<Rightarrow> DataCubeImpl \<Rightarrow> Tuple list \<Rightarrow> bool list \<Rightarrow> bool list \<Rightarrow>
   Tuple option list \<times> Tuple option list \<times> 'm \<Rightarrow> (Tuple option list \<times> Tuple option list \<times> 'm) res" where
  "mt_save_tuple_batch_plain kv im ts nns nos s =
     foldE (\<lambda>i (ns, os, m). bindE (nthE ts i) (\<lambda>t. bindE (nthE nns i) (\<lambda>nn. bindE (nthE nos i) (\<lambda>no.
       bindE (mt_save_tuple kv im t nn no m) (\<lambda>(n, old, m'). Inr (ns[i := n], os[i := old], m'))))))
       [length ts..<length ts] s"

definition mt_save_tuple_batch ::
  "DataCubeImpl \<Rightarrow> Tuple list \<Rightarrow> u32 list list \<Rightarrow> bool list \<Rightarrow> bool list \<Rightarrow> 'm \<Rightarrow> (Tuple option list \<times> Tuple option list \<times> 'm) res" where
  "mt_save_tuple_batch im ts ls nns nos m = Inr (replicate (length ts) None, replicate (length ts) None, m)"

definition mt_get_cell_value :: "'m kv_ops \<Rightarrow> DataCubeImpl \<Rightarrow> Tuple \<Rightarrow> u32 list \<Rightarrow> 'm \<Rightarrow> Tuple option res" where
  "mt_get_cell_value kv im t levels m =
     bindE (get_dimension_key im t levels) (\<lambda>k. case kv_get kv m (c_str k) of
       None \<Rightarrow> Inr None
     | Some b \<Rightarrow> bindE (cell_tuple_of im t b) (\<lambda>r. Inr (Some r)))"

definition mt_store_ops :: "'m kv_ops \<Rightarrow> 'm StoreOps" where
  "mt_store_ops kv = \<lparr>save_tuple = mt_save_tuple kv, save_tuple_batch = mt_save_tuple_batch\<rparr>"

section \<open>Merging into a buffer\<close>

definition slot_value :: "CubeAggregate \<Rightarrow> Tuple \<Rightarrow> int" where
  "slot_value a t = (if a_class a = MTSum then get_i_val (e t ! nat (a_indexes a ! 0)) else 0)"

text \<open>A tuple with a field for every sum.\<close>

definition has_fields :: "CubeAggregate list \<Rightarrow> Tuple \<Rightarrow> bool" where
  "has_fields as t = list_all (\<lambda>a. a_class a = MTSum \<longrightarrow> a_indexes a \<noteq> [] \<and> 0 \<le> a_indexes a ! 0 \<and> nat (a_indexes a ! 0) < length (e t)) as"

definition in_int64 :: "int \<Rightarrow> bool" where
  "in_int64 x \<longleftrightarrow> - 9223372036854775808 \<le> x \<and> x \<le> 9223372036854775807"

lemma merge_aggs_slots:
  assumes "has_fields as t" and "length d = n + length as" and "pos_end = 8 * length d + 4"
    and "\<forall>j < length as. in_int64 (d ! (n + j) + slot_value (as ! j) t)"
  shows "\<exists>d'. merge_aggs as (8 * n) pos_end t d = Inr d' \<and> length d' = length d \<and> (\<forall>j < n. d' ! j = d ! j)
     \<and> (\<forall>j < length as. d' ! (n + j) = d ! (n + j) + slot_value (as ! j) t)"
  using assms
proof (induction as arbitrary: n d)
  case (Cons a as)
  let ?d = "if a_class a = MTSum then d[n := d ! n + slot_value a t] else d"
  have n: "n < length d" using Cons.prems(2) by simp
  have r: "in_int64 (d ! n + slot_value a t)" using Cons.prems(4) by force
  have "mt_merge a (8 * n) t d = Inr ?d"
    using Cons.prems(1) n r
    by (auto simp: mt_merge_def has_fields_def tuple_e_def slot_value_def int64E_def in_int64_def split: AggClass.splits)
  moreover have "8 * n + mt_size a = 8 * Suc n" "8 * Suc n < pos_end" using Cons.prems(2,3) by (simp_all add: mt_size_def)
  moreover have "?d ! (Suc n + j) = d ! (n + Suc j)" for j using n by (simp add: nth_list_update)
  moreover have "\<exists>d'. merge_aggs as (8 * Suc n) pos_end t ?d = Inr d' \<and> length d' = length ?d \<and> (\<forall>j < Suc n. d' ! j = ?d ! j)
     \<and> (\<forall>j < length as. d' ! (Suc n + j) = ?d ! (Suc n + j) + slot_value (as ! j) t)"
    using Cons.prems calculation(4) by (intro Cons.IH) (auto simp: has_fields_def)
  then obtain d' where d': "merge_aggs as (8 * Suc n) pos_end t ?d = Inr d'" "length d' = length ?d" "\<forall>j < Suc n. d' ! j = ?d ! j"
      "\<forall>j < length as. d' ! (Suc n + j) = ?d ! (Suc n + j) + slot_value (as ! j) t"
    by blast
  moreover have "d' ! (n + j) = d ! (n + j) + slot_value ((a # as) ! j) t" if "j < length (a # as)" for j
  proof (cases j)
    case 0
    then show ?thesis using d'(3) n by (auto simp: slot_value_def)
  next
    case (Suc i)
    then show ?thesis using d'(4) that calculation(4) by auto
  qed
  moreover have "\<forall>j < n. d' ! j = d ! j" using d'(3) by simp
  moreover have "merge_aggs (a # as) (8 * n) pos_end t d = Inr d'"
    using calculation(1-3) d'(1) by (simp add: Let_def add.commute [of 8])
  moreover have "length d' = length d" using d'(2) by simp
  ultimately show ?case by blast
qed simp

section \<open>The tree\<close>

text \<open>The buffer of a key, as it is or as it would be allocated.\<close>

definition buffer_at :: "'m kv_ops \<Rightarrow> DataCubeImpl \<Rightarrow> 'm \<Rightarrow> DimensionKey \<Rightarrow> AggregateBuffer" where
  "buffer_at kv im m k = (case kv_get kv m (c_str k) of Some b \<Rightarrow> b | None \<Rightarrow> alloc_buffer (ci_aggregates im))"

definition buffers_wf :: "'m kv_ops \<Rightarrow> DataCubeImpl \<Rightarrow> 'm \<Rightarrow> bool" where
  "buffers_wf kv im m \<longleftrightarrow> (\<forall>k b. kv_get kv m k = Some b \<longrightarrow>
     length (buf_data b) = length (ci_aggregates im) \<and> unat (buf_sz b) = 8 * length (ci_aggregates im) + 4)"

definition slot :: "'m kv_ops \<Rightarrow> DataCubeImpl \<Rightarrow> 'm \<Rightarrow> DimensionKey \<Rightarrow> nat \<Rightarrow> int" where
  "slot kv im m k j = buf_data (buffer_at kv im m k) ! j"

definition mt_process_all :: "'m kv_ops \<Rightarrow> DataCubeImpl \<Rightarrow> (DimensionKey \<times> Tuple) list \<Rightarrow> 'm \<Rightarrow> 'm res" where
  "mt_process_all kv im items m = foldE (\<lambda>(k, t). mt_do_process kv im t k) items m"

definition cell_sum :: "CubeAggregate \<Rightarrow> DimensionKey \<Rightarrow> (DimensionKey \<times> Tuple) list \<Rightarrow> int" where
  "cell_sum a k items = (\<Sum>(k', t) \<leftarrow> items. if c_str k' = c_str k then slot_value a t else 0)"

definition weight_sum :: "CubeAggregate \<Rightarrow> (DimensionKey \<times> Tuple) list \<Rightarrow> int" where
  "weight_sum a items = (\<Sum>(_, t) \<leftarrow> items. \<bar>slot_value a t\<bar>)"

text \<open>What the cube relies on of the tree.\<close>

locale kv_store =
  fixes kv :: "'m kv_ops"
  assumes get_set: "kv_get kv (kv_set kv k b m) k' = (if k' = k then Some b else kv_get kv m k')"
begin

lemma find_buffer_at:
  "find_buffer kv im k m = (b, m1) \<Longrightarrow> b = buffer_at kv im m k \<and> (\<forall>k'. kv_get kv m1 k' = (if k' = c_str k then Some b else kv_get kv m k'))"
  by (auto simp: find_buffer_def buffer_at_def Let_def get_set split: option.splits)

lemma buffer_wf:
  assumes "buffers_wf kv im m" and "length (ci_aggregates im) < 500000000"
  shows "length (buf_data (buffer_at kv im m k)) = length (ci_aggregates im)"
    "unat (buf_sz (buffer_at kv im m k)) = 8 * length (ci_aggregates im) + 4"
proof -
  have s: "sum_list (map mt_size as) = 8 * length as" for as by (induction as) (simp_all add: mt_size_def)
  have "8 + 8 * length as - 4 = 8 * length as + 4" for as :: "CubeAggregate list" by simp
  then have "buf_sz (alloc_buffer as) = of_nat (8 * length as + 4)" for as
    by (simp only: alloc_buffer_def Let_def s AggregateBuffer.select_convs)
  then have "unat (buf_sz (alloc_buffer (ci_aggregates im))) = 8 * length (ci_aggregates im) + 4"
    using assms(2) unat_of_nat32 [of "8 * length (ci_aggregates im) + 4"] by simp
  then show "length (buf_data (buffer_at kv im m k)) = length (ci_aggregates im)"
    "unat (buf_sz (buffer_at kv im m k)) = 8 * length (ci_aggregates im) + 4"
    using assms(1) by (auto simp: buffer_at_def buffers_wf_def alloc_buffer_def Let_def split: option.splits)
qed

lemma process_slots:
  assumes "buffers_wf kv im m" and "length (ci_aggregates im) < 500000000" and "has_fields (ci_aggregates im) t"
    and "\<forall>j < length (ci_aggregates im). in_int64 (slot kv im m k j + slot_value (ci_aggregates im ! j) t)"
  shows "\<exists>m'. mt_do_process kv im t k m = Inr m' \<and> buffers_wf kv im m' \<and> kv_get kv m' (c_str k) \<noteq> None
     \<and> (\<forall>k'. c_str k' \<noteq> c_str k \<longrightarrow> kv_get kv m' (c_str k') = kv_get kv m (c_str k'))
     \<and> (\<forall>j < length (ci_aggregates im). slot kv im m' k j = slot kv im m k j + slot_value (ci_aggregates im ! j) t)"
proof -
  let ?n = "length (ci_aggregates im)"
  obtain b m1 where f: "find_buffer kv im k m = (b, m1)" by (cases "find_buffer kv im k m")
  note fb = find_buffer_at [OF f]
  have b: "b = buffer_at kv im m k" "length (buf_data b) = ?n" "unat (buf_sz b) = 8 * ?n + 4"
    using fb buffer_wf [OF assms(1,2)] by auto
  have "\<exists>d'. merge_aggs (ci_aggregates im) (8 * 0) (8 * ?n + 4) t (buf_data b) = Inr d' \<and> length d' = length (buf_data b)
      \<and> (\<forall>j < 0. d' ! j = buf_data b ! j) \<and> (\<forall>j < ?n. d' ! (0 + j) = buf_data b ! (0 + j) + slot_value (ci_aggregates im ! j) t)"
    using assms(3,4) b by (intro merge_aggs_slots) (auto simp: slot_def)
  then obtain d where d: "merge_aggs (ci_aggregates im) 0 (unat (buf_sz b)) t (buf_data b) = Inr d" "length d = ?n"
      "\<forall>j < ?n. d ! j = buf_data b ! j + slot_value (ci_aggregates im ! j) t"
    using b by auto
  let ?b = "b \<lparr>buf_data := d\<rparr>"
  let ?m = "kv_set kv (c_str k) ?b m1"
  have g: "kv_get kv ?m k' = (if k' = c_str k then Some ?b else kv_get kv m k')" for k' using fb by (simp add: get_set)
  have "mt_do_process kv im t k m = Inr ?m" using f d(1) by (simp add: mt_do_process_def merge_buffer_def Let_def)
  moreover have "buffers_wf kv im ?m" using assms(1) g b d(2) by (auto simp: buffers_wf_def)
  moreover have "buffer_at kv im ?m k = ?b" using g by (simp add: buffer_at_def)
  ultimately show ?thesis using g d(3) b(1) by (intro exI [of _ ?m]) (simp add: slot_def)
qed

lemma process_all_slots:
  assumes "buffers_wf kv im m" and "length (ci_aggregates im) < 500000000"
    and "\<forall>(k, t) \<in> set items. has_fields (ci_aggregates im) t"
    and "\<forall>k. \<forall>j < length (ci_aggregates im). \<bar>slot kv im m k j\<bar> + weight_sum (ci_aggregates im ! j) items \<le> 9223372036854775807"
  shows "\<exists>m'. mt_process_all kv im items m = Inr m' \<and> buffers_wf kv im m'
     \<and> (\<forall>k. kv_get kv m (c_str k) \<noteq> None \<or> c_str k \<in> c_str ` fst ` set items \<longrightarrow> kv_get kv m' (c_str k) \<noteq> None)
     \<and> (\<forall>k. \<forall>j < length (ci_aggregates im). slot kv im m' k j = slot kv im m k j + cell_sum (ci_aggregates im ! j) k items)"
  using assms(1,3,4)
proof (induction items arbitrary: m)
  case Nil
  then show ?case by (simp add: mt_process_all_def cell_sum_def)
next
  case (Cons x items)
  obtain k t where x: "x = (k, t)" by (cases x)
  have nn: "0 \<le> weight_sum a items" for a unfolding weight_sum_def by (intro sum_list_nonneg) auto
  have b: "\<bar>slot kv im m k' j\<bar> + (\<bar>slot_value (ci_aggregates im ! j) t\<bar> + weight_sum (ci_aggregates im ! j) items) \<le> 9223372036854775807"
    if "j < length (ci_aggregates im)" for k' j
    using Cons.prems(3) that by (simp add: weight_sum_def x)
  have "\<forall>j < length (ci_aggregates im). in_int64 (slot kv im m k j + slot_value (ci_aggregates im ! j) t)"
  proof (intro allI impI)
    fix j assume "j < length (ci_aggregates im)"
    then show "in_int64 (slot kv im m k j + slot_value (ci_aggregates im ! j) t)"
      using b [of j k] nn [of "ci_aggregates im ! j"] unfolding in_int64_def by linarith
  qed
  moreover have "has_fields (ci_aggregates im) t" using Cons.prems(2) by (simp add: x)
  ultimately obtain m1 where m1: "mt_do_process kv im t k m = Inr m1" "buffers_wf kv im m1"
      "\<forall>k'. c_str k' \<noteq> c_str k \<longrightarrow> kv_get kv m1 (c_str k') = kv_get kv m (c_str k')"
      "\<forall>j < length (ci_aggregates im). slot kv im m1 k j = slot kv im m k j + slot_value (ci_aggregates im ! j) t"
      "kv_get kv m1 (c_str k) \<noteq> None"
    using process_slots [OF Cons.prems(1) assms(2)] by blast
  have s: "slot kv im m1 k' j = slot kv im m k' j + (if c_str k = c_str k' then slot_value (ci_aggregates im ! j) t else 0)"
    if "j < length (ci_aggregates im)" for k' j
  proof (cases "c_str k' = c_str k")
    case True
    then have "slot kv im m' k' j = slot kv im m' k j" for m' by (simp add: slot_def buffer_at_def)
    then show ?thesis using True m1(4) that by simp
  next
    case False
    then show ?thesis using m1(3) by (auto simp: slot_def buffer_at_def)
  qed
  have "\<forall>k'. \<forall>j < length (ci_aggregates im). \<bar>slot kv im m1 k' j\<bar> + weight_sum (ci_aggregates im ! j) items \<le> 9223372036854775807"
  proof (intro allI impI)
    fix k' j assume "j < length (ci_aggregates im)"
    then show "\<bar>slot kv im m1 k' j\<bar> + weight_sum (ci_aggregates im ! j) items \<le> 9223372036854775807"
      using b [of j k'] s [of j k'] by (cases "c_str k = c_str k'") auto
  qed
  then obtain m' where m': "mt_process_all kv im items m1 = Inr m'" "buffers_wf kv im m'"
      "\<forall>k. kv_get kv m1 (c_str k) \<noteq> None \<or> c_str k \<in> c_str ` fst ` set items \<longrightarrow> kv_get kv m' (c_str k) \<noteq> None"
      "\<forall>k. \<forall>j < length (ci_aggregates im). slot kv im m' k j = slot kv im m1 k j + cell_sum (ci_aggregates im ! j) k items"
    using Cons.IH [OF m1(2)] Cons.prems(2) by auto
  have "kv_get kv m' (c_str k') \<noteq> None" if "kv_get kv m (c_str k') \<noteq> None \<or> c_str k' \<in> c_str ` fst ` set (x # items)" for k'
    using m'(3) m1(3,5) that x by (metis fst_conv image_insert insertE list.simps(15))
  moreover have "mt_process_all kv im (x # items) m = Inr m'" using m1(1) m'(1) by (simp add: mt_process_all_def x)
  moreover have "slot kv im m' k' j = slot kv im m k' j + cell_sum (ci_aggregates im ! j) k' (x # items)"
    if "j < length (ci_aggregates im)" for k' j
    using m'(4) s [OF that, of k'] that by (simp add: cell_sum_def x)
  ultimately show ?case using m'(2) by blast
qed

end

text \<open>A std::map is such a store.\<close>

definition map_kv :: "(string, AggregateBuffer) stdmap kv_ops" where
  "map_kv = \<lparr>kv_get = (\<lambda>m k. map_find k m), kv_set = map_set\<rparr>"

interpretation map_tree: kv_store map_kv
  by unfold_locales (simp add: map_kv_def)

section \<open>Reading a cell\<close>

definition agg_elements :: "CubeAggregate list \<Rightarrow> int list \<Rightarrow> Element list" where
  "agg_elements as vs = concat (map2 (\<lambda>a v. if a_class a = MTSum then [int_element (to_int32 v)] else []) as vs)"

lemma add_aggs_elements:
  assumes "length d = n + length as" and "pos_end = 8 * length d + 4"
  shows "add_aggs as (8 * n) pos_end d target = Inr (target \<lparr>e := e target @ agg_elements as (drop n d)\<rparr>)"
  using assms
proof (induction as arbitrary: n target)
  case Nil
  then show ?case by (simp add: agg_elements_def)
next
  case (Cons a as)
  let ?t = "if a_class a = MTSum then extend_tuple_int target (to_int32 (d ! n)) else target"
  have n: "n < length d" "drop n d = d ! n # drop (Suc n) d" using Cons.prems(1) by (simp_all add: Cons_nth_drop_Suc)
  have "mt_add_to_tuple a (8 * n) d target = Inr ?t"
    using n by (simp add: mt_add_to_tuple_def split: AggClass.splits)
  moreover have "8 * n + mt_size a = 8 * Suc n" "8 * Suc n < pos_end" using Cons.prems by (simp_all add: mt_size_def)
  ultimately have "add_aggs (a # as) (8 * n) pos_end d target = add_aggs as (8 * Suc n) pos_end d ?t"
    by (simp add: Let_def del: mult_Suc_right)
  also have "\<dots> = Inr (?t \<lparr>e := e ?t @ agg_elements as (drop (Suc n) d)\<rparr>)"
    using Cons.prems by (intro Cons.IH) simp_all
  finally show ?case using n(2) by (simp add: agg_elements_def extend_tuple_int_def add_e_def)
qed

text \<open>
  Property C7: reading a cell of the in-memory cube after any sequence of insertions returns the
  dimensions and, for each count or sum, the sum of the field over the tuples of that cell,
  truncated to 32 bits.
\<close>

theorem mt_cell_value:
  assumes "kv_store kv" and "\<forall>k. kv_get kv m k = None" and "length (ci_aggregates im) < 500000000"
    and "\<forall>(k, t) \<in> set items. has_fields (ci_aggregates im) t"
    and "\<forall>j < length (ci_aggregates im). weight_sum (ci_aggregates im ! j) items \<le> 9223372036854775807"
    and "get_dimension_key im t levels = Inr k" and "c_str k \<in> c_str ` fst ` set items"
    and "extend_with_dims_from im empty_tuple t = Inr dt"
  shows "\<exists>m'. mt_process_all kv im items m = Inr m'
     \<and> mt_get_cell_value kv im t levels m'
         = Inr (Some (dt \<lparr>e := e dt @ agg_elements (ci_aggregates im) (map (\<lambda>a. cell_sum a k items) (ci_aggregates im))\<rparr>))"
proof -
  let ?as = "ci_aggregates im" and ?n = "length (ci_aggregates im)"
  have wf: "buffers_wf kv im m" using assms(2) by (simp add: buffers_wf_def)
  have z: "slot kv im m k' j = 0" if "j < ?n" for k' j
    using assms(2) that by (simp add: slot_def buffer_at_def alloc_buffer_def Let_def)
  obtain m' where m': "mt_process_all kv im items m = Inr m'" "buffers_wf kv im m'" "kv_get kv m' (c_str k) \<noteq> None"
      "\<forall>k. \<forall>j < ?n. slot kv im m' k j = slot kv im m k j + cell_sum (?as ! j) k items"
  proof -
    have "\<forall>k. \<forall>j < ?n. \<bar>slot kv im m k j\<bar> + weight_sum (?as ! j) items \<le> 9223372036854775807" using assms(5) z by simp
    from kv_store.process_all_slots [OF assms(1) wf assms(3,4) this] that assms(7) show ?thesis by blast
  qed
  then obtain b where b: "kv_get kv m' (c_str k) = Some b" by auto
  then have bw: "length (buf_data b) = ?n" "unat (buf_sz b) = 8 * ?n + 4" using m'(2) by (auto simp: buffers_wf_def)
  have "buf_data b ! j = cell_sum (?as ! j) k items" if "j < ?n" for j
    using m'(4) [rule_format, of j k] z [of j k] that b by (simp add: slot_def buffer_at_def)
  then have d: "buf_data b = map (\<lambda>a. cell_sum a k items) ?as" using bw(1) by (intro nth_equalityI) auto
  have "extend_with_aggs im dt b = Inr (dt \<lparr>e := e dt @ agg_elements ?as (buf_data b)\<rparr>)"
    using add_aggs_elements [of "buf_data b" 0 ?as "8 * ?n + 4" dt] bw by (simp add: extend_with_aggs_def)
  then show ?thesis using m'(1) b assms(6,8) d by (simp add: mt_get_cell_value_def cell_tuple_of_def)
qed

definition demo_items :: "(DimensionKey \<times> Tuple) list" where
  "demo_items = [(''a|1|b|1|'', demo_tuple ''a'' ''b'' 4), (''x|1|y|1|'', demo_tuple ''x'' ''y'' 9), (''a|1|b|1|'', demo_tuple ''a'' ''b'' 3)]"

lemma map_kv_store: "kv_store map_kv"
  by (rule map_tree.kv_store_axioms)

theorem mt_cell_value_witness:
  "\<exists>m'. mt_process_all map_kv demo_cube demo_items [] = Inr m'
     \<and> mt_get_cell_value map_kv demo_cube (demo_tuple ''a'' ''b'' 0) [1, 1] m' = Inr (Some (demo_tuple ''a'' ''b'' 7))"
proof -
  let ?t = "demo_tuple ''a'' ''b'' 0" and ?k = "''a|1|b|1|''"
  let ?dt = "\<lparr>e = [string_element ''a'', string_element ''b''], version = None\<rparr>"
  have k: "get_dimension_key demo_cube ?t [1, 1] = Inr ?k" by (simp add: demo_key show_nat_1)
  have dt: "extend_with_dims_from demo_cube empty_tuple ?t = Inr ?dt"
    by (simp add: extend_with_dims_from_def demo_cube_def dimension_offset_def get_dimension_def find_in_def map_find_Cons
        tuple_e_def demo_tuple_def add_e_def empty_tuple_def to_int32_id in_int_def INT_MIN_def INT_MAX_def)
  have "\<exists>m'. mt_process_all map_kv demo_cube demo_items [] = Inr m'
     \<and> mt_get_cell_value map_kv demo_cube ?t [1, 1] m'
         = Inr (Some (?dt \<lparr>e := e ?dt @ agg_elements (ci_aggregates demo_cube) (map (\<lambda>a. cell_sum a ?k demo_items) (ci_aggregates demo_cube))\<rparr>))"
    by (rule mt_cell_value [OF map_kv_store _ _ _ _ k _ dt])
      (simp_all add: map_kv_def demo_items_def demo_cube_def has_fields_def demo_tuple_def weight_sum_def slot_value_def
        mt_version_aggregate_def nth_Cons' get_i_val_def)
  moreover have "agg_elements (ci_aggregates demo_cube) (map (\<lambda>a. cell_sum a ?k demo_items) (ci_aggregates demo_cube)) = [int_element 7]"
    by code_simp
  ultimately show ?thesis by (simp add: demo_tuple_def)
qed

text \<open>Neither overload of \<^verbatim>\<open>save_tuple_batch\<close> writes anything, so that a flushed batch is lost.\<close>

theorem mt_batch_writes_nothing:
  "mt_save_tuple_batch_plain kv im ts nns nos (ns, os, m) = Inr (ns, os, m)
   \<and> (\<exists>ns os. mt_save_tuple_batch im ts ls nns nos m = Inr (ns, os, m))"
  by (simp add: mt_save_tuple_batch_plain_def mt_save_tuple_batch_def)

section \<open>Cube format and source format\<close>

abbreviation first_index :: "Dimension \<Rightarrow> int" where
  "first_index d \<equiv> hd (d_indexes d)"

text \<open>Every dimension is found under its name and reads one field of its own.\<close>

definition dims_wf :: "DataCubeImpl \<Rightarrow> bool" where
  "dims_wf c \<longleftrightarrow> length (ci_dimensions c) \<le> 2147483647 \<and> distinct (map first_index (ci_dimensions c))
     \<and> (\<forall>j < length (ci_dimensions c). map_find (d_name (ci_dimensions c ! j)) (dimensionMap c) = Some j
          \<and> length (d_indexes (ci_dimensions c ! j)) = 1 \<and> 0 \<le> first_index (ci_dimensions c ! j))"

lemma reorder_loop_fields:
  assumes "\<forall>d \<in> set ds. length (d_indexes d) = 1 \<and> 0 \<le> first_index d \<and> nat (first_index d) < length (e r)"
    and "i + length ds \<le> length (e t)" and "distinct (map first_index ds)"
  shows "\<exists>r'. reorder_loop i ds t r = Inr r' \<and> length (e r') = length (e r)
     \<and> (\<forall>j < length ds. e r' ! nat (first_index (ds ! j)) = e t ! (i + j))
     \<and> (\<forall>p. p \<notin> set (map (nat \<circ> first_index) ds) \<longrightarrow> e r' ! p = e r ! p)"
  using assms
proof (induction ds arbitrary: i r)
  case (Cons d ds)
  let ?ix = "first_index d"
  let ?r = "r \<lparr>e := (e r)[nat ?ix := e t ! i]\<rparr>"
  have d: "length (d_indexes d) = 1" "0 \<le> ?ix" "nat ?ix < length (e r)" "i < length (e t)" using Cons.prems(1,2) by auto
  then obtain ix where "d_indexes d = [ix]" by (auto simp: length_Suc_conv)
  then have step: "reorder_loop i (d # ds) t r = reorder_loop (Suc i) ds t ?r"
    using d by (simp add: tuple_element_count_def mutable_e_def tuple_e_def nthE_def)
  obtain r' where r': "reorder_loop (Suc i) ds t ?r = Inr r'" "length (e r') = length (e r)"
      "\<forall>j < length ds. e r' ! nat (first_index (ds ! j)) = e t ! (Suc i + j)"
      "\<forall>p. p \<notin> set (map (nat \<circ> first_index) ds) \<longrightarrow> e r' ! p = e ?r ! p"
    using Cons.IH [of ?r "Suc i"] Cons.prems by auto
  have "nat ?ix \<notin> set (map (nat \<circ> first_index) ds)"
    using Cons.prems(1,3) d(2) by (auto simp: nat_eq_iff2) (metis image_eqI nat_0_le)
  then have "e r' ! nat ?ix = e t ! i" using r'(4) d(3) by simp
  then have "e r' ! nat (first_index ((d # ds) ! j)) = e t ! (i + j)" if "j < length (d # ds)" for j
    using r'(3) that by (cases j) auto
  moreover have "e r' ! p = e r ! p" if "p \<notin> set (map (nat \<circ> first_index) (d # ds))" for p
    using r'(4) that by auto
  ultimately show ?case using step r'(1,2) by auto
qed auto

lemma min_len_fold:
  "n \<le> min_len_loop ds n \<and> (\<forall>d \<in> set ds. \<forall>m \<in> set (d_indexes d). m \<le> min_len_loop ds n)"
proof (induction ds arbitrary: n)
  case (Cons d ds)
  have f: "n \<le> fold max ms n \<and> (\<forall>m \<in> set ms. m \<le> fold max ms n)" for ms and n :: int
  proof (induction ms arbitrary: n)
    case (Cons m ms)
    show ?case using Cons.IH [of "max m n"] by auto
  qed simp
  show ?case using Cons.IH [of "fold max (d_indexes d) n"] f [of n "d_indexes d"]
    by (force simp: min_len_loop_def)
qed (simp add: min_len_loop_def)

lemma extend_dims_fields:
  assumes "dims_wf c" and "\<forall>d \<in> set ds. d \<in> set (ci_dimensions c) \<and> nat (first_index d) < length (e r)"
  shows "foldE (\<lambda>d target. bindE (dimension_offset c (d_name d)) (\<lambda>idx. bindE (nthE idx 0) (\<lambda>i.
       bindE (tuple_e r i) (\<lambda>x. Inr (add_e target x))))) ds target
     = Inr (target \<lparr>e := e target @ map (\<lambda>d. e r ! nat (first_index d)) ds\<rparr>)"
  using assms(2)
proof (induction ds arbitrary: target)
  case (Cons d ds)
  obtain j where j: "j < length (ci_dimensions c)" "ci_dimensions c ! j = d" using Cons.prems by (auto simp: in_set_conv_nth)
  have w: "map_find (d_name d) (dimensionMap c) = Some j" "length (d_indexes d) = 1" "0 \<le> first_index d"
    using assms(1) j by (auto simp: dims_wf_def)
  then obtain ix where ix: "d_indexes d = [ix]" by (auto simp: length_Suc_conv)
  have "in_int (int j)" using assms(1) j(1) by (simp add: dims_wf_def in_int_def INT_MIN_def INT_MAX_def)
  then have "dimension_offset c (d_name d) = Inr [first_index d]"
    using w(1) j ix by (simp add: dimension_offset_def get_dimension_def find_in_def to_int32_id)
  moreover have "tuple_e r (first_index d) = Inr (e r ! nat (first_index d))" using Cons.prems w(3) by (simp add: tuple_e_def)
  ultimately show ?case using Cons by (simp add: add_e_def)
qed simp

text \<open>
  Property C37: turning a tuple in cube format into the format of the source and reading its
  dimensions back gives the dimensions it had.
\<close>

theorem source_format_roundtrip:
  assumes "dims_wf c" and "num_dimensions c \<le> length (e t)" and "src_tuple_min_len c = 0"
  shows "\<exists>r c'. get_sourceformat_tuple c t = Inr (r, c')
     \<and> extend_with_dims_from c empty_tuple r = Inr \<lparr>e = take (num_dimensions c) (e t), version = None\<rparr>"
proof -
  let ?ds = "ci_dimensions c" and ?n = "min_len_loop (ci_dimensions c) 0"
  let ?r = "\<lparr>e = replicate (nat (?n + 1)) empty_element, version = None\<rparr>"
  have d: "length (d_indexes d) = 1" "0 \<le> first_index d" if "d \<in> set ?ds" for d
    using assms(1) that by (auto simp: dims_wf_def in_set_conv_nth)
  have "first_index d \<le> ?n" if "d \<in> set ?ds" for d
  proof -
    have "first_index d \<in> set (d_indexes d)" using d(1) [OF that] by (cases "d_indexes d") auto
    then show ?thesis using min_len_fold [where ds = ?ds and n = 0] that by blast
  qed
  then have b: "\<forall>d \<in> set ?ds. length (d_indexes d) = 1 \<and> 0 \<le> first_index d \<and> nat (first_index d) < length (e ?r)"
    using d by fastforce
  obtain r where r: "reorder_loop 0 ?ds t ?r = Inr r" "length (e r) = length (e ?r)"
      "\<forall>j < length ?ds. e r ! nat (first_index (?ds ! j)) = e t ! j"
    using reorder_loop_fields [OF b, of 0 t] assms(1,2) by (auto simp: dims_wf_def num_dimensions_def)
  have "map (\<lambda>d. e r ! nat (first_index d)) ?ds = take (length ?ds) (e t)"
    using r(3) assms(2) by (intro nth_equalityI) (auto simp: num_dimensions_def)
  then have "extend_with_dims_from c empty_tuple r = Inr \<lparr>e = take (num_dimensions c) (e t), version = None\<rparr>"
    using extend_dims_fields [OF assms(1), of ?ds r empty_tuple] b r(2)
    by (simp add: extend_with_dims_from_def empty_tuple_def num_dimensions_def)
  moreover have "get_sourceformat_tuple c t = Inr (r, c \<lparr>src_tuple_min_len := ?n\<rparr>)"
    using r(1) assms(3) by (simp add: get_sourceformat_tuple_def Let_def)
  ultimately show ?thesis by blast
qed

definition swapped_cube :: DataCubeImpl where
  "swapped_cube = demo_cube \<lparr>ci_dimensions :=
     [\<lparr>d_name = ''url'', d_type = DIM_STRING, d_indexes = [3]\<rparr>, \<lparr>d_name = ''host'', d_type = DIM_STRING, d_indexes = [1]\<rparr>]\<rparr>"

theorem source_format_roundtrip_witness:
  "\<exists>r c'. get_sourceformat_tuple swapped_cube (demo_tuple ''a'' ''b'' 5) = Inr (r, c')
     \<and> extend_with_dims_from swapped_cube empty_tuple r
       = Inr \<lparr>e = take (num_dimensions swapped_cube) (e (demo_tuple ''a'' ''b'' 5)), version = None\<rparr>"
  by (rule source_format_roundtrip)
    (auto simp: dims_wf_def swapped_cube_def demo_cube_def num_dimensions_def demo_tuple_def map_find_Cons less_Suc_eq)

end
