(* ===== verification/JS_Subscribers.thy ===== *)
theory JS_Subscribers
  imports JS_Cube JS_Operators
begin

text \<open>
  Subscribers of a cube (\<^verbatim>\<open>dataplane/subscriber.cc\<close>, \<^verbatim>\<open>dataplane/querier.h\<close>,
  \<^verbatim>\<open>dataplane/base_subscribers.cc\<close>, \<^verbatim>\<open>dataplane/filter_subscriber.cc\<close>): the querier that reads a slice
  of the cube, and the subscribers that query once, periodically by time window, or with a window
  that widens under congestion.  The cube's queries are arguments (\<^verbatim>\<open>QueryOps\<close>), the clock too.
  What a subscriber sends into its chain is a list of pairs of a buffer and a message.
\<close>

section \<open>Querier\<close>

record 'b QueryOps =
  slice_query :: "Tuple \<Rightarrow> Tuple \<Rightarrow> bool \<Rightarrow> string list \<Rightarrow> u64 \<Rightarrow> 'b \<Rightarrow> Tuple list"
  slice_and_rollup :: "u32 list \<Rightarrow> Tuple \<Rightarrow> Tuple \<Rightarrow> string list \<Rightarrow> u64 \<Rightarrow> 'b \<Rightarrow> Tuple list"

record Querier =
  q_min :: Tuple
  q_max :: Tuple
  q_rollup_levels :: "u32 list"
  q_id :: operator_id_t
  q_sort_order :: "string list"
  q_num_results :: int

definition new_Querier :: Querier where
  "new_Querier = \<lparr>q_min = empty_tuple, q_max = empty_tuple, q_rollup_levels = [], q_id = default_operator_id,
     q_sort_order = [], q_num_results = 0\<rparr>"

definition get_rollup_level_array :: "string \<Rightarrow> u32 list \<Rightarrow> u32 list res" where
  "get_rollup_level_array as_str levels = bindE (mapE lexical_u32 (split_commas as_str)) (\<lambda>ls. Inr (levels @ ls))"

text \<open>The parser of a serialized tuple is the protobuf library's, an argument.\<close>

definition querier_configure ::
  "(string \<Rightarrow> Tuple) \<Rightarrow> op_config \<Rightarrow> operator_id_t \<Rightarrow> Querier \<Rightarrow> Querier res" where
  "querier_configure parse cfg i q =
     (let mn = parse (cfg_get cfg ''slice_tuple'');
          q1 = q \<lparr>q_id := i, q_min := mn, q_max := mn, q_num_results := 0\<rparr>
      in bindE (case cfg ''num_results'' of None \<Rightarrow> Inr q1
                | Some v \<Rightarrow> bindE (lexical_int v) (\<lambda>n. Inr (q1 \<lparr>q_num_results := n\<rparr>))) (\<lambda>q2.
         let q3 = (case cfg ''sort_order'' of None \<Rightarrow> q2
                   | Some v \<Rightarrow> q2 \<lparr>q_sort_order := q_sort_order q2 @ split_commas v\<rparr>) in
         case cfg ''rollup_levels'' of None \<Rightarrow> Inr q3
         | Some v \<Rightarrow> bindE (get_rollup_level_array v (q_rollup_levels q3)) (\<lambda>ls. Inr (q3 \<lparr>q_rollup_levels := ls\<rparr>))))"

definition do_query :: "'b QueryOps \<Rightarrow> Querier \<Rightarrow> 'b \<Rightarrow> Tuple list" where
  "do_query qo q st =
     (if q_rollup_levels q \<noteq> []
      then slice_and_rollup qo (q_rollup_levels q) (q_min q) (q_max q) (q_sort_order q) (word_of_int (q_num_results q)) st
      else slice_query qo (q_min q) (q_max q) True (q_sort_order q) (word_of_int (q_num_results q)) st)"

definition LEAF_LEVEL :: u32 where
  "LEAF_LEVEL = 100000"

definition set_rollup_level :: "DataCubeImpl \<Rightarrow> int \<Rightarrow> u32 \<Rightarrow> Querier \<Rightarrow> Querier res" where
  "set_rollup_level im field_id r_level q =
     (let ls = (if q_rollup_levels q = [] then replicate (length (e (q_min q))) LEAF_LEVEL else q_rollup_levels q);
          pos = unat (word_of_int field_id :: u32)
      in assertE (pos < length ls)
        (bindE (is_unrolled im (ls[pos := r_level])) (\<lambda>u.
         Inr (q \<lparr>q_rollup_levels := if u then [] else ls[pos := r_level]\<rparr>))))"

definition set_rollup_levels :: "Querier \<Rightarrow> DataplaneMessage \<Rightarrow> DataplaneMessage" where
  "set_rollup_levels q m = m \<lparr>rollup_levels := rollup_levels m @ map sint (q_rollup_levels q)\<rparr>"

section \<open>Buffers sent into the chain\<close>

type_synonym emission = "(Tuple list \<times> DataplaneMessage) list"

definition TUPLES_PER_BUFFER :: nat where
  "TUPLES_PER_BUFFER = 1000"

text \<open>
  The loop over a query's result: it fills a buffer and hands it on when it is full.  What is left
  at the end is the second component.
\<close>

fun buffer_loop :: "(nat \<Rightarrow> bool) \<Rightarrow> Tuple list \<Rightarrow> Tuple list \<Rightarrow> Tuple list list \<times> Tuple list" where
  "buffer_loop full [] buf = ([], buf)"
| "buffer_loop full (t # ts) buf = (let b = buf @ [t] in
     if full (length b) then (let (out, rest) = buffer_loop full ts [] in (b # out, rest))
     else buffer_loop full ts b)"

text \<open>A message whose type is not set reads as the first value of the enumeration.\<close>

definition no_msg :: DataplaneMessage where
  "no_msg = mk_msg DP_ERROR"

section \<open>StrandedSubscriber\<close>

text \<open>
  A subscriber that runs on a strand of its own, woken by a timer.  \<^verbatim>\<open>ss_armed\<close> counts the timer
  callbacks that will still be delivered; \<^verbatim>\<open>ss_state\<close> is the state of the subclass, whose
  \<^verbatim>\<open>emit_batch\<close> is an argument.
\<close>

record 's StrandedSubscriber =
  ss_has_cube :: bool
  ss_running :: bool
  ss_armed :: nat
  ss_chain :: bool
  ss_subscribed :: bool
  ss_state :: 's

definition new_StrandedSubscriber :: "'s \<Rightarrow> 's StrandedSubscriber" where
  "new_StrandedSubscriber s = \<lparr>ss_has_cube = False, ss_running = False, ss_armed = 0, ss_chain = False,
     ss_subscribed = False, ss_state = s\<rparr>"

definition stranded_start :: "('s \<Rightarrow> Querier) \<Rightarrow> CubeSchema \<Rightarrow> 's StrandedSubscriber \<Rightarrow> 's StrandedSubscriber res" where
  "stranded_start querier sch s =
     (if \<not> ss_has_cube s then Inr s
      else if length (e (q_min (querier (ss_state s)))) \<noteq> length (dimensions sch) then Inl LogFatal
      else checkE (ss_chain s) NullDeref (Inr (s \<lparr>ss_running := True, ss_armed := Suc (ss_armed s)\<rparr>)))"

text \<open>Cancelling a timer still delivers its callback.\<close>

definition stranded_chain_stopping :: "'s StrandedSubscriber \<Rightarrow> 's StrandedSubscriber" where
  "stranded_chain_stopping s = (if ss_running s then s \<lparr>ss_running := False, ss_chain := False\<rparr> else s)"

definition stop_from_subscriber :: "'s StrandedSubscriber \<Rightarrow> 's StrandedSubscriber" where
  "stop_from_subscriber s = s \<lparr>ss_running := False\<rparr>"

text \<open>
  One delivered callback.  Stopping the chain calls back into \<^verbatim>\<open>chain_stopping\<close> of its members, this
  subscriber included.
\<close>

definition stranded_emit_wrapper ::
  "('s \<Rightarrow> (int \<times> 's) res) \<Rightarrow> 's StrandedSubscriber \<Rightarrow> 's StrandedSubscriber res" where
  "stranded_emit_wrapper emit_batch s =
     (let s1 = s \<lparr>ss_armed := ss_armed s - 1\<rparr>;
          tear_down = (\<lambda>s. (if ss_chain s then stranded_chain_stopping s else s) \<lparr>ss_subscribed := False\<rparr>)
      in if ss_running s1 then
           bindE (emit_batch (ss_state s1)) (\<lambda>(delay_to_next, d).
             let s2 = s1 \<lparr>ss_state := d\<rparr> in
             Inr (if delay_to_next \<ge> 0 then s2 \<lparr>ss_armed := Suc (ss_armed s2)\<rparr> else tear_down s2))
         else Inr (tear_down s1))"

section \<open>OneShotSubscriber\<close>

record OneShot =
  os_querier :: Querier
  os_sent :: emission

definition oneshot_configure :: "(string \<Rightarrow> Tuple) \<Rightarrow> operator_id_t \<Rightarrow> op_config \<Rightarrow> OneShot \<Rightarrow> OneShot res" where
  "oneshot_configure parse i cfg s = bindE (querier_configure parse cfg i (os_querier s)) (\<lambda>q. Inr (s \<lparr>os_querier := q\<rparr>))"

definition oneshot_emit_batch :: "'b QueryOps \<Rightarrow> 'b \<Rightarrow> OneShot \<Rightarrow> (int \<times> OneShot) res" where
  "oneshot_emit_batch qo st s =
     (let (bufs, rest) = buffer_loop (\<lambda>n. n \<ge> TUPLES_PER_BUFFER) (do_query qo (os_querier s) st) [] in
      Inr (- 1, s \<lparr>os_sent := os_sent s @ map (\<lambda>b. (b, no_msg)) bufs @ (if rest \<noteq> [] then [(rest, no_msg)] else [])\<rparr>))"

section \<open>TimeBasedSubscriber\<close>

text \<open>The wall clock \<^verbatim>\<open>time(NULL)\<close> is an argument; a simulator runs faster from a given start.\<close>

datatype TimeTeller = RealTime | TimeSimulator (real_start: int) (sim_start: int) (sim_rate: int)

definition tt_now :: "TimeTeller \<Rightarrow> int \<Rightarrow> int" where
  "tt_now tt wall = (case tt of RealTime \<Rightarrow> wall
     | TimeSimulator real_st sim_st rate \<Rightarrow> sim_st + rate * (wall - real_st))"

record TimeSub =
  ts_querier :: Querier
  start_ts :: int
  ts_field :: int
  ts_input_tuple_index :: int
  latency_ts_field :: int
  backfill_tuples :: int
  last_backfill_time :: int
  regular_tuples :: int
  windowSizeMs :: int
  windowOffsetMs :: int
  next_window_start_time :: int
  backfill_old_window :: int
  regular_old_window :: int
  ts_tt :: TimeTeller
  times :: "(nat, int) stdmap"

text \<open>The fields the constructor leaves uninitialised are arguments.\<close>

definition new_TimeSub :: "int \<Rightarrow> int \<Rightarrow> int \<Rightarrow> int \<Rightarrow> TimeSub" where
  "new_TimeSub st lbt wsz wo = \<lparr>ts_querier = new_Querier, start_ts = st, ts_field = - 1, ts_input_tuple_index = - 1,
     latency_ts_field = - 1, backfill_tuples = 0, last_backfill_time = lbt, regular_tuples = 0, windowSizeMs = wsz,
     windowOffsetMs = wo, next_window_start_time = 0, backfill_old_window = 0, regular_old_window = 0,
     ts_tt = RealTime, times = []\<rparr>"

definition set_t_val :: "Tuple \<Rightarrow> int \<Rightarrow> int \<Rightarrow> Tuple res" where
  "set_t_val t i v = mutable_e t i (\<lambda>x. Inr (x \<lparr>t_val := Some (to_int32 v)\<rparr>))"

text \<open>
  What a tuple means for the current window: before its start it is late.  The latency that is
  logged reads one more field of the tuple.
\<close>

definition time_action_on_tuple :: "Tuple \<Rightarrow> TimeSub \<Rightarrow> (Action \<times> TimeSub) res" where
  "time_action_on_tuple update s =
     (if ts_input_tuple_index s \<ge> 0 then
        bindE (tuple_e update (ts_input_tuple_index s)) (\<lambda>x.
        bindE (if latency_ts_field s \<ge> 0 then bindE (tuple_e update (latency_ts_field s)) (\<lambda>_. Inr ()) else Inr ()) (\<lambda>_.
        if get_t_val x < next_window_start_time s
        then bindE (intE (backfill_tuples s + 1)) (\<lambda>n. Inr (SEND_UPDATE, s \<lparr>backfill_tuples := n, last_backfill_time := get_t_val x\<rparr>))
        else bindE (intE (regular_tuples s + 1)) (\<lambda>n. Inr (SEND, s \<lparr>regular_tuples := n\<rparr>))))
      else Inr (SEND, s))"

definition DEFAULT_WINDOW_OFFSET :: int where
  "DEFAULT_WINDOW_OFFSET = 100"

definition read_time :: "string \<Rightarrow> int \<times> bool" where
  "read_time s = (case stream_integer s of None \<Rightarrow> (0, False)
     | Some (i, _) \<Rightarrow> if in_time_t i then (i, True)
         else (if i < 0 then - 9223372036854775808 else 9223372036854775807, False))"

text \<open>The options are read in order, an error ends the configuration; the first component is the error.\<close>

definition cfg_window_size :: "op_config \<Rightarrow> TimeSub \<Rightarrow> operator_err_t \<times> TimeSub" where
  "cfg_window_size cfg s = (case cfg ''window_size'' of None \<Rightarrow> ([], s \<lparr>windowSizeMs := 1000\<rparr>)
     | Some v \<Rightarrow> (case read_int v of (n, ok) \<Rightarrow>
         (if ok then [] else ''windowSizeMs must be an int'', s \<lparr>windowSizeMs := n\<rparr>)))"

definition cfg_start_ts :: "int \<Rightarrow> op_config \<Rightarrow> TimeSub \<Rightarrow> (operator_err_t \<times> TimeSub) res" where
  "cfg_start_ts wall cfg s = (case cfg ''start_ts'' of None \<Rightarrow> Inr ([], s \<lparr>start_ts := wall\<rparr>)
     | Some v \<Rightarrow> (case read_time v of (n, ok) \<Rightarrow>
         if ok then bindE (lexical_time v) (\<lambda>t. Inr ([], s \<lparr>start_ts := t\<rparr>))
         else Inr (''start_ts must be an int'', s \<lparr>start_ts := n\<rparr>)))"

definition cfg_ts_field :: "op_config \<Rightarrow> TimeSub \<Rightarrow> (operator_err_t \<times> TimeSub) res" where
  "cfg_ts_field cfg s = (case cfg ''ts_field'' of None \<Rightarrow> Inr ([], s \<lparr>ts_field := - 1\<rparr>)
     | Some v \<Rightarrow> bindE (lexical_int v) (\<lambda>n.
         let s1 = s \<lparr>ts_field := n\<rparr>; q = ts_querier s1; sz = int (length (e (q_min q))) in
         if sz \<le> n
         then Inr (''can't use field '' @ show_int n @ '' as time; input only has '' @ show_int sz @ '' fields'', s1)
         else bindE (set_t_val (q_min q) n (start_ts s1)) (\<lambda>t. Inr ([], s1 \<lparr>ts_querier := q \<lparr>q_min := t\<rparr>\<rparr>))))"

definition cfg_latency_field :: "op_config \<Rightarrow> TimeSub \<Rightarrow> TimeSub res" where
  "cfg_latency_field cfg s = (case cfg ''latency_ts_field'' of None \<Rightarrow> Inr (s \<lparr>latency_ts_field := - 1\<rparr>)
     | Some v \<Rightarrow> bindE (lexical_int v) (\<lambda>n. Inr (s \<lparr>latency_ts_field := n\<rparr>)))"

definition cfg_window_offset :: "op_config \<Rightarrow> TimeSub \<Rightarrow> operator_err_t \<times> TimeSub" where
  "cfg_window_offset cfg s = (let s1 = s \<lparr>windowOffsetMs := DEFAULT_WINDOW_OFFSET\<rparr>; v = cfg_get cfg ''window_offset'' in
     if v = [] then ([], s1)
     else case read_int v of (n, ok) \<Rightarrow> (if ok then [] else ''window_offset must be a number'', s1 \<lparr>windowOffsetMs := n\<rparr>))"

definition cfg_simulation :: "int \<Rightarrow> op_config \<Rightarrow> TimeSub \<Rightarrow> TimeSub res" where
  "cfg_simulation wall cfg s = (case cfg ''simulation_rate'' of None \<Rightarrow> Inr (s \<lparr>ts_tt := RealTime\<rparr>)
     | Some v \<Rightarrow> bindE (lexical_time v) (\<lambda>t. let rate = to_int32 t in
         bindE (intE (windowOffsetMs s * rate)) (\<lambda>off.
         Inr (s \<lparr>windowOffsetMs := off, ts_tt := TimeSimulator wall (start_ts s) rate\<rparr>))))"

definition time_configure ::
  "(string \<Rightarrow> Tuple) \<Rightarrow> operator_id_t \<Rightarrow> int \<Rightarrow> op_config \<Rightarrow> TimeSub \<Rightarrow> (operator_err_t \<times> TimeSub) res" where
  "time_configure parse i wall cfg s =
     bindE (querier_configure parse cfg i (ts_querier s)) (\<lambda>q.
     case cfg_window_size cfg (s \<lparr>ts_querier := q\<rparr>) of (err1, s1) \<Rightarrow> if err1 \<noteq> [] then Inr (err1, s1) else
     bindE (cfg_start_ts wall cfg s1) (\<lambda>(err2, s2). if err2 \<noteq> [] then Inr (err2, s2) else
     bindE (cfg_ts_field cfg s2) (\<lambda>(err3, s3). if err3 \<noteq> [] then Inr (err3, s3) else
     bindE (cfg_latency_field cfg s3) (\<lambda>s4.
     case cfg_window_offset cfg s4 of (err5, s5) \<Rightarrow> if err5 \<noteq> [] then Inr (err5, s5) else
     bindE (cfg_simulation wall cfg s5) (\<lambda>s6. Inr ([], s6))))))"

definition time_start :: "CubeSchema \<Rightarrow> TimeSub StrandedSubscriber \<Rightarrow> TimeSub StrandedSubscriber res" where
  "time_start sch ss = (let s = ss_state ss in
     bindE (if ts_field s \<ge> 0
            then bindE (nthE (dimensions sch) (nat (ts_field s))) (\<lambda>d. nthE (dim_tuple_indexes d) 0)
            else Inr (- 1)) (\<lambda>i.
     stranded_start ts_querier sch (ss \<lparr>ss_state := s \<lparr>ts_input_tuple_index := i\<rparr>\<rparr>)))"

definition get_window_offset_sec :: "TimeSub \<Rightarrow> u32 res" where
  "get_window_offset_sec s =
     bindE (if q_rollup_levels (ts_querier s) = [] then Inr 0
            else if ts_field s < 0 then Inl OutOfBounds
            else bindE (nthE (q_rollup_levels (ts_querier s)) (nat (ts_field s))) (\<lambda>time_level.
              if unat time_level < DTC_LEVEL_COUNT - 1
              then bindE (nthE DTC_SECS_PER_LEVEL (unat time_level)) (\<lambda>secs. Inr (min 3600 secs))
              else Inr 0)) (\<lambda>level_offset_sec.
     bindE (intE (windowOffsetMs s + 999)) (\<lambda>ms. Inr (word_of_int (tdiv ms 1000) + level_offset_sec)))"

definition time_incoming_meta :: "nat \<Rightarrow> DataplaneMessage \<Rightarrow> TimeSub \<Rightarrow> TimeSub" where
  "time_incoming_meta c msg s =
     (case window_end msg of
        Some w \<Rightarrow> if dp_type msg = END_OF_WINDOW
          then s \<lparr>times := map_set c (max (uint w) (case map_find c (times s) of Some t \<Rightarrow> t | None \<Rightarrow> 0)) (times s)\<rparr>
          else if dp_type msg = NO_MORE_DATA then s \<lparr>times := map_erase c (times s)\<rparr> else s
      | None \<Rightarrow> if dp_type msg = NO_MORE_DATA then s \<lparr>times := map_erase c (times s)\<rparr> else s)"

definition TIME_T_MAX :: int where
  "TIME_T_MAX = 9223372036854775807"

text \<open>
  The end of the next window, handed to the cube as the number of a flush.  The base class does
  not respond to congestion: the loop in its \<^verbatim>\<open>respond_to_congestion\<close> is never entered.
\<close>

definition time_new_max :: "int \<Rightarrow> TimeSub \<Rightarrow> int res" where
  "time_new_max wall s =
     (if ts_field s \<ge> 0 then bindE (get_window_offset_sec s) (\<lambda>off.
        let newMax = tt_now (ts_tt s) wall - uint off in
        Inr (if times s \<noteq> [] then max newMax (fold (\<lambda>(_, t) m. min m t) (times s) TIME_T_MAX) else newMax))
      else Inr 0)"

definition time_emit_batch :: "int \<Rightarrow> TimeSub \<Rightarrow> (int \<times> u32) res" where
  "time_emit_batch wall s = bindE (time_new_max wall s) (\<lambda>newMax. Inr (windowSizeMs s, word_of_int newMax))"

definition update_backfill_stats :: "TimeSub \<Rightarrow> TimeSub" where
  "update_backfill_stats s = s \<lparr>backfill_old_window := backfill_tuples s, regular_old_window := regular_tuples s\<rparr>"

text \<open>When the flush is through: query the window, send it, move the window on.\<close>

definition time_post_flush :: "'b QueryOps \<Rightarrow> u32 \<Rightarrow> 'b \<Rightarrow> TimeSub \<Rightarrow> (emission \<times> TimeSub) res" where
  "time_post_flush qo newMax st s =
     bindE (if newMax > 0
            then bindE (set_t_val (q_max (ts_querier s)) (ts_field s) (uint newMax)) (\<lambda>t.
              Inr ((mk_msg END_OF_WINDOW) \<lparr>window_end := Some newMax\<rparr>, s \<lparr>ts_querier := (ts_querier s) \<lparr>q_max := t\<rparr>\<rparr>))
            else Inr (mk_msg END_OF_WINDOW, s)) (\<lambda>(end_msg, s1).
     let (bufs, rest) = buffer_loop (\<lambda>n. n > TUPLES_PER_BUFFER) (do_query qo (ts_querier s1) st) [];
         out = map (\<lambda>b. (b, no_msg)) bufs @ [(rest, end_msg \<lparr>window_length_ms := Some (windowSizeMs s1)\<rparr>)];
         s2 = update_backfill_stats s1
     in if ts_field s2 \<ge> 0 then
          bindE (tuple_e (q_max (ts_querier s2)) (ts_field s2)) (\<lambda>x.
          bindE (intE (get_t_val x + 1)) (\<lambda>next.
          bindE (set_t_val (q_min (ts_querier s2)) (ts_field s2) next) (\<lambda>t.
          Inr (out, s2 \<lparr>next_window_start_time := next, ts_querier := (ts_querier s2) \<lparr>q_min := t\<rparr>\<rparr>))))
        else Inr (out, s2))"

section \<open>VariableCoarseningSubscriber\<close>

record 'm CoarseSub = TimeSub +
  vc_id :: operator_id_t
  vc_policy :: "'m CongestionPolicy option"
  vc_cur_level :: int
  rollup_data_ratios :: "double list"
  rollup_time_periods :: "u32 list"

text \<open>
  The policy chooses a level, the window and the rollup of the time dimension follow.  The first
  component is the time the subscriber then sleeps, in microseconds.
\<close>

definition coarsen_to :: "DataCubeImpl \<Rightarrow> int \<Rightarrow> 'm CoarseSub \<Rightarrow> (int \<times> 'm CoarseSub) res" where
  "coarsen_to im lvl s =
     bindE (if lvl < 0 then Inl OutOfBounds else nthE (rollup_time_periods s) (nat lvl)) (\<lambda>period.
     let change_in_window = sint (period * 1000 - word_of_int (windowSizeMs s));
         s1 = s \<lparr>vc_cur_level := lvl, windowSizeMs := sint (period * 1000)\<rparr>
     in bindE (if ts_field s1 \<ge> 0
               then bindE (set_rollup_level im (ts_field s1)
                        (word_of_int (lvl + (int DTC_LEVEL_COUNT - int (length (rollup_data_ratios s1))))) (ts_querier s1))
                      (\<lambda>q. Inr (s1 \<lparr>ts_querier := q\<rparr>))
               else Inr s1) (\<lambda>s2.
        bindE (if change_in_window > 0 then intE (1000 * change_in_window) else Inr 0) (\<lambda>sleep. Inr (sleep, s2))))"

definition coarse_respond_to_congestion ::
  "msec_t \<Rightarrow> ('m \<Rightarrow> msec_t) \<Rightarrow> ('m \<Rightarrow> (double \<times> 'm) res) \<Rightarrow> 'm option option \<Rightarrow> DataCubeImpl \<Rightarrow> 'm CoarseSub \<Rightarrow>
   (int \<times> 'm CoarseSub) res" where
  "coarse_respond_to_congestion now mtime cap chain_mon im s =
     (case vc_policy s of None \<Rightarrow> Inl NullDeref | Some pol \<Rightarrow>
        bindE (get_step now mtime cap chain_mon (vc_id s) (rollup_data_ratios s) (of_nat (length (rollup_data_ratios s)))
            (word_of_int (vc_cur_level s)) pol) (\<lambda>(delta, pol').
        let s1 = s \<lparr>vc_policy := Some pol'\<rparr> in
        if delta \<noteq> 0 then bindE (intE (vc_cur_level s1 + delta)) (\<lambda>lvl. coarsen_to im lvl s1)
        else Inr (0, s1)))"

definition push_levels :: "u32 \<Rightarrow> 'm CoarseSub \<Rightarrow> 'm CoarseSub" where
  "push_levels max_window_size s = (let ls = filter (\<lambda>secs. secs \<le> max_window_size) DTC_SECS_PER_LEVEL in
     s \<lparr>rollup_data_ratios := rollup_data_ratios s @ map (\<lambda>secs. ddiv (Fin 1) (dof_int (uint secs))) ls,
       rollup_time_periods := rollup_time_periods s @ ls\<rparr>)"

definition coarse_configure ::
  "(string \<Rightarrow> Tuple) \<Rightarrow> int \<Rightarrow> op_config \<Rightarrow> 'm CoarseSub \<Rightarrow> (operator_err_t \<times> 'm CoarseSub) res" where
  "coarse_configure parse wall cfg s =
     bindE (time_configure parse (vc_id s) wall cfg (TimeSub.truncate s)) (\<lambda>(base_err, b).
     let s1 = TimeSub.extend b (TimeSub.more s) in
     if base_err \<noteq> [] then Inr (base_err, s1)
     else let v = cfg_get cfg ''max_window_size'' in
       case (if v = [] then Some 300 else stream_u32 v) of
         None \<Rightarrow> Inr (''max_window_size must be a number'', s1)
       | Some max_window_size \<Rightarrow>
           (let s2 = push_levels max_window_size s1 in
            Inr ([], s2 \<lparr>vc_cur_level := int (length (rollup_data_ratios s2)) - 1\<rparr>)))"

section \<open>DelayedOneShotSubscriber\<close>

text \<open>
  It waits for every chain into the cube to end and asks for a flush then; after the flush it
  queries once and stops.  The clock's reading is an argument.
\<close>

record DelayedSub = OneShot +
  dl_times :: "(nat, msec_t) stdmap"
  former_chains :: "(nat, bool) stdmap"
  subsc_start :: msec_t
  first_data :: msec_t
  first_close :: msec_t
  last_close :: msec_t
  query_running :: msec_t

definition new_DelayedSub :: DelayedSub where
  "new_DelayedSub = \<lparr>os_querier = new_Querier, os_sent = [], dl_times = [], former_chains = [], subsc_start = 0,
     first_data = 0, first_close = 0, last_close = 0, query_running = 0\<rparr>"

text \<open>A null chain pointer is a key of the map like any other.\<close>

definition chain_ptr :: "nat option \<Rightarrow> nat" where
  "chain_ptr c = (case c of None \<Rightarrow> 0 | Some n \<Rightarrow> Suc n)"

definition delayed_configure ::
  "msec_t \<Rightarrow> (string \<Rightarrow> Tuple) \<Rightarrow> operator_id_t \<Rightarrow> op_config \<Rightarrow> DelayedSub \<Rightarrow> DelayedSub res" where
  "delayed_configure now parse i cfg s = (let s1 = s \<lparr>subsc_start := now\<rparr> in
     bindE (oneshot_configure parse i cfg (OneShot.truncate s1)) (\<lambda>b. Inr (OneShot.extend b (OneShot.more s1))))"

definition delayed_emit_batch :: "DelayedSub \<Rightarrow> (int \<times> DelayedSub) res" where
  "delayed_emit_batch s = Inr (10 * 1000, s)"

definition delayed_action_on_tuple :: "msec_t \<Rightarrow> nat option \<Rightarrow> DelayedSub \<Rightarrow> Action \<times> DelayedSub" where
  "delayed_action_on_tuple now chain s =
     (SEND, if \<not> map_has (chain_ptr chain) (dl_times s) \<and> \<not> map_has (chain_ptr chain) (former_chains s)
       then s \<lparr>first_data := if first_data s = 0 then now else first_data s,
               dl_times := map_set (chain_ptr chain) now (dl_times s)\<rparr>
       else s)"

definition delayed_incoming_meta ::
  "msec_t \<Rightarrow> nat \<Rightarrow> DataplaneMessage \<Rightarrow> u32 \<Rightarrow> DelayedSub \<Rightarrow> u32 option \<times> DelayedSub" where
  "delayed_incoming_meta now chain msg chains_in s =
     (let k = chain_ptr (Some chain);
          s1 = (if dp_type msg = END_OF_WINDOW then s \<lparr>dl_times := map_set k now (dl_times s)\<rparr>
                else if dp_type msg = NO_MORE_DATA then
                  s \<lparr>dl_times := map_erase k (dl_times s), former_chains := map_set k True (former_chains s),
                    first_close := if first_close s = 0 then now else first_close s\<rparr>
                else s)
      in if chains_in = 0 then (Some 0, s1 \<lparr>last_close := now\<rparr>) else (None, s1))"

definition delayed_post_flush ::
  "'b QueryOps \<Rightarrow> msec_t \<Rightarrow> 'b \<Rightarrow> DelayedSub StrandedSubscriber \<Rightarrow> DelayedSub StrandedSubscriber res" where
  "delayed_post_flush qo now st ss = (let s = (ss_state ss) \<lparr>query_running := now\<rparr> in
     bindE (oneshot_emit_batch qo st (OneShot.truncate s)) (\<lambda>(_, b).
     Inr (stop_from_subscriber (ss \<lparr>ss_state := OneShot.extend b (OneShot.more s)\<rparr>))))"

section \<open>QueueSubscriber\<close>

record QueueSub =
  returnAction :: Action
  need_new :: bool
  need_old :: bool
  insert_q :: "Tuple option list"
  update_q :: "Tuple option list"

definition new_QueueSub :: QueueSub where
  "new_QueueSub = \<lparr>returnAction = SEND, need_new = True, need_old = True, insert_q = [], update_q = []\<rparr>"

definition queue_action_on_tuple :: "QueueSub \<Rightarrow> Action \<times> QueueSub" where
  "queue_action_on_tuple s = (returnAction s, s)"

definition queue_post_insert :: "Tuple option \<Rightarrow> QueueSub \<Rightarrow> QueueSub" where
  "queue_post_insert new_value s = s \<lparr>insert_q := insert_q s @ [new_value]\<rparr>"

definition queue_post_update :: "Tuple option \<Rightarrow> QueueSub \<Rightarrow> QueueSub" where
  "queue_post_update new_value s = s \<lparr>update_q := update_q s @ [new_value]\<rparr>"

section \<open>FilterSubscriber\<close>

record FilterSub =
  filter_bound :: int
  level_in_field :: u32
  fs_cube_field :: int

definition new_FilterSub :: FilterSub where
  "new_FilterSub = \<lparr>filter_bound = 0, level_in_field = 0, fs_cube_field = - 1\<rparr>"

text \<open>An int field is taken as it is, a double one is truncated.\<close>

definition int_or_double :: "Element \<Rightarrow> int res" where
  "int_or_double x = (case i_val x of Some i \<Rightarrow> Inr i
     | None \<Rightarrow> (case d_val x of Some d \<Rightarrow> d_to_int d | None \<Rightarrow> Inl LogFatal))"

definition filter_post_insert :: "Tuple \<Rightarrow> FilterSub \<Rightarrow> emission res" where
  "filter_post_insert update s =
     (if fs_cube_field s > 0 then
        bindE (tuple_e update (fs_cube_field s)) (\<lambda>x. bindE (int_or_double x) (\<lambda>v.
        Inr (if v \<ge> filter_bound s then [([update], no_msg)] else [])))
      else Inr [([update], no_msg)])"

definition filter_post_update :: "FilterSub \<Rightarrow> emission res" where
  "filter_post_update s = Inl LogFatal"

definition filter_configure :: "op_config \<Rightarrow> FilterSub \<Rightarrow> operator_err_t \<times> FilterSub" where
  "filter_configure cfg s = (case cfg ''cube_field'' of None \<Rightarrow> ([], s)
     | Some v \<Rightarrow> (case read_int v of (n, ok) \<Rightarrow>
         (let s1 = s \<lparr>fs_cube_field := n\<rparr> in
          if \<not> ok then (''must specify an int as cube_field; got '' @ v @ '' instead'', s1)
          else case stream_u32 (cfg_get cfg ''level_in_field'') of
            None \<Rightarrow> (''must specify an int as level_in_field; got '' @ cfg_get cfg ''level_in_field'' @ '' instead'', s1)
          | Some l \<Rightarrow> ([], s1 \<lparr>level_in_field := l\<rparr>))))"

text \<open>The tuples of the controlling chain set the bound, the last one counts.\<close>

definition filter_process :: "Tuple option list \<Rightarrow> FilterSub \<Rightarrow> FilterSub res" where
  "filter_process tuples s =
     foldE (\<lambda>p s. case p of None \<Rightarrow> Inl NullDeref
       | Some t \<Rightarrow> bindE (nthE (e t) (unat (level_in_field s))) (\<lambda>x. bindE (int_or_double x) (\<lambda>v.
           Inr (s \<lparr>filter_bound := v\<rparr>)))) tuples s"

section \<open>The executor of a subscriber\<close>

text \<open>
  The cube calls back from its own threads; the calls are queued to the subscriber's single
  thread, which runs them in order.
\<close>

datatype sub_task = PostInsert Tuple "Tuple option" | PostUpdate Tuple "Tuple option" "Tuple option" | PostFlush u32

record 's SubExec =
  sx_state :: 's
  sx_tasks :: "sub_task list"

definition sub_insert_callback :: "Tuple \<Rightarrow> Tuple option \<Rightarrow> 's SubExec \<Rightarrow> 's SubExec" where
  "sub_insert_callback update new_value x = x \<lparr>sx_tasks := sx_tasks x @ [PostInsert update new_value]\<rparr>"

definition sub_update_callback :: "Tuple \<Rightarrow> Tuple option \<Rightarrow> Tuple option \<Rightarrow> 's SubExec \<Rightarrow> 's SubExec" where
  "sub_update_callback update new_value old_value x = x \<lparr>sx_tasks := sx_tasks x @ [PostUpdate update new_value old_value]\<rparr>"

definition sub_flush_callback :: "u32 \<Rightarrow> 's SubExec \<Rightarrow> 's SubExec" where
  "sub_flush_callback i x = x \<lparr>sx_tasks := sx_tasks x @ [PostFlush i]\<rparr>"

definition sub_queue_length :: "'s SubExec \<Rightarrow> nat" where
  "sub_queue_length x = length (sx_tasks x)"

text \<open>
  A delayed one-shot subscriber as the cube sees it; the n-th reading of the clock is \<^verbatim>\<open>clock n\<close>,
  the number of readings so far is kept beside the state.
\<close>

definition delayed_subops :: "(nat \<Rightarrow> msec_t) \<Rightarrow> (nat \<times> DelayedSub) SubExec SubOps" where
  "delayed_subops clock = \<lparr>
     action_on_tuple = (\<lambda>chain t x. case sx_state x of (n, s) \<Rightarrow>
       (case delayed_action_on_tuple (clock n) chain s of (a, s') \<Rightarrow> (a, x \<lparr>sx_state := (Suc n, s')\<rparr>))),
     sub_need_new = (\<lambda>_ _. False), sub_need_old = (\<lambda>_ _. False),
     insert_callback = sub_insert_callback, update_callback = sub_update_callback, flush_callback = sub_flush_callback,
     incoming_meta = (\<lambda>chain msg chains_in x. case sx_state x of (n, s) \<Rightarrow>
       (case delayed_incoming_meta (clock n) chain msg chains_in s of (f, s') \<Rightarrow> (f, x \<lparr>sx_state := (Suc n, s')\<rparr>)))\<rparr>"

section \<open>The windows of a time subscriber\<close>

lemma buffer_loop_concat: "buffer_loop full ts buf = (out, rest) \<Longrightarrow> concat out @ rest = buf @ ts"
proof (induction ts arbitrary: buf out rest)
  case (Cons t ts)
  then show ?case by (fastforce simp: Let_def split: if_splits prod.splits)
qed simp

text \<open>A tuple with the time of one field set.\<close>

definition with_t :: "int \<Rightarrow> int \<Rightarrow> Tuple \<Rightarrow> Tuple" where
  "with_t f v t = t \<lparr>e := (e t)[nat f := (e t ! nat f) \<lparr>t_val := Some v\<rparr>]\<rparr>"

definition field_of :: "int \<Rightarrow> Tuple \<Rightarrow> bool" where
  "field_of f t \<longleftrightarrow> 0 \<le> f \<and> nat f < length (e t)"

definition time_of :: "int \<Rightarrow> Tuple \<Rightarrow> int" where
  "time_of f t = get_t_val (e t ! nat f)"

lemma with_t_with_t [simp]: "field_of f t \<Longrightarrow> with_t f v (with_t f u t) = with_t f v t"
  by (simp add: with_t_def field_of_def)

lemma field_of_with_t [simp]: "field_of f (with_t f v t) = field_of f t"
  by (simp add: field_of_def with_t_def)

lemma time_of_with_t [simp]: "field_of f t \<Longrightarrow> time_of f (with_t f v t) = v"
  by (simp add: field_of_def with_t_def time_of_def get_t_val_def)

lemma with_t_self: "field_of f t \<Longrightarrow> t_val (e t ! nat f) = Some v \<Longrightarrow> with_t f v t = t"
proof -
  assume f: "field_of f t" and v: "t_val (e t ! nat f) = Some v"
  have "(e t ! nat f) \<lparr>t_val := Some v\<rparr> = e t ! nat f" using v by (cases "e t ! nat f") simp
  then show ?thesis by (cases t) (simp add: with_t_def)
qed

lemma set_t_val_Inr: "field_of f t \<Longrightarrow> in_int v \<Longrightarrow> set_t_val t f v = Inr (with_t f v t)"
  by (simp add: set_t_val_def mutable_e_def tuple_e_def field_of_def with_t_def to_int32_id)

lemma tuple_e_time: "field_of f t \<Longrightarrow> tuple_e t f = Inr (e t ! nat f)"
  by (simp add: tuple_e_def field_of_def)

definition windowed :: "int \<Rightarrow> int \<Rightarrow> int \<Rightarrow> Querier \<Rightarrow> Querier" where
  "windowed f lo hi q = q \<lparr>q_min := with_t f lo (q_min q), q_max := with_t f hi (q_max q)\<rparr>"

definition win_lo :: "TimeSub \<Rightarrow> int" where
  "win_lo s = time_of (ts_field s) (q_min (ts_querier s))"

definition win_hi :: "TimeSub \<Rightarrow> int" where
  "win_hi s = time_of (ts_field s) (q_max (ts_querier s))"

text \<open>The slice has the time field, and its start is set, as \<^verbatim>\<open>configure\<close> leaves it.\<close>

definition time_ok :: "TimeSub \<Rightarrow> bool" where
  "time_ok s \<longleftrightarrow> field_of (ts_field s) (q_min (ts_querier s)) \<and> field_of (ts_field s) (q_max (ts_querier s))
     \<and> t_val (e (q_min (ts_querier s)) ! nat (ts_field s)) \<noteq> None"

lemma time_ok_lo: "time_ok s \<Longrightarrow> with_t (ts_field s) (win_lo s) (q_min (ts_querier s)) = q_min (ts_querier s)"
  by (rule with_t_self) (auto simp: time_ok_def win_lo_def time_of_def get_t_val_def)

lemma time_post_flush_window:
  assumes "time_ok s" and "0 < newMax" and "uint newMax < INT_MAX"
  obtains out where "time_post_flush qo newMax st s = Inr (out, update_backfill_stats s \<lparr>next_window_start_time := uint newMax + 1,
        ts_querier := windowed (ts_field s) (uint newMax + 1) (uint newMax) (ts_querier s)\<rparr>)"
    and "concat (map fst out) = do_query qo (windowed (ts_field s) (win_lo s) (uint newMax) (ts_querier s)) st"
proof -
  let ?f = "ts_field s" and ?q = "ts_querier s" and ?m = "uint newMax"
  have f: "field_of ?f (q_min ?q)" "field_of ?f (q_max ?q)" "0 \<le> ?f" using assms(1) by (auto simp: time_ok_def field_of_def)
  have r: "in_int ?m" "in_int (?m + 1)" using assms(3) by (auto simp: in_int_def INT_MAX_def INT_MIN_def intro: order_trans [OF _ uint_ge_0])
  let ?q1 = "?q \<lparr>q_max := with_t ?f ?m (q_max ?q)\<rparr>"
  have q1: "?q1 = windowed ?f (win_lo s) ?m ?q" using time_ok_lo [OF assms(1)] by (simp add: windowed_def)
  obtain bufs rest where b: "buffer_loop (\<lambda>n. n > TUPLES_PER_BUFFER) (do_query qo ?q1 st) [] = (bufs, rest)" by fastforce
  let ?out = "map (\<lambda>b. (b, no_msg)) bufs @ [(rest, (mk_msg END_OF_WINDOW) \<lparr>window_end := Some newMax, window_length_ms := Some (windowSizeMs s)\<rparr>)]"
  have "time_post_flush qo newMax st s = Inr (?out, update_backfill_stats s \<lparr>next_window_start_time := ?m + 1,
        ts_querier := windowed ?f (?m + 1) ?m ?q\<rparr>)"
    using assms(2) f r b time_of_with_t [OF f(2), of ?m]
    by (simp add: time_post_flush_def set_t_val_Inr tuple_e_time Let_def update_backfill_stats_def windowed_def time_of_def)
  moreover have "concat (map fst ?out) = do_query qo (windowed ?f (win_lo s) ?m ?q) st"
    using buffer_loop_concat [OF b] q1 by (simp add: o_def)
  ultimately show thesis using that by blast
qed

text \<open>
  Rounds of the timer: each asks for a flush and, when it is through, queries and sends.  A round
  is the wall clock and the store the query sees; the result lists the windows with what was sent.
\<close>

fun time_rounds ::
  "'b QueryOps \<Rightarrow> (int \<times> 'b) list \<Rightarrow> TimeSub \<Rightarrow> ((int \<times> int \<times> Tuple list) list \<times> TimeSub) res" where
  "time_rounds qo [] s = Inr ([], s)"
| "time_rounds qo ((wall, st) # rs) s =
     bindE (time_emit_batch wall s) (\<lambda>(_, i).
     bindE (time_post_flush qo i st s) (\<lambda>(out, s1).
     bindE (time_rounds qo rs s1) (\<lambda>(ws, s2). Inr ((win_lo s, win_hi s1, concat (map fst out)) # ws, s2))))"

definition in_window :: "int \<Rightarrow> int \<times> int \<times> Tuple list \<Rightarrow> bool" where
  "in_window t w \<longleftrightarrow> (case w of (lo, hi, _) \<Rightarrow> lo \<le> t \<and> t \<le> hi)"

lemma in_window_simp [simp]: "in_window t (lo, hi, out) \<longleftrightarrow> lo \<le> t \<and> t \<le> hi"
  by (simp add: in_window_def)

lemma offset_frame:
  "get_window_offset_sec (update_backfill_stats s \<lparr>next_window_start_time := n, ts_querier := windowed f lo hi (ts_querier s)\<rparr>)
     = get_window_offset_sec s"
  by (simp add: get_window_offset_sec_def update_backfill_stats_def windowed_def)

definition clock_max :: "TimeSub \<Rightarrow> u32 \<Rightarrow> int \<times> 'b \<Rightarrow> int" where
  "clock_max s off r = tt_now (ts_tt s) (fst r) - uint off"

lemma time_emit_clock:
  assumes "times s = []" and "time_ok s" and "get_window_offset_sec s = Inr off"
  shows "time_emit_batch wall s = Inr (windowSizeMs s, word_of_int (tt_now (ts_tt s) wall - uint off))"
  using assms by (simp add: time_emit_batch_def time_new_max_def time_ok_def field_of_def)

lemma time_rounds_step:
  assumes "time_ok s" and "times s = []" and "get_window_offset_sec s = Inr off"
    and "0 < clock_max s off (wall, st)" and "clock_max s off (wall, st) < INT_MAX"
  obtains s1 where "time_rounds qo ((wall, st) # rs) s = bindE (time_rounds qo rs s1) (\<lambda>(ws, s2).
      Inr ((win_lo s, clock_max s off (wall, st),
        do_query qo (windowed (ts_field s) (win_lo s) (clock_max s off (wall, st)) (ts_querier s)) st) # ws, s2))"
    and "time_ok s1" and "times s1 = []" and "get_window_offset_sec s1 = Inr off" and "ts_tt s1 = ts_tt s"
    and "win_lo s1 = clock_max s off (wall, st) + 1" and "ts_field s1 = ts_field s"
    and "\<And>lo hi. windowed (ts_field s) lo hi (ts_querier s1) = windowed (ts_field s) lo hi (ts_querier s)"
proof -
  let ?m = "clock_max s off (wall, st)" and ?f = "ts_field s"
  let ?id = "word_of_int ?m :: u32"
  have u: "uint ?id = ?m" using assms(4,5) by (simp add: uint_word_of_int INT_MAX_def)
  have id: "0 < ?id" "uint ?id < INT_MAX" using u assms(4,5) by (simp_all add: word_less_alt)
  have f: "field_of ?f (q_min (ts_querier s))" "field_of ?f (q_max (ts_querier s))"
    using assms(1) by (auto simp: time_ok_def)
  let ?s1 = "update_backfill_stats s \<lparr>next_window_start_time := ?m + 1, ts_querier := windowed ?f (?m + 1) ?m (ts_querier s)\<rparr>"
  obtain out where p: "time_post_flush qo ?id st s = Inr (out, ?s1)"
    and out: "concat (map fst out) = do_query qo (windowed ?f (win_lo s) ?m (ts_querier s)) st"
    using time_post_flush_window [OF assms(1) id, of qo st] unfolding u by blast
  have f1: "ts_field ?s1 = ?f" "times ?s1 = []" "ts_tt ?s1 = ts_tt s" "win_hi ?s1 = ?m" "win_lo ?s1 = ?m + 1"
    using f assms(2) by (simp_all add: update_backfill_stats_def windowed_def win_hi_def win_lo_def)
  have "time_ok ?s1" using f f1(1)
    by (simp add: time_ok_def windowed_def update_backfill_stats_def) (simp add: with_t_def field_of_def)
  moreover have "windowed ?f lo hi (ts_querier ?s1) = windowed ?f lo hi (ts_querier s)" for lo hi
    using f by (simp add: windowed_def)
  moreover have "time_rounds qo ((wall, st) # rs) s = bindE (time_rounds qo rs ?s1) (\<lambda>(ws, s2).
      Inr ((win_lo s, ?m, do_query qo (windowed ?f (win_lo s) ?m (ts_querier s)) st) # ws, s2))"
    using time_emit_clock [OF assms(2,1,3), of wall] p out f1(4) by (simp add: clock_max_def)
  ultimately show thesis using that [of ?s1] f1 assms(3) offset_frame by metis
qed

lemma windows_cover_induct:
  assumes "time_ok s" and "times s = []" and "get_window_offset_sec s = Inr off"
    and "\<forall>r \<in> set rs. 0 < clock_max s off r \<and> clock_max s off r < INT_MAX"
    and "sorted (map (clock_max s off) rs)" and "rs \<noteq> []" and "win_lo s \<le> clock_max s off (hd rs) + 1"
  shows "\<exists>ws s'. time_rounds qo rs s = Inr (ws, s')
     \<and> list_all2 (\<lambda>r (lo, hi, out). hi = clock_max s off r
          \<and> out = do_query qo (windowed (ts_field s) lo hi (ts_querier s)) (snd r)) rs ws
     \<and> (\<forall>t. length (filter (in_window t) ws) = (if win_lo s \<le> t \<and> t \<le> clock_max s off (last rs) then 1 else 0))"
  using assms
proof (induction rs arbitrary: s)
  case (Cons r rs)
  obtain wall st where r: "r = (wall, st)" by (cases r)
  let ?m = "clock_max s off r" and ?f = "ts_field s"
  obtain s1 where s1: "time_rounds qo (r # rs) s = bindE (time_rounds qo rs s1) (\<lambda>(ws, s2).
        Inr ((win_lo s, ?m, do_query qo (windowed ?f (win_lo s) ?m (ts_querier s)) st) # ws, s2))"
      "time_ok s1" "times s1 = []" "get_window_offset_sec s1 = Inr off" "ts_tt s1 = ts_tt s" "win_lo s1 = ?m + 1" "ts_field s1 = ?f"
      "\<And>lo hi. windowed ?f lo hi (ts_querier s1) = windowed ?f lo hi (ts_querier s)"
    using time_rounds_step [OF Cons.prems(1-3), of wall st qo rs] Cons.prems(4) unfolding r by auto
  have cm: "clock_max s1 off = clock_max s off" using s1(5) by (simp add: clock_max_def fun_eq_iff)
  show ?case
  proof (cases "rs = []")
    case True
    then show ?thesis using s1(1) Cons.prems(7) by (auto simp: r)
  next
    case False
    have h: "\<forall>r \<in> set rs. 0 < clock_max s1 off r \<and> clock_max s1 off r < INT_MAX" using Cons.prems(4) by (simp add: cm)
    have lo: "win_lo s1 \<le> clock_max s1 off (hd rs) + 1" and srt: "sorted (map (clock_max s1 off) rs)"
      using False Cons.prems(5) s1(6) by (auto simp: cm neq_Nil_conv)
    obtain ws s' where ws: "time_rounds qo rs s1 = Inr (ws, s')"
        "list_all2 (\<lambda>r (lo, hi, out). hi = clock_max s off r
          \<and> out = do_query qo (windowed ?f lo hi (ts_querier s)) (snd r)) rs ws"
        "\<forall>t. length (filter (in_window t) ws) = (if ?m + 1 \<le> t \<and> t \<le> clock_max s off (last rs) then 1 else 0)"
      using Cons.IH [OF s1(2-4) h srt False lo, unfolded cm s1(6,7,8)] by blast
    have "?m \<le> clock_max s off (last rs)" using Cons.prems(5) False by auto
    then have "length (filter (in_window t) ((win_lo s, ?m, out) # ws)) =
        (if win_lo s \<le> t \<and> t \<le> clock_max s off (last rs) then 1 else 0)" for t out
      using spec [OF ws(3), of t] Cons.prems(7) by (auto split: if_splits)
    then show ?thesis using s1(1) ws(1,2) False by (simp add: r del: time_rounds.simps)
  qed
qed simp


definition demo_queries :: "Tuple list QueryOps" where
  "demo_queries = \<lparr>slice_query = (\<lambda>mn mx _ _ _. filter (\<lambda>t. time_of 0 mn \<le> time_of 0 t \<and> time_of 0 t \<le> time_of 0 mx)),
     slice_and_rollup = (\<lambda>_ mn mx _ _. filter (\<lambda>t. time_of 0 mn \<le> time_of 0 t \<and> time_of 0 t \<le> time_of 0 mx))\<rparr>"

definition demo_slice :: "int \<Rightarrow> Tuple" where
  "demo_slice t = \<lparr>e = [time_element t], version = None\<rparr>"

definition demo_time_sub :: TimeSub where
  "demo_time_sub = (new_TimeSub 100 0 1000 0) \<lparr>ts_field := 0,
     ts_querier := new_Querier \<lparr>q_min := demo_slice 100, q_max := demo_slice 0\<rparr>\<rparr>"

lemma demo_time_sub:
  "time_ok demo_time_sub" "times demo_time_sub = []" "get_window_offset_sec demo_time_sub = Inr 0"
  "win_lo demo_time_sub = 100" "clock_max demo_time_sub 0 r = fst r"
  by (auto simp: demo_time_sub_def new_TimeSub_def time_ok_def field_of_def demo_slice_def new_Querier_def
      get_window_offset_sec_def tdiv_def win_lo_def time_of_def get_t_val_def clock_max_def tt_now_def in_int_def INT_MAX_def INT_MIN_def)


text \<open>Rounds interleaved with metadata from the sources.\<close>

datatype 'b time_event = TRound int 'b | TMeta nat DataplaneMessage

fun time_events :: "'b QueryOps \<Rightarrow> 'b time_event list \<Rightarrow> TimeSub \<Rightarrow> (int \<times> int) list res" where
  "time_events qo [] s = Inr []"
| "time_events qo (TMeta c msg # es) s = time_events qo es (time_incoming_meta c msg s)"
| "time_events qo (TRound wall st # es) s =
     bindE (time_emit_batch wall s) (\<lambda>(_, i).
     bindE (time_post_flush qo i st s) (\<lambda>(_, s1).
     bindE (time_events qo es s1) (\<lambda>ws. Inr ((win_lo s, win_hi s1) # ws))))"

definition end_of_window_msg :: "u32 \<Rightarrow> DataplaneMessage" where
  "end_of_window_msg w = (mk_msg END_OF_WINDOW) \<lparr>window_end := Some w\<rparr>"

lemma time_post_flush_state:
  assumes "time_ok s" and "0 < newMax" and "uint newMax < INT_MAX"
  obtains out s1 where "time_post_flush qo newMax st s = Inr (out, s1)" and "time_ok s1" and "times s1 = times s"
    and "get_window_offset_sec s1 = get_window_offset_sec s" and "ts_tt s1 = ts_tt s"
    and "win_lo s1 = uint newMax + 1" and "win_hi s1 = uint newMax" and "next_window_start_time s1 = uint newMax + 1"
proof -
  obtain out where p: "time_post_flush qo newMax st s = Inr (out, update_backfill_stats s \<lparr>next_window_start_time := uint newMax + 1,
        ts_querier := windowed (ts_field s) (uint newMax + 1) (uint newMax) (ts_querier s)\<rparr>)" (is "_ = Inr (out, ?s1)")
    by (rule time_post_flush_window [OF assms, of qo st])
  have f: "field_of (ts_field s) (q_min (ts_querier s))" "field_of (ts_field s) (q_max (ts_querier s))"
    using assms(1) by (auto simp: time_ok_def)
  have "time_ok ?s1" using f
    by (simp add: time_ok_def windowed_def update_backfill_stats_def) (simp add: with_t_def field_of_def)
  moreover have "get_window_offset_sec ?s1 = get_window_offset_sec s" by (rule offset_frame)
  moreover have "times ?s1 = times s" "ts_tt ?s1 = ts_tt s" "next_window_start_time ?s1 = uint newMax + 1"
    by (simp_all add: update_backfill_stats_def)
  moreover have "win_lo ?s1 = uint newMax + 1" "win_hi ?s1 = uint newMax"
    using f by (simp_all add: update_backfill_stats_def windowed_def win_hi_def win_lo_def)
  ultimately show thesis using p that by blast
qed

lemma times_frame [simp]:
  "get_window_offset_sec (s \<lparr>times := m\<rparr>) = get_window_offset_sec s" "win_lo (s \<lparr>times := m\<rparr>) = win_lo s"
  "time_ok (s \<lparr>times := m\<rparr>) = time_ok s"
  by (simp_all add: get_window_offset_sec_def win_lo_def time_ok_def)

text \<open>
  A window can be read twice.  When a source has reported the end of a window ahead of
  the clock, the subscriber fast-forwards to it; when that source ends, the next window end falls
  back to the clock, the start of the following window goes back with it, and a timestamp that was
  sent already is queried and sent again.
\<close>

theorem window_read_twice:
  assumes "time_ok s" and "times s = []" and "get_window_offset_sec s = Inr off"
    and "uint w < INT_MAX" and "clock_max s off (wall1, st1) \<le> uint w"
    and "0 < clock_max s off (wall2, st2)" and "clock_max s off (wall2, st2) < t" and "t \<le> uint w"
    and "t \<le> clock_max s off (wall3, st3)" and "clock_max s off (wall3, st3) < INT_MAX" and "win_lo s \<le> t"
  shows "\<exists>w1 w2 w3. time_events qo [TMeta c (end_of_window_msg w), TRound wall1 st1, TMeta c (mk_msg NO_MORE_DATA),
       TRound wall2 st2, TRound wall3 st3] s = Inr [w1, w2, w3]
     \<and> fst w1 \<le> t \<and> t \<le> snd w1 \<and> fst w3 \<le> t \<and> t \<le> snd w3"
proof -
  let ?cm = "clock_max s off" and ?sa = "s \<lparr>times := [(c, uint w)]\<rparr>"
  have m: "time_incoming_meta c (end_of_window_msg w) s = ?sa"
    using assms(2) by (simp add: time_incoming_meta_def end_of_window_msg_def mk_msg_def map_find_def)
  have off: "get_window_offset_sec ?sa = Inr off" "win_lo ?sa = win_lo s"
    using assms(3) by simp_all
  have ok: "time_ok ?sa" using assms(1) by simp
  have fld: "0 \<le> ts_field s" using assms(1) by (auto simp: time_ok_def field_of_def)
  have w: "0 < w" using assms(6-8) by (simp add: word_less_alt)
  have e1: "time_emit_batch wall1 ?sa = Inr (windowSizeMs s, w)"
    using assms(4,5) fld off(1) by (simp add: time_emit_batch_def time_new_max_def clock_max_def TIME_T_MAX_def INT_MAX_def min_def max_def)
  obtain out s1 where p1: "time_post_flush qo w st1 ?sa = Inr (out, s1)" "time_ok s1" "times s1 = [(c, uint w)]"
      "get_window_offset_sec s1 = Inr off" "ts_tt s1 = ts_tt s" "win_hi s1 = uint w"
    by (rule time_post_flush_state [OF ok w assms(4), of qo st1]) (simp_all add: assms(3))
  let ?sb = "s1 \<lparr>times := []\<rparr>"
  have m2: "time_incoming_meta c (mk_msg NO_MORE_DATA) s1 = ?sb"
    using p1(3) by (simp add: time_incoming_meta_def mk_msg_def map_erase_def)
  have cm: "clock_max ?sb off r = ?cm r" for r :: "int \<times> 'b" using p1(5) by (simp add: clock_max_def)
  have sb: "time_ok ?sb" "times ?sb = []" "get_window_offset_sec ?sb = Inr off"
    using p1(2,4) by simp_all
  have u: "uint (word_of_int (?cm (wall2, st2)) :: u32) = ?cm (wall2, st2)" "uint (word_of_int (?cm (wall3, st3)) :: u32) = ?cm (wall3, st3)"
    using assms(4,6-10) by (simp_all add: uint_word_of_int INT_MAX_def)
  have e2: "time_emit_batch wall2 ?sb = Inr (windowSizeMs ?sb, word_of_int (?cm (wall2, st2)))"
    using time_emit_clock [OF sb(2,1,3)] cm [of "(wall2, st2)"] by (simp add: clock_max_def)
  obtain out2 s2 where p2: "time_post_flush qo (word_of_int (?cm (wall2, st2))) st2 ?sb = Inr (out2, s2)" "time_ok s2" "times s2 = []"
      "get_window_offset_sec s2 = Inr off" "ts_tt s2 = ts_tt s" "win_lo s2 = ?cm (wall2, st2) + 1"
    by (rule time_post_flush_state [OF sb(1), of "word_of_int (?cm (wall2, st2))" qo st2])
      (use u sb p1(5) assms(4,6-8) in \<open>simp_all add: word_less_alt\<close>)
  have e3: "time_emit_batch wall3 s2 = Inr (windowSizeMs s2, word_of_int (?cm (wall3, st3)))"
    using time_emit_clock [OF p2(3,2,4)] p2(5) by (simp add: clock_max_def)
  obtain out3 s3 where p3: "time_post_flush qo (word_of_int (?cm (wall3, st3))) st3 s2 = Inr (out3, s3)" "win_hi s3 = ?cm (wall3, st3)"
    by (rule time_post_flush_state [OF p2(2), of "word_of_int (?cm (wall3, st3))" qo st3])
      (use u assms(6,7,9,10) in \<open>simp_all add: word_less_alt\<close>)
  show ?thesis using m e1 p1(1,6) m2 e2 p2(1,6) e3 p3 off(2) assms(7-11) by simp
qed

theorem window_read_twice_witness:
  "\<exists>w1 w2 w3. time_events demo_queries [TMeta 7 (end_of_window_msg 500), TRound 200 [demo_slice 300], TMeta 7 (mk_msg NO_MORE_DATA),
       TRound 260 [demo_slice 300], TRound 320 [demo_slice 300]] demo_time_sub = Inr [w1, w2, w3]
     \<and> fst w1 \<le> 300 \<and> 300 \<le> snd w1 \<and> fst w3 \<le> 300 \<and> 300 \<le> snd w3"
  by (rule window_read_twice [OF demo_time_sub(1-3)]) (simp_all add: demo_time_sub INT_MAX_def)

section \<open>Coarsening\<close>

lemma filter_le_drop:
  fixes xs :: "'a :: linorder list"
  assumes "sorted_wrt (\<ge>) xs"
  shows "filter (\<lambda>x. x \<le> m) xs = drop (length xs - length (filter (\<lambda>x. x \<le> m) xs)) xs"
  using assms
proof (induction xs)
  case (Cons x xs)
  show ?case
  proof (cases "x \<le> m")
    case True
    then have "filter (\<lambda>x. x \<le> m) xs = xs" using Cons.prems by (intro filter_True) auto
    then show ?thesis using True by simp
  next
    case False
    have "length (filter (\<lambda>x. x \<le> m) xs) \<le> length xs" by simp
    then show ?thesis using Cons False by (simp add: Suc_diff_le)
  qed
qed simp

text \<open>The time level that belongs to a degradation level, as \<^verbatim>\<open>respond_to_congestion\<close> computes it.\<close>

definition time_level :: "'m CoarseSub \<Rightarrow> nat" where
  "time_level s = nat (vc_cur_level s) + (DTC_LEVEL_COUNT - length (rollup_data_ratios s))"

definition coarse_inv :: "'m CoarseSub \<Rightarrow> bool" where
  "coarse_inv s \<longleftrightarrow> (let n = length (rollup_data_ratios s) in n \<le> 9 \<and> 0 \<le> vc_cur_level s \<and> vc_cur_level s < int n
     \<and> rollup_time_periods s = drop (DTC_LEVEL_COUNT - n) DTC_SECS_PER_LEVEL)"

text \<open>The window is as long as the rollup of the time dimension is coarse.\<close>

definition window_matches :: "DataCubeImpl \<Rightarrow> 'm CoarseSub \<Rightarrow> bool" where
  "window_matches im s \<longleftrightarrow> windowSizeMs s = 1000 * uint (DTC_SECS_PER_LEVEL ! time_level s)
     \<and> (0 \<le> ts_field s \<longrightarrow>
          (let ls = q_rollup_levels (ts_querier s); f = nat (ts_field s) in
           if ls = [] then f < num_dimensions im \<longrightarrow> leaf_level (ci_dimensions im ! f) \<le> of_nat (time_level s)
           else f < length ls \<and> ls ! f = of_nat (time_level s)))"

lemma DTC_length [simp]: "DTC_LEVEL_COUNT = 10" "length DTC_SECS_PER_LEVEL = 10"
  by (simp_all add: DTC_LEVEL_COUNT_def DTC_SECS_PER_LEVEL_def)

lemma DTC_bound: "0 < i \<Longrightarrow> i < 10 \<Longrightarrow> uint (DTC_SECS_PER_LEVEL ! i) \<le> 3600"
proof -
  have "\<forall>i \<in> set [1..<10]. uint (DTC_SECS_PER_LEVEL ! i) \<le> 3600" by (simp add: DTC_SECS_PER_LEVEL_def upt_rec)
  then show "0 < i \<Longrightarrow> i < 10 \<Longrightarrow> uint (DTC_SECS_PER_LEVEL ! i) \<le> 3600" by simp
qed

lemma unrolled_loop_leaf:
  "unrolled_loop ds ls = Inr True \<Longrightarrow> i < length ds \<Longrightarrow> i < length ls \<and> leaf_level (ds ! i) \<le> ls ! i"
proof (induction ds ls arbitrary: i rule: unrolled_loop.induct)
  case (3 d ds l ls)
  then show ?case by (cases i) (auto split: if_splits)
qed auto

lemma coarsen_to_matches:
  assumes "coarsen_to im lvl s = Inr (sl, s')" and "length (rollup_data_ratios s) \<le> 9" and "ts_field s < 2 ^ 32"
    and "0 \<le> lvl" and "lvl < int (length (rollup_data_ratios s))"
    and "rollup_time_periods s = drop (DTC_LEVEL_COUNT - length (rollup_data_ratios s)) DTC_SECS_PER_LEVEL"
  shows "coarse_inv s' \<and> window_matches im s' \<and> ts_field s' = ts_field s
     \<and> rollup_data_ratios s' = rollup_data_ratios s"
proof -
  let ?n = "length (rollup_data_ratios s)"
  let ?l = "nat lvl + (10 - ?n)"
  let ?p = "DTC_SECS_PER_LEVEL ! ?l"
  have p: "nthE (rollup_time_periods s) (nat lvl) = Inr ?p" "0 < ?l" "?l < 10"
    using assms(2,4-6) by (auto simp: nthE_def add.commute)
  have b: "uint ?p \<le> 3600" by (rule DTC_bound [OF p(2,3)])
  have w: "sint (?p * 1000) = 1000 * uint ?p"
  proof -
    have u: "uint (?p * 1000) = uint ?p * 1000" using b uint_mult_lem [of ?p 1000] by simp
    then have "unat (?p * 1000) < 2147483648" using b by (simp add: unat_eq_nat_uint)
    then show ?thesis using sint_small32 [of "?p * 1000"] u by (simp add: unat_eq_nat_uint)
  qed
  have lw: "word_of_int (lvl + (10 - int ?n)) = (of_nat ?l :: u32)"
  proof -
    have "int ?l = lvl + (10 - int ?n)" using assms(2,4) by simp
    then show ?thesis by (metis of_int_of_nat_eq)
  qed
  let ?s1 = "s \<lparr>vc_cur_level := lvl, windowSizeMs := sint (?p * 1000)\<rparr>"
  define sleep where "sleep = (let ch = sint (?p * 1000 - word_of_int (windowSizeMs s)) in if ch > 0 then intE (1000 * ch) else Inr 0)"
  have eq: "coarsen_to im lvl s = bindE (if ts_field s \<ge> 0
      then bindE (set_rollup_level im (ts_field s) (of_nat ?l) (ts_querier s)) (\<lambda>q. Inr (?s1 \<lparr>ts_querier := q\<rparr>)) else Inr ?s1)
      (\<lambda>s2. bindE sleep (\<lambda>sl. Inr (sl, s2)))"
    using assms(4) p(1) lw by (simp add: coarsen_to_def Let_def sleep_def del: of_int_add of_int_diff)
  obtain s2 where s2: "(if ts_field s \<ge> 0 then bindE (set_rollup_level im (ts_field s) (of_nat ?l) (ts_querier s))
         (\<lambda>q. Inr (?s1 \<lparr>ts_querier := q\<rparr>)) else Inr ?s1) = Inr s2" and s': "s' = s2"
    using assms(1) [unfolded eq bindE_eq_Inr [of _ "\<lambda>s2. bindE sleep (\<lambda>sl. Inr (sl, s2))"]] by (auto simp: bindE_eq_Inr [of sleep])
  show ?thesis
  proof (cases "ts_field s \<ge> 0")
    case False
    then have "s' = ?s1" using s2 s' by simp
    then show ?thesis using False assms(2,4-6) w by (simp add: coarse_inv_def window_matches_def time_level_def Let_def)
  next
    case True
    then have f: "unat (word_of_int (ts_field s) :: u32) = nat (ts_field s)"
      using assms(3) by (simp add: unat_eq_nat_uint uint_word_of_int)
    let ?ls = "if q_rollup_levels (ts_querier s) = [] then replicate (length (e (q_min (ts_querier s)))) LEAF_LEVEL else q_rollup_levels (ts_querier s)"
    obtain u where u: "is_unrolled im (?ls[nat (ts_field s) := of_nat ?l]) = Inr u" "nat (ts_field s) < length ?ls"
        "s' = ?s1 \<lparr>ts_querier := (ts_querier s) \<lparr>q_rollup_levels := if u then [] else ?ls[nat (ts_field s) := of_nat ?l]\<rparr>\<rparr>"
      using s2 s' True f by (auto simp: set_rollup_level_def Let_def res_simps)
    have "u \<Longrightarrow> nat (ts_field s) < num_dimensions im \<Longrightarrow> leaf_level (ci_dimensions im ! nat (ts_field s)) \<le> of_nat ?l"
      using u(1,2) unrolled_loop_leaf [of "ci_dimensions im" "?ls[nat (ts_field s) := of_nat ?l]" "nat (ts_field s)"]
      by (simp add: is_unrolled_def num_dimensions_def)
    moreover have "?ls[nat (ts_field s) := of_nat ?l] \<noteq> []" using u(2) by auto
    ultimately show ?thesis using u(2,3) True assms(2,4-6) w
      by (simp add: coarse_inv_def window_matches_def time_level_def Let_def)
  qed
qed

definition coarse_step ::
  "('m \<Rightarrow> msec_t) \<Rightarrow> ('m \<Rightarrow> (double \<times> 'm) res) \<Rightarrow> DataCubeImpl \<Rightarrow> msec_t \<times> 'm option option \<Rightarrow> 'm CoarseSub \<Rightarrow> 'm CoarseSub res" where
  "coarse_step mtime cap im ev s = bindE (coarse_respond_to_congestion (fst ev) mtime cap (snd ev) im s) (\<lambda>(_, s'). Inr s')"

definition same_window :: "'m CoarseSub \<Rightarrow> 'm CoarseSub \<Rightarrow> bool" where
  "same_window s s' \<longleftrightarrow> windowSizeMs s' = windowSizeMs s \<and> ts_querier s' = ts_querier s \<and> vc_cur_level s' = vc_cur_level s
     \<and> rollup_data_ratios s' = rollup_data_ratios s \<and> ts_field s' = ts_field s"

lemma same_window_trans: "same_window s s1 \<Longrightarrow> same_window s1 s' \<Longrightarrow> same_window s s'"
  by (simp add: same_window_def)

lemma same_window_matches: "same_window s s' \<Longrightarrow> window_matches im s' = window_matches im s"
  by (simp add: same_window_def window_matches_def time_level_def)

lemma coarse_step_inv:
  assumes "coarse_step mtime cap im ev s = Inr s'" and "coarse_inv s" and "ts_field s < 2 ^ 32"
  shows "coarse_inv s' \<and> ts_field s' = ts_field s
     \<and> (window_matches im s' \<or> same_window s s')"
proof -
  let ?n = "length (rollup_data_ratios s)"
  have i: "?n \<le> 9" "0 \<le> vc_cur_level s" "vc_cur_level s < int ?n"
      "rollup_time_periods s = drop (DTC_LEVEL_COUNT - ?n) DTC_SECS_PER_LEVEL"
    using assms(2) by (auto simp: coarse_inv_def Let_def)
  obtain pol delta pol' where g: "get_step (fst ev) mtime cap (snd ev) (vc_id s) (rollup_data_ratios s) (of_nat ?n)
        (word_of_int (vc_cur_level s)) pol = Inr (delta, pol')"
      and s': "(delta = 0 \<and> s' = s \<lparr>vc_policy := Some pol'\<rparr>)
        \<or> (\<exists>sl. coarsen_to im (vc_cur_level s + delta) (s \<lparr>vc_policy := Some pol'\<rparr>) = Inr (sl, s'))"
    using assms(1) by (fastforce simp: coarse_step_def coarse_respond_to_congestion_def Let_def res_simps split: option.splits if_splits)
  have u: "uint (word_of_int (vc_cur_level s) :: u32) = vc_cur_level s" "unat (of_nat ?n :: u32) = ?n"
    using i(1-3) by (simp_all add: uint_word_of_int unat_of_nat32)
  have "uint (of_nat ?n :: u32) = int ?n" using u(2) by (metis uint_nat)
  then have "(word_of_int (vc_cur_level s) :: u32) < of_nat ?n" using u(1) i(3) by (simp only: word_less_alt)
  then have r: "0 \<le> vc_cur_level s + delta" "vc_cur_level s + delta < int ?n"
    using get_step_range [OF g] u i(1) by auto
  from s' show ?thesis
  proof
    assume "delta = 0 \<and> s' = s \<lparr>vc_policy := Some pol'\<rparr>"
    then show ?thesis using assms(2) by (simp add: coarse_inv_def same_window_def)
  next
    assume "\<exists>sl. coarsen_to im (vc_cur_level s + delta) (s \<lparr>vc_policy := Some pol'\<rparr>) = Inr (sl, s')"
    then obtain sl where "coarsen_to im (vc_cur_level s + delta) (s \<lparr>vc_policy := Some pol'\<rparr>) = Inr (sl, s')" by blast
    from coarsen_to_matches [OF this] show ?thesis using i assms(3) r by simp
  qed
qed

lemma coarse_run_inv:
  assumes "foldE (coarse_step mtime cap im) evs s = Inr s'" and "coarse_inv s" and "ts_field s < 2 ^ 32"
  shows "coarse_inv s' \<and> (window_matches im s' \<or> same_window s s')"
  using assms
proof (induction evs arbitrary: s)
  case (Cons ev evs)
  then obtain s1 where s1: "coarse_step mtime cap im ev s = Inr s1" "foldE (coarse_step mtime cap im) evs s1 = Inr s'"
    by (auto simp: res_simps)
  note st = coarse_step_inv [OF s1(1) Cons.prems(2,3)]
  then have "coarse_inv s' \<and> (window_matches im s' \<or> same_window s1 s')" using Cons.IH [OF s1(2)] Cons.prems(3) by simp
  then show ?case using st same_window_trans same_window_matches by blast
qed (simp add: same_window_def)

text \<open>Configuration leaves a suffix of the table of time levels, at its finest level.\<close>

lemma coarse_configure_inv:
  assumes "coarse_configure parse wall cfg s = Inr ([], s')" and "rollup_data_ratios s = []" "rollup_time_periods s = []"
    and "stream_u32 (cfg_get cfg ''max_window_size'') = Some m \<or> (cfg_get cfg ''max_window_size'' = [] \<and> m = 300)"
    and "1 \<le> m" and "m \<le> 3600"
  shows "coarse_inv s'"
proof -
  let ?ls = "filter (\<lambda>secs. secs \<le> m) DTC_SECS_PER_LEVEL"
  have e: "stream_u32 [] = None" by (simp add: stream_u32_def stream_integer_def skip_blanks_def read_sign_def read_digits_def)
  let ?v = "cfg_get cfg ''max_window_size''"
  have m: "(if ?v = [] then Some 300 else stream_u32 ?v) = Some m" using assms(4) e by auto
  obtain b where b: "time_configure parse (vc_id s) wall cfg (TimeSub.truncate s) = Inr ([], b)"
    using assms(1) by (auto simp: coarse_configure_def Let_def res_simps split: prod.splits if_splits)
  have s': "s' = (let s2 = push_levels m (TimeSub.extend b (TimeSub.more s)) in s2 \<lparr>vc_cur_level := int (length (rollup_data_ratios s2)) - 1\<rparr>)"
    using assms(1) b m by (simp add: coarse_configure_def Let_def)
  have p: "rollup_data_ratios s' = map (\<lambda>secs. ddiv (Fin 1) (dof_int (uint secs))) ?ls" "rollup_time_periods s' = ?ls"
      "vc_cur_level s' = int (length ?ls) - 1"
    using assms(2,3) by (cases s; simp add: s' Let_def push_levels_def TimeSub.defs)+
  have "sorted_wrt (\<ge>) DTC_SECS_PER_LEVEL" by (simp add: DTC_SECS_PER_LEVEL_def)
  from filter_le_drop [OF this, of m] have d: "?ls = drop (10 - length ?ls) DTC_SECS_PER_LEVEL" by simp
  have "\<not> 2147483647 \<le> m" using assms(6) by (auto simp: word_le_nat_alt)
  then have "length ?ls \<le> 9" by (simp add: DTC_SECS_PER_LEVEL_def)
  moreover have "1 \<le> length ?ls" using assms(5) by (simp add: DTC_SECS_PER_LEVEL_def)
  moreover from this have "?ls \<noteq> []" by auto
  ultimately show ?thesis using p d by (simp add: coarse_inv_def)
qed


definition demo_coarse :: "unit CoarseSub" where
  "demo_coarse = TimeSub.extend (new_TimeSub 0 0 0 0) \<lparr>vc_id = OpId 1 1, vc_policy = Some \<lparr>statuses = [new_OperatorState (OpId 1 1)], congest = Some ()\<rparr>,
     vc_cur_level = 0, rollup_data_ratios = [], rollup_time_periods = []\<rparr>"

definition demo_parse :: "string \<Rightarrow> Tuple" where
  "demo_parse _ = demo_slice 0"

definition demo_coarse_cfg :: op_config where
  "demo_coarse_cfg = [''ts_field'' \<mapsto> ''0'', ''start_ts'' \<mapsto> ''100'']"

definition demo_configured :: "unit CoarseSub" where
  "demo_configured = snd (the_ok (coarse_configure demo_parse 0 demo_coarse_cfg demo_coarse))"

definition demo_time_cube :: DataCubeImpl where
  "demo_time_cube = \<lparr>ci_dimensions = [\<lparr>d_name = ''time'', d_type = DIM_TIME_CONTAINMENT, d_indexes = [0]\<rparr>],
     ci_aggregates = [], dimensionMap = [(''time'', 0)], aggregateMap = [], src_tuple_min_len = 0\<rparr>"

definition demo_coarsened :: "unit CoarseSub res" where
  "demo_coarsened = foldE (coarse_step (\<lambda>_. 5000) (\<lambda>m. Inr (Fin (1 / 2), m)) demo_time_cube) [(6000, None)] demo_configured"

lemma map_sum_eq_Inr: "map_sum f g r = Inr y \<longleftrightarrow> (\<exists>x. r = Inr x \<and> g x = y)"
  by (cases r) auto

lemma demo_coarse_configured:
  "map_sum id fst (coarse_configure demo_parse 0 demo_coarse_cfg demo_coarse) = Inr []"
  by code_simp

lemma demo_coarse_runs: "map_sum id windowSizeMs demo_coarsened = Inr 5000"
  by code_simp

lemma demo_coarse_field: "ts_field demo_configured = 0"
  by code_simp

lemma demo_coarse_fresh:
  "cfg_get demo_coarse_cfg ''max_window_size'' = []" "rollup_data_ratios demo_coarse = []" "rollup_time_periods demo_coarse = []"
  by (simp_all add: cfg_get_def demo_coarse_cfg_def demo_coarse_def TimeSub.defs)


section \<open>A subscriber that waits for all its sources\<close>

text \<open>
  It asks for the flush only when no chain into the cube is left, it never makes the cube write
  a tuple outside the batch, and it queries exactly once.
\<close>

lemma delayed_meta_flush:
  "fst (delayed_incoming_meta now c msg n s) = (if n = 0 then Some 0 else None)"
  by (simp add: delayed_incoming_meta_def Let_def)

lemma delayed_batching: "batching (delayed_subops clock)"
  by (auto simp: batching_def delayed_subops_def delayed_action_on_tuple_def split: prod.splits)

text \<open>
  A delayed one-shot subscriber asks for its flush exactly when the last chain into the
  cube stops, and the barrier of that flush stands behind every tuple the cube has accepted: in
  each processor's queue nothing is moved or dropped and the barrier comes last.
\<close>

theorem delayed_flush_behind_data:
  assumes "subscribers c = [(sid, i)]" and "i < length (sub_heap c)" and "0 < n_members"
  shows "\<exists>c'. cube_chain_stopping (delayed_subops clock) ch n_members False c = Inr c'
     \<and> (if in_chain_count c = 1
        then flush_infos c' = flush_infos c @ [\<lparr>fi_id = 0, fi_subsc = i, fi_count = of_nat (length (processors c))\<rparr>]
          \<and> map process_tasks (processors c') = map (\<lambda>pr. process_tasks pr @ [FlushTask (length (flush_infos c))]) (processors c)
        else flush_infos c' = flush_infos c \<and> processors c' = processors c)"
proof -
  let ?c = "c \<lparr>in_chain_count := in_chain_count c - 1\<rparr>" and ?m = "mk_msg NO_MORE_DATA"
  obtain f u where m: "incoming_meta (delayed_subops clock) ch ?m (cube_in_chains ?c) (so_state (sub_heap c ! i)) = (f, u)"
    by fastforce
  have "fst (incoming_meta (delayed_subops clock) ch ?m (cube_in_chains ?c) (so_state (sub_heap c ! i)))
      = (if in_chain_count c = 1 then Some 0 else None)"
    by (simp add: delayed_subops_def cube_in_chains_def split_def delayed_meta_flush)
  then have f: "f = (if in_chain_count c = 1 then Some 0 else None)" by (simp add: m)
  let ?c1 = "?c \<lparr>sub_heap := (sub_heap c)[i := (sub_heap c ! i) \<lparr>so_state := u\<rparr>]\<rparr>"
  let ?c2 = "if in_chain_count c = 1
      then cube_flush (length (flush_infos c)) (?c1 \<lparr>flush_infos := flush_infos c @ [\<lparr>fi_id = 0, fi_subsc = i, fi_count = 0\<rparr>]\<rparr>) else ?c1"
  have "meta_to_sub (delayed_subops clock) ch ?m i ?c = Inr ?c2"
    using assms(2) m f by (auto simp: meta_to_sub_def new_FlushInfo_def)
  then have "cube_chain_stopping (delayed_subops clock) ch n_members False c
      = Inr (?c2 \<lparr>current_levels := map_erase ch (current_levels ?c2)\<rparr>)"
    using assms(1,3) by (simp add: cube_chain_stopping_def cube_process_msg_def rollup_msg_def)
  then show ?thesis by (auto simp: cube_flush_def barrier_def)
qed

definition demo_delayed_cube :: "((nat \<times> DelayedSub) SubExec, unit) DataCube" where
  "demo_delayed_cube = (new_DataCube demo_cube 5 2 idle_queue idle_queue ())
     \<lparr>in_chain_count := 1, sub_heap := [\<lparr>so_has_cube = True, so_state = \<lparr>sx_state = (0, new_DelayedSub), sx_tasks = []\<rparr>\<rparr>],
      subscribers := [(OpId 1 1, 0)]\<rparr>"

theorem delayed_flush_behind_data_witness:
  "\<exists>c'. cube_chain_stopping (delayed_subops (\<lambda>n. of_nat n)) 7 2 False demo_delayed_cube = Inr c'
     \<and> map process_tasks (processors c') = [[FlushTask 0], [FlushTask 0]]"
proof -
  have "subscribers demo_delayed_cube = [(OpId 1 1, 0)]" "0 < length (sub_heap demo_delayed_cube)" "(0 :: nat) < 2"
    by (simp_all add: demo_delayed_cube_def)
  from delayed_flush_behind_data [OF this, of "\<lambda>n. of_nat n" 7] show ?thesis
    by (auto simp: demo_delayed_cube_def new_DataCube_def new_ProcessCallable_def numeral_2_eq_2)
qed

lemma buffer_loop_sizes:
  "buffer_loop (\<lambda>n. n \<ge> k) ts buf = (out, rest) \<Longrightarrow> length buf < k \<Longrightarrow>
     (\<forall>b \<in> set out. length b = k) \<and> length rest < k"
proof (induction ts arbitrary: buf out rest)
  case (Cons t ts)
  show ?case
  proof (cases "k \<le> length (buf @ [t])")
    case True
    then obtain out' where "buffer_loop (\<lambda>n. n \<ge> k) ts [] = (out', rest)" "out = (buf @ [t]) # out'"
      using Cons.prems(1) by (auto simp: Let_def split: prod.splits)
    then show ?thesis using Cons.IH [of "[]"] Cons.prems(2) True by auto
  next
    case False
    then show ?thesis using Cons.IH [of "buf @ [t]"] Cons.prems by (auto simp: Let_def)
  qed
qed simp

text \<open>
  After the flush the subscriber sends the whole answer of one query, cut into buffers
  of at most a thousand tuples, and stops: the timer's next callback removes it from the cube and
  arms no further one.
\<close>

theorem delayed_queries_once:
  assumes "ss_armed ss = 1" and "ss_subscribed ss" and "os_sent (ss_state ss) = []"
  shows "\<exists>ss1 ss2. delayed_post_flush qo now st ss = Inr ss1 \<and> stranded_emit_wrapper delayed_emit_batch ss1 = Inr ss2
     \<and> concat (map fst (os_sent (ss_state ss2))) = do_query qo (os_querier (ss_state ss)) st
     \<and> (\<forall>(b, m) \<in> set (os_sent (ss_state ss2)). length b \<le> TUPLES_PER_BUFFER \<and> m = no_msg)
     \<and> ss_armed ss2 = 0 \<and> \<not> ss_subscribed ss2"
proof -
  let ?q = "do_query qo (os_querier (ss_state ss)) st"
  obtain bufs rest where b: "buffer_loop (\<lambda>n. n \<ge> TUPLES_PER_BUFFER) ?q [] = (bufs, rest)" by fastforce
  note sz = buffer_loop_sizes [OF b]
  let ?out = "map (\<lambda>b. (b, no_msg)) bufs @ (if rest \<noteq> [] then [(rest, no_msg)] else [])"
  have out: "concat (map fst ?out) = ?q" using buffer_loop_concat [OF b] by (auto simp: o_def)
  obtain ss1 where p: "delayed_post_flush qo now st ss = Inr ss1" "os_sent (ss_state ss1) = ?out"
      "ss_armed ss1 = 1" "\<not> ss_running ss1"
    using assms(1,3) b by (auto simp: delayed_post_flush_def oneshot_emit_batch_def stop_from_subscriber_def OneShot.defs Let_def)
  let ?ss2 = "ss1 \<lparr>ss_armed := 0, ss_subscribed := False\<rparr>"
  have "stranded_emit_wrapper delayed_emit_batch ss1 = Inr ?ss2"
    using p(3,4) by (simp add: stranded_emit_wrapper_def stranded_chain_stopping_def Let_def)
  moreover have "\<forall>(b, m) \<in> set ?out. length b \<le> TUPLES_PER_BUFFER \<and> m = no_msg"
    using sz by (auto simp: TUPLES_PER_BUFFER_def)
  ultimately show ?thesis using p(1,2) out by (intro exI [of _ ss1] exI [of _ ?ss2]) simp
qed

definition demo_delayed :: "DelayedSub StrandedSubscriber" where
  "demo_delayed = (new_StrandedSubscriber (new_DelayedSub \<lparr>os_querier := new_Querier \<lparr>q_min := demo_slice 0, q_max := demo_slice 9\<rparr>\<rparr>))
     \<lparr>ss_has_cube := True, ss_running := True, ss_armed := 1, ss_chain := True, ss_subscribed := True\<rparr>"

theorem delayed_queries_once_witness:
  "\<exists>ss1 ss2. delayed_post_flush demo_queries 5 [demo_slice 3, demo_slice 20] demo_delayed = Inr ss1
     \<and> stranded_emit_wrapper delayed_emit_batch ss1 = Inr ss2
     \<and> concat (map fst (os_sent (ss_state ss2))) = [demo_slice 3] \<and> ss_armed ss2 = 0"
proof -
  have "ss_armed demo_delayed = 1" "ss_subscribed demo_delayed" "os_sent (ss_state demo_delayed) = []"
    by (simp_all add: demo_delayed_def new_StrandedSubscriber_def new_DelayedSub_def)
  moreover have "do_query demo_queries (os_querier (ss_state demo_delayed)) [demo_slice 3, demo_slice 20] = [demo_slice 3]"
    by code_simp
  ultimately show ?thesis
    using delayed_queries_once [of demo_delayed demo_queries 5 "[demo_slice 3, demo_slice 20]"] by auto
qed

end
