(* ===== verification/JS_Topk.thy ===== *)
theory JS_Topk
  imports JS_Subscribers
begin

text \<open>
  Distributed top-k in three rounds (\<^verbatim>\<open>dataplane/topk_tput.h\<close>, \<^verbatim>\<open>dataplane/topk_tput.cc\<close>): the
  coordinator asks every source for its top k, then for everything above a threshold, then for
  the exact values of the candidates that can still be in the result.  A sender is a subscriber of
  its node's cube; what the coordinator sends up its incoming chains is a list of pairs of a chain
  and a message.  The byte counters and round times the coordinator logs are not part of the state.
\<close>

section \<open>Ranks\<close>

definition get_rank_val :: "Tuple \<Rightarrow> int \<Rightarrow> double res" where
  "get_rank_val t cl = bindE (tuple_e t cl) (\<lambda>x. case d_val x of Some d \<Rightarrow> Inr d
     | None \<Rightarrow> (case i_val x of Some i \<Rightarrow> Inr (dof_int i) | None \<Rightarrow> Inl LogFatal))"

text \<open>Indexing a std::string at its end gives the terminating NUL.\<close>

definition first_char :: "string \<Rightarrow> char" where
  "first_char s = (case s of [] \<Rightarrow> CHR 0x00 | c # _ \<Rightarrow> c)"

fun dins :: "double \<Rightarrow> double list \<Rightarrow> double list" where
  "dins x [] = [x]"
| "dins x (y # ys) = (if dlt y x then y # dins x ys else x # y # ys)"

definition dsort :: "double list \<Rightarrow> double list" where
  "dsort xs = foldr dins xs []"

section \<open>MultiRoundSender\<close>

record MultiRoundSender =
  ms_sort_order :: "string list"
  take_greatest :: bool
  ms_min :: Tuple
  ms_max :: Tuple
  ms_rollup_levels :: "u32 list"

definition new_MultiRoundSender :: "bool \<Rightarrow> MultiRoundSender" where
  "new_MultiRoundSender g = \<lparr>ms_sort_order = [], take_greatest = g, ms_min = empty_tuple, ms_max = empty_tuple,
     ms_rollup_levels = []\<rparr>"

definition sender_action_on_tuple :: "MultiRoundSender \<Rightarrow> Action \<times> MultiRoundSender" where
  "sender_action_on_tuple s = (NO_SEND, s)"

definition get_int32 :: "int option \<Rightarrow> int" where
  "get_int32 v = (case v of None \<Rightarrow> 0 | Some i \<Rightarrow> i)"

definition get_string :: "string option \<Rightarrow> string" where
  "get_string v = (case v of None \<Rightarrow> [] | Some s \<Rightarrow> s)"

definition get_double :: "double option \<Rightarrow> double" where
  "get_double v = (case v of None \<Rightarrow> Fin 0 | Some d \<Rightarrow> d)"

fun bounds_loop :: "nat \<Rightarrow> u32 list \<Rightarrow> MultiRoundSender \<Rightarrow> Tuple \<times> Tuple \<Rightarrow> (Tuple \<times> Tuple) res" where
  "bounds_loop i [] s b = Inr b"
| "bounds_loop i (l # ls) s (my_min, my_max) =
     (if l = 0 then
        bindE (nthE (e (ms_min s)) i) (\<lambda>x. bindE (updE (e my_min) i x) (\<lambda>es1.
        bindE (nthE (e (ms_max s)) i) (\<lambda>y. bindE (updE (e my_max) i y) (\<lambda>es2.
        bounds_loop (Suc i) ls s (my_min \<lparr>e := es1\<rparr>, my_max \<lparr>e := es2\<rparr>)))))
      else bounds_loop (Suc i) ls s (my_min, my_max))"

definition get_bounds :: "Tuple \<Rightarrow> MultiRoundSender \<Rightarrow> (Tuple \<times> Tuple) res" where
  "get_bounds q s = bounds_loop 0 (ms_rollup_levels s) s (q, q)"

definition sender_round_1 ::
  "'b QueryOps \<Rightarrow> CubeSchema \<Rightarrow> DataplaneMessage \<Rightarrow> 'b \<Rightarrow> MultiRoundSender \<Rightarrow> (Tuple list \<times> MultiRoundSender) res" where
  "sender_round_1 qo sch msg st s =
     (let mn = (case tput_r1_start msg of Some t \<Rightarrow> t | None \<Rightarrow> empty_dim_tuple sch);
          mx = (case tput_r1_end msg of Some t \<Rightarrow> t | None \<Rightarrow> mn);
          ls = (if ms_rollup_levels s = [] then map word_of_int (rollup_levels msg) else ms_rollup_levels s);
          s1 = s \<lparr>ms_sort_order := ms_sort_order s @ [get_string (tput_sort_key msg)], ms_min := mn, ms_max := mx, ms_rollup_levels := ls\<rparr>
      in if length ls \<noteq> length (dimensions sch) then Inl LogFatal
         else Inr (slice_and_rollup qo ls mn mx (ms_sort_order s1) (word_of_int (get_int32 (tput_k msg))) st, s1))"

fun take_ranked :: "(double \<Rightarrow> bool) \<Rightarrow> int \<Rightarrow> Tuple list \<Rightarrow> Tuple list res" where
  "take_ranked ok cl [] = Inr []"
| "take_ranked ok cl (t # ts) = bindE (get_rank_val t cl) (\<lambda>v.
     if ok v then bindE (take_ranked ok cl ts) (\<lambda>us. Inr (t # us)) else Inr [])"

definition sender_round_2 ::
  "'b QueryOps \<Rightarrow> DataplaneMessage \<Rightarrow> 'b \<Rightarrow> MultiRoundSender \<Rightarrow> Tuple list res" where
  "sender_round_2 qo msg st s =
     (let cells = slice_and_rollup qo (ms_rollup_levels s) (ms_min s) (ms_max s) (ms_sort_order s) 0 st;
          rest = drop (nat (get_int32 (tput_k msg))) cells;
          T = get_double (tput_r2_threshold msg)
      in take_ranked (\<lambda>v. if take_greatest s then dle T v else dle v T) (get_int32 (tput_r2_col msg)) rest)"

text \<open>One query of round 3: the exact value of a candidate on this node, if it has one.\<close>

definition sender_query_3 ::
  "'b QueryOps \<Rightarrow> int \<Rightarrow> 'b \<Rightarrow> MultiRoundSender \<Rightarrow> Tuple \<Rightarrow> Tuple list \<times> DataplaneMessage \<Rightarrow> (Tuple list \<times> DataplaneMessage) res" where
  "sender_query_3 qo time_col st s q acc = (case acc of (buf, marker) \<Rightarrow>
     bindE (get_bounds q s) (\<lambda>(my_min, my_max).
     case slice_and_rollup qo (ms_rollup_levels s) my_min my_max [] 0 st of
       [v] \<Rightarrow> if time_col \<noteq> - 1 then
           bindE (tuple_e my_min time_col) (\<lambda>lo. bindE (set_t_val v time_col (get_t_val lo)) (\<lambda>v'.
           bindE (tuple_e my_max time_col) (\<lambda>hi.
           Inr (buf @ [v'], marker \<lparr>window_end := Some (word_of_int (get_t_val hi))\<rparr>))))
         else Inr (buf @ [v], marker)
     | _ \<Rightarrow> Inr (buf, marker)))"

definition sender_round_3 ::
  "'b QueryOps \<Rightarrow> DataplaneMessage \<Rightarrow> 'b \<Rightarrow> MultiRoundSender \<Rightarrow> (Tuple list \<times> DataplaneMessage) res" where
  "sender_round_3 qo msg st s =
     foldE (sender_query_3 qo (case tput_r3_timecol msg of Some c \<Rightarrow> c | None \<Rightarrow> - 1) st s) (tput_r3_query msg)
       ([], mk_msg END_OF_WINDOW)"

text \<open>None when the message is not one of the protocol: nothing is emitted.\<close>

definition meta_from_downstream ::
  "'b QueryOps \<Rightarrow> CubeSchema \<Rightarrow> DataplaneMessage \<Rightarrow> 'b \<Rightarrow> MultiRoundSender \<Rightarrow>
   ((Tuple list \<times> DataplaneMessage) option \<times> MultiRoundSender) res" where
  "meta_from_downstream qo sch msg st s0 =
     (let s = s0 \<lparr>take_greatest := (first_char (get_string (tput_sort_key msg)) = CHR ''-'')\<rparr> in
      if dp_type msg = TPUT_START then
        bindE (sender_round_1 qo sch msg st s) (\<lambda>(buf, s1).
        Inr (Some (buf, (mk_msg END_OF_WINDOW) \<lparr>tput_round := Some 1\<rparr>), s1))
      else if dp_type msg = TPUT_ROUND_2 then
        bindE (sender_round_2 qo msg st s) (\<lambda>buf.
        Inr (Some (buf, (mk_msg END_OF_WINDOW) \<lparr>tput_round := Some 2\<rparr>), s))
      else if dp_type msg = TPUT_ROUND_3 then
        bindE (sender_round_3 qo msg st s) (\<lambda>(buf, marker).
        Inr (Some (buf, marker \<lparr>tput_round := Some 3\<rparr>), s))
      else Inr (None, s))"

section \<open>MultiRoundCoordinator\<close>

datatype ProtoState = NOT_STARTED | ROUND_1 | ROUND_2 | ROUND_3 | DONE

definition phase_no :: "ProtoState \<Rightarrow> int" where
  "phase_no p = (case p of NOT_STARTED \<Rightarrow> 0 | ROUND_1 \<Rightarrow> 1 | ROUND_2 \<Rightarrow> 2 | ROUND_3 \<Rightarrow> 3 | DONE \<Rightarrow> 4)"

record CandidateItem =
  ci_val :: double
  ci_responses :: u64
  ci_example :: Tuple

record MultiRoundCoordinator =
  predecessors :: "nat list"
  future_preds :: "(nat, nat) stdmap"
  mc_running :: bool
  mc_chain :: bool
  num_results :: u32
  min_window_size :: u32
  mc_rollup_levels :: "u32 list"
  mc_start_ts :: int
  mc_ts_field :: int
  window_offset :: int
  sort_column :: string
  just_once :: bool
  responses_this_phase :: u32
  total_col :: u32
  destcube :: "(DataCubeImpl \<times> CubeSchema) option"
  T1 :: double
  wait_for_start :: int
  candidates :: "(DimensionKey, CandidateItem) stdmap"
  mc_phase :: ProtoState

type_synonym up_msgs = "(nat \<times> DataplaneMessage) list"

definition mc_configure :: "op_config \<Rightarrow> MultiRoundCoordinator \<Rightarrow> (operator_err_t \<times> MultiRoundCoordinator) res" where
  "mc_configure cfg c =
     (case cfg ''num_results'' of None \<Rightarrow> Inr (''must specify num_results for multi-round top-k'', c)
      | Some nr \<Rightarrow> bindE (lexical_int nr) (\<lambda>n. let c1 = c \<lparr>num_results := word_of_int n\<rparr> in
     case cfg ''sort_column'' of None \<Rightarrow> Inr (''must specify sort_column for multi-round top-k'', c1)
      | Some sc \<Rightarrow> let c2 = c1 \<lparr>sort_column := sc\<rparr> in
     bindE (case cfg ''min_window_size'' of None \<Rightarrow> Inr 1 | Some v \<Rightarrow> lexical_u32 v) (\<lambda>mws.
     bindE (case cfg ''rollup_levels'' of None \<Rightarrow> Inr (mc_rollup_levels c2) | Some v \<Rightarrow> get_rollup_level_array v (mc_rollup_levels c2)) (\<lambda>ls.
     bindE (case cfg ''ts_field'' of None \<Rightarrow> Inr (- 1, 0, 0)
        | Some v \<Rightarrow> bindE (lexical_int v) (\<lambda>f.
            bindE (case cfg ''start_ts'' of None \<Rightarrow> Inr 0 | Some v \<Rightarrow> lexical_time v) (\<lambda>st.
            bindE (case cfg ''window_offset'' of None \<Rightarrow> Inr 0
              | Some v \<Rightarrow> bindE (lexical_time v) (\<lambda>ms. Inr (tdiv (to_int32 ms) 1000))) (\<lambda>off. Inr (f, st, off))))) (\<lambda>(f, st, off).
     bindE (case cfg ''wait_for_start'' of None \<Rightarrow> Inr 0 | Some v \<Rightarrow> lexical_time v) (\<lambda>w.
     Inr ([], c2 \<lparr>min_window_size := mws, mc_rollup_levels := ls, mc_ts_field := f, mc_start_ts := st, window_offset := off,
        wait_for_start := w, just_once := True, mc_phase := NOT_STARTED\<rparr>)))))))"

text \<open>The argument is the last member of the coordinator's chain, when it is a cube.\<close>

definition mc_start :: "(DataCubeImpl \<times> CubeSchema) option \<Rightarrow> MultiRoundCoordinator \<Rightarrow> MultiRoundCoordinator res" where
  "mc_start dest c =
     (if \<not> mc_chain c then Inl LogFatal
      else bindE (case destcube c of Some _ \<Rightarrow> Inr c
        | None \<Rightarrow> (case dest of None \<Rightarrow> Inl LogFatal
          | Some (im, sch) \<Rightarrow>
              (let trimmed_name = (if first_char (sort_column c) = CHR ''-'' then drop 1 (sort_column c) else sort_column c) in
               bindE (aggregate_offset im trimmed_name) (\<lambda>offs. bindE (nthE offs 0) (\<lambda>o1.
               Inr (c \<lparr>destcube := Some (im, sch), total_col := word_of_int o1\<rparr>)))))) (\<lambda>c1.
      Inr (c1 \<lparr>mc_running := True\<rparr>)))"

definition mc_add_chain :: "nat \<Rightarrow> bool \<Rightarrow> MultiRoundCoordinator \<Rightarrow> MultiRoundCoordinator" where
  "mc_add_chain ch head_is_this c =
     (if head_is_this then c \<lparr>mc_chain := True\<rparr> else c \<lparr>future_preds := map_set ch ch (future_preds c)\<rparr>)"

definition mc_chain_stopping :: "nat \<Rightarrow> MultiRoundCoordinator \<Rightarrow> MultiRoundCoordinator" where
  "mc_chain_stopping ch c = c \<lparr>future_preds := map_erase ch (future_preds c)\<rparr>"

definition send_up :: "DataplaneMessage \<Rightarrow> MultiRoundCoordinator \<Rightarrow> up_msgs" where
  "send_up msg c = map (\<lambda>p. (p, msg)) (predecessors c)"

text \<open>
  The first round.  Without a predecessor it asks to be run again two seconds later: the second
  component is then the end of the window to use.
\<close>

definition start_phase_1 :: "int \<Rightarrow> MultiRoundCoordinator \<Rightarrow> (up_msgs \<times> int option \<times> MultiRoundCoordinator) res" where
  "start_phase_1 w_end c =
     (if \<not> mc_running c then Inr ([], None, c)
      else case destcube c of None \<Rightarrow> Inl NullDeref | Some (im, sch) \<Rightarrow>
        (let ls = (if mc_rollup_levels c \<noteq> [] then mc_rollup_levels c else replicate (num_dimensions im) LEAF_LEVEL);
             start_proto = (mk_msg TPUT_START) \<lparr>tput_k := Some (sint (num_results c)), tput_sort_key := Some (sort_column c),
                rollup_levels := map sint ls\<rparr>;
             c1 = c \<lparr>mc_phase := ROUND_1, responses_this_phase := 0, candidates := [], predecessors := map snd (future_preds c)\<rparr>
         in if predecessors c1 = [] then Inr ([], Some (w_end + 2), c1)
            else if mc_ts_field c1 > - 1 then
              bindE (set_t_val (empty_dim_tuple sch) (mc_ts_field c1) (mc_start_ts c1)) (\<lambda>f_start.
              bindE (set_t_val (empty_dim_tuple sch) (mc_ts_field c1) w_end) (\<lambda>f_end.
              bindE (updE (rollup_levels start_proto) (nat (mc_ts_field c1)) 0) (\<lambda>rl.
              let c2 = c1 \<lparr>mc_start_ts := w_end + 1\<rparr> in
              Inr (send_up (start_proto \<lparr>tput_r1_start := Some f_start, tput_r1_end := Some f_end, rollup_levels := rl\<rparr>) c2, None, c2))))
            else Inr (send_up start_proto c1, None, c1)))"

definition calculate_tau :: "MultiRoundCoordinator \<Rightarrow> double res" where
  "calculate_tau c =
     (let vals = dsort (map (ci_val \<circ> snd) (candidates c)); n = unat (num_results c) in
      if length vals < n then (if vals = [] then Inl OutOfBounds else nthE vals (length vals - 1))
      else if first_char (sort_column c) = CHR ''-'' then nthE vals (length vals - n)
      else (if n = 0 then Inl OutOfBounds else nthE vals (n - 1)))"

definition start_phase_2 :: "MultiRoundCoordinator \<Rightarrow> (up_msgs \<times> MultiRoundCoordinator) res" where
  "start_phase_2 c = bindE (calculate_tau c) (\<lambda>tau_1.
     let t = ddiv tau_1 (dof_int (int (length (predecessors c))));
         c1 = c \<lparr>T1 := t, mc_phase := ROUND_2\<rparr>
     in Inr (send_up ((mk_msg TPUT_ROUND_2) \<lparr>tput_r2_threshold := Some t, tput_r2_col := Some (sint (total_col c1))\<rparr>) c1, c1))"

definition upper_bound :: "MultiRoundCoordinator \<Rightarrow> CandidateItem \<Rightarrow> double" where
  "upper_bound c i =
     dadd (dmul (dof_int (uint ((of_nat (length (predecessors c)) :: u64) - ci_responses i))) (T1 c)) (ci_val i)"

definition start_phase_3 :: "MultiRoundCoordinator \<Rightarrow> (up_msgs \<times> MultiRoundCoordinator) res" where
  "start_phase_3 c = (let c1 = c \<lparr>mc_phase := ROUND_3\<rparr> in
     bindE (calculate_tau c1) (\<lambda>tau.
     let qs = map (ci_example \<circ> snd) (filter (\<lambda>(_, i). dle tau (upper_bound c1 i)) (candidates c1)) in
     Inr (send_up ((mk_msg TPUT_ROUND_3) \<lparr>tput_r3_timecol := Some (mc_ts_field c1), tput_r3_query := qs\<rparr>) c1, c1)))"

definition tally_tuple :: "Tuple \<Rightarrow> MultiRoundCoordinator \<Rightarrow> MultiRoundCoordinator res" where
  "tally_tuple t c = (case destcube c of None \<Rightarrow> Inl NullDeref | Some (im, _) \<Rightarrow>
     bindE (get_dimension_key im t (get_leaf_levels im)) (\<lambda>k.
     bindE (get_rank_val t (sint (total_col c))) (\<lambda>v.
     Inr (c \<lparr>candidates := (case map_find k (candidates c) of
         Some i \<Rightarrow> map_set k (i \<lparr>ci_val := dadd (ci_val i) v, ci_responses := ci_responses i + 1\<rparr>) (candidates c)
       | None \<Rightarrow> map_set k \<lparr>ci_val = v, ci_responses = 1, ci_example = t\<rparr> (candidates c))\<rparr>))))"

text \<open>All sources have answered the round: start the next, or finish.\<close>

definition round_complete :: "MultiRoundCoordinator \<Rightarrow> (up_msgs \<times> MultiRoundCoordinator) res" where
  "round_complete c =
     (let c1 = (if candidates c = [] then c \<lparr>mc_phase := ROUND_3\<rparr> else c); c2 = c1 \<lparr>responses_this_phase := 0\<rparr> in
      case mc_phase c2 of
        ROUND_1 \<Rightarrow> start_phase_2 c2
      | ROUND_2 \<Rightarrow> start_phase_3 c2
      | ROUND_3 \<Rightarrow> Inr ([], c2 \<lparr>mc_phase := if just_once c2 then DONE else NOT_STARTED, candidates := []\<rparr>)
      | _ \<Rightarrow> Inl LogFatal)"

definition mc_end_of_window ::
  "DataplaneMessage \<Rightarrow> MultiRoundCoordinator \<Rightarrow> (up_msgs \<times> DataplaneMessage \<times> MultiRoundCoordinator) res" where
  "mc_end_of_window msg c = (case tput_round msg of None \<Rightarrow> Inl LogFatal
     | Some sender_round \<Rightarrow>
         if sender_round = phase_no (mc_phase c) then
           (let c1 = c \<lparr>responses_this_phase := responses_this_phase c + 1\<rparr> in
            bindE (if unat (responses_this_phase c1) = length (predecessors c1) then round_complete c1 else Inr ([], c1)) (\<lambda>(up, c2).
            Inr (up, if mc_phase c2 = ROUND_1 \<or> mc_phase c2 = ROUND_2 then msg \<lparr>dp_type := DP_ERROR\<rparr> else msg, c2)))
         else Inr ([], msg, c))"

definition mc_process ::
  "Tuple option list \<Rightarrow> DataplaneMessage \<Rightarrow> MultiRoundCoordinator \<Rightarrow>
   (up_msgs \<times> Tuple option list \<times> DataplaneMessage \<times> MultiRoundCoordinator) res" where
  "mc_process tuples msg c =
     bindE (if mc_phase c = ROUND_1 \<or> mc_phase c = ROUND_2
            then bindE (foldE (\<lambda>p. case p of None \<Rightarrow> Inr | Some t \<Rightarrow> tally_tuple t) tuples c) (\<lambda>c1. Inr ([], c1))
            else Inr (tuples, c)) (\<lambda>(ts, c1).
     bindE (if dp_type msg = END_OF_WINDOW then mc_end_of_window msg c1 else Inr ([], msg, c1)) (\<lambda>(up, m, c2).
     Inr (up, ts, m, c2)))"

datatype mc_timer = Delay int | StopChains "nat list"

definition mc_emit_data ::
  "int \<Rightarrow> MultiRoundCoordinator \<Rightarrow> (mc_timer \<times> up_msgs \<times> int option \<times> MultiRoundCoordinator) res" where
  "mc_emit_data now c =
     (let w_end = max (now - window_offset c) (mc_start_ts c + uint (min_window_size c)) in
      if mc_phase c = DONE then Inr (StopChains (predecessors c), [], None, c)
      else if w_end > now then Inr (Delay (to_int32 (1000 * (w_end - now))), [], None, c)
      else if wait_for_start c > 0
      then Inr (Delay (to_int32 (1000 * wait_for_start c)), [], None, c \<lparr>wait_for_start := 0\<rparr>)
      else if mc_phase c = NOT_STARTED then
        bindE (start_phase_1 w_end c) (\<lambda>(up, again, c1). Inr (Delay (sint (min_window_size c1)), up, again, c1))
      else Inr (Delay 1000, [], None, c))"

section \<open>The threshold\<close>

abbreviation d_int :: "int \<Rightarrow> double" where
  "d_int n \<equiv> Fin (of_int n)"

lemma dins_int: "dins (d_int x) (map d_int ys) = map d_int (insort x ys)"
  by (induction ys) auto

lemma dsort_int: "dsort (map d_int xs) = map d_int (sort xs)"
proof (induction xs)
  case (Cons x xs)
  then show ?case using dins_int [of x "sort xs"] by (simp add: dsort_def)
qed (simp add: dsort_def)

lemma sorted_suffix_count:
  fixes xs :: "int list"
  assumes "0 < n" and "n \<le> length xs"
  shows "n \<le> length (filter (\<lambda>x. sort xs ! (length xs - n) \<le> x) xs)"
proof -
  let ?s = "sort xs" and ?j = "length xs - n"
  have "\<forall>x \<in> set (drop ?j ?s). ?s ! ?j \<le> x"
  proof
    fix x assume "x \<in> set (drop ?j ?s)"
    then obtain i where "i < length (drop ?j ?s)" "x = drop ?j ?s ! i" by (auto simp: in_set_conv_nth)
    then show "?s ! ?j \<le> x" by (simp add: sorted_nth_mono)
  qed
  then have "filter (\<lambda>x. ?s ! ?j \<le> x) (drop ?j ?s) = drop ?j ?s" by simp
  then have "n \<le> length (filter (\<lambda>x. ?s ! ?j \<le> x) (take ?j ?s @ drop ?j ?s))" using assms by (simp add: filter_append del: append_take_drop_id)
  also have "\<dots> = length (filter (\<lambda>x. ?s ! ?j \<le> x) xs)"
    by (simp only: append_take_drop_id) (metis mset_filter mset_sort size_mset)
  finally show ?thesis .
qed

lemma sorted_nth_mem: "0 < n \<Longrightarrow> n \<le> length xs \<Longrightarrow> sort xs ! (length xs - n) \<in> set (xs :: int list)"
  by (metis diff_less length_greater_0_conv length_sort list.size(3) not_less nth_mem set_sort order_less_le_trans)

section \<open>The tally\<close>

definition ksum :: "(Tuple \<Rightarrow> DimensionKey) \<Rightarrow> (Tuple \<Rightarrow> int) \<Rightarrow> DimensionKey \<Rightarrow> Tuple list \<Rightarrow> int" where
  "ksum key v k ts = sum_list (map v (filter (\<lambda>t. key t = k) ts))"

definition kcount :: "(Tuple \<Rightarrow> DimensionKey) \<Rightarrow> DimensionKey \<Rightarrow> Tuple list \<Rightarrow> nat" where
  "kcount key k ts = length (filter (\<lambda>t. key t = k) ts)"

lemma ksum_append [simp]: "ksum key v k (xs @ ys) = ksum key v k xs + ksum key v k ys"
  by (simp add: ksum_def)

lemma kcount_append [simp]: "kcount key k (xs @ ys) = kcount key k xs + kcount key k ys"
  by (simp add: kcount_def)

text \<open>What the candidates say of the tuples counted so far.\<close>

definition tallied :: "(Tuple \<Rightarrow> DimensionKey) \<Rightarrow> (Tuple \<Rightarrow> int) \<Rightarrow> Tuple list \<Rightarrow> (DimensionKey, CandidateItem) stdmap \<Rightarrow> bool" where
  "tallied key v ts cands \<longleftrightarrow> map_wf cands \<and> (\<forall>k. case map_find k cands of
       None \<Rightarrow> k \<notin> key ` set ts
     | Some i \<Rightarrow> ci_val i = d_int (ksum key v k ts) \<and> ci_responses i = of_nat (kcount key k ts)
         \<and> ci_example i \<in> set ts \<and> key (ci_example i) = k)"

lemma tallied_Nil: "tallied key v [] []"
  by (simp add: tallied_def map_wf_def map_find_def)

text \<open>A coordinator that knows its cube, and tuples it can read.\<close>

definition readable :: "(Tuple \<Rightarrow> DimensionKey) \<Rightarrow> (Tuple \<Rightarrow> int) \<Rightarrow> MultiRoundCoordinator \<Rightarrow> Tuple \<Rightarrow> bool" where
  "readable key v c t \<longleftrightarrow> (\<exists>im sch. destcube c = Some (im, sch)
     \<and> get_dimension_key im t (get_leaf_levels im) = Inr (key t) \<and> get_rank_val t (sint (total_col c)) = Inr (d_int (v t)))"

lemma dadd_int: "\<bar>a + b\<bar> \<le> 2 ^ 53 \<Longrightarrow> dadd (d_int a) (d_int b) = d_int (a + b)"
  using dof_int_exact [of "a + b"] by (simp add: dof_int_def)

lemma tally_step:
  assumes "tallied key v ts (candidates c)" and "readable key v c t" and "\<bar>ksum key v (key t) (ts @ [t])\<bar> \<le> 2 ^ 53"
  obtains cands where "tally_tuple t c = Inr (c \<lparr>candidates := cands\<rparr>)" and "tallied key v (ts @ [t]) cands"
proof -
  let ?k = "key t" and ?cs = "candidates c"
  let ?i = "case map_find ?k ?cs of Some i \<Rightarrow> i \<lparr>ci_val := dadd (ci_val i) (d_int (v t)), ci_responses := ci_responses i + 1\<rparr>
      | None \<Rightarrow> \<lparr>ci_val = d_int (v t), ci_responses = 1, ci_example = t\<rparr>"
  have wf: "map_wf ?cs" using assms(1) by (simp add: tallied_def)
  have run: "tally_tuple t c = Inr (c \<lparr>candidates := map_set ?k ?i ?cs\<rparr>)"
    using assms(2) by (auto simp: readable_def tally_tuple_def split: option.splits)
  have one: "ksum key v k [t] = (if key t = k then v t else 0)" "kcount key k [t] = (if key t = k then 1 else 0)" for k
    by (simp_all add: ksum_def kcount_def)
  have none: "ksum key v k ts = 0 \<and> kcount key k ts = 0" if "k \<notin> key ` set ts" for k
  proof -
    have "filter (\<lambda>t. key t = k) ts = []" using that by (auto simp: filter_empty_conv)
    then show ?thesis by (simp add: ksum_def kcount_def)
  qed
  have "tallied key v (ts @ [t]) (map_set ?k ?i ?cs)"
    unfolding tallied_def
  proof (intro conjI allI)
    show "map_wf (map_set ?k ?i ?cs)" by (rule map_set_wf [OF wf])
  next
    fix k
    have f: "map_find k (map_set ?k ?i ?cs) = (if k = ?k then Some ?i else map_find k ?cs)"
      by simp
    have old: "case map_find k ?cs of None \<Rightarrow> k \<notin> key ` set ts
     | Some i \<Rightarrow> ci_val i = d_int (ksum key v k ts) \<and> ci_responses i = of_nat (kcount key k ts)
         \<and> ci_example i \<in> set ts \<and> key (ci_example i) = k" using assms(1) by (simp add: tallied_def)
    show "case map_find k (map_set ?k ?i ?cs) of None \<Rightarrow> k \<notin> key ` set (ts @ [t])
     | Some i \<Rightarrow> ci_val i = d_int (ksum key v k (ts @ [t])) \<and> ci_responses i = of_nat (kcount key k (ts @ [t]))
         \<and> ci_example i \<in> set (ts @ [t]) \<and> key (ci_example i) = k"
      using f old one [of k] none [of k] assms(3) dadd_int [of "ksum key v ?k ts" "v t"]
      by (auto split: option.splits)
  qed
  then show thesis using that run by blast
qed

lemma ksum_nonneg: "\<forall>t \<in> set ts. 0 \<le> v t \<Longrightarrow> 0 \<le> ksum key v k ts"
  unfolding ksum_def by (rule sum_list_nonneg) auto

lemma tally_list:
  assumes "tallied key v ts0 (candidates c)" and "\<forall>t \<in> set ts. readable key v c t"
    and "\<forall>t \<in> set (ts0 @ ts). 0 \<le> v t" and "\<forall>k. ksum key v k (ts0 @ ts) \<le> 2 ^ 53"
  shows "\<exists>cands. foldE (\<lambda>p. case p of None \<Rightarrow> Inr | Some t \<Rightarrow> tally_tuple t) (map Some ts) c = Inr (c \<lparr>candidates := cands\<rparr>)
     \<and> tallied key v (ts0 @ ts) cands"
  using assms
proof (induction ts arbitrary: ts0 c)
  case Nil
  then show ?case by (intro exI [of _ "candidates c"]) simp
next
  case (Cons t ts)
  have nn: "0 \<le> ksum key v k (ts0 @ [t])" "0 \<le> ksum key v k ts" for k
    using Cons.prems(3) by (auto simp del: ksum_append intro!: ksum_nonneg)
  have eq: "ts0 @ t # ts = (ts0 @ [t]) @ ts" by simp
  have "\<bar>ksum key v (key t) (ts0 @ [t])\<bar> \<le> 2 ^ 53"
    using spec [OF Cons.prems(4), of "key t"] nn [of "key t"] unfolding eq ksum_append [of _ _ _ "ts0 @ [t]"] by linarith
  moreover have "readable key v c t" using Cons.prems(2) by simp
  ultimately obtain cands where c1: "tally_tuple t c = Inr (c \<lparr>candidates := cands\<rparr>)" "tallied key v (ts0 @ [t]) cands"
    using tally_step [OF Cons.prems(1)] by blast
  have "\<forall>t \<in> set ts. readable key v (c \<lparr>candidates := cands\<rparr>) t" using Cons.prems(2) by (simp add: readable_def)
  from Cons.IH [of "ts0 @ [t]" "c \<lparr>candidates := cands\<rparr>", OF _ this] show ?case using c1 Cons.prems(3,4) by auto
qed

definition round_end :: "int \<Rightarrow> DataplaneMessage" where
  "round_end r = (mk_msg END_OF_WINDOW) \<lparr>tput_round := Some r\<rparr>"

text \<open>The answers of the sources to a round, in the order they arrive.\<close>

definition answers :: "int \<Rightarrow> Tuple list list \<Rightarrow> MultiRoundCoordinator \<Rightarrow> (up_msgs \<times> MultiRoundCoordinator) res" where
  "answers r rs c = foldE (\<lambda>ts (up, c). bindE (mc_process (map Some ts) (round_end r) c)
     (\<lambda>(up', _, _, c'). Inr (up @ up', c'))) rs ([], c)"

lemma mc_process_answer:
  assumes "mc_phase c = ROUND_1 \<or> mc_phase c = ROUND_2"
    and "foldE (\<lambda>p. case p of None \<Rightarrow> Inr | Some t \<Rightarrow> tally_tuple t) (map Some ts) c = Inr (c \<lparr>candidates := cands\<rparr>)"
  shows "bindE (mc_process (map Some ts) (round_end (phase_no (mc_phase c))) c) (\<lambda>(up', _, _, c'). Inr (up', c')) =
     (let c1 = c \<lparr>candidates := cands, responses_this_phase := responses_this_phase c + 1\<rparr> in
      if unat (responses_this_phase c1) = length (predecessors c1) then round_complete c1 else Inr ([], c1))"
  using assms by (simp add: mc_process_def mc_end_of_window_def round_end_def mk_msg_def Let_def bindE_assoc split_def)

lemma answers_run:
  assumes "mc_phase c = ROUND_1 \<or> mc_phase c = ROUND_2" and "rs \<noteq> []"
    and "unat (responses_this_phase c) + length rs = length (predecessors c)" and "length (predecessors c) < 2 ^ 32"
    and "tallied key v ts0 (candidates c)" and "\<forall>t \<in> set (concat rs). readable key v c t"
    and "\<forall>t \<in> set (ts0 @ concat rs). 0 \<le> v t" and "\<forall>k. ksum key v k (ts0 @ concat rs) \<le> 2 ^ 53"
  shows "\<exists>cands. tallied key v (ts0 @ concat rs) cands \<and> answers (phase_no (mc_phase c)) rs c =
     round_complete (c \<lparr>candidates := cands, responses_this_phase := of_nat (length (predecessors c))\<rparr>)"
  using assms
proof (induction rs arbitrary: ts0 c)
  case (Cons ts rs)
  have "\<forall>k. ksum key v k (ts0 @ ts) \<le> 2 ^ 53"
  proof
    fix k
    have "0 \<le> ksum key v k (concat rs)" using Cons.prems(7) by (auto intro!: ksum_nonneg)
    then show "ksum key v k (ts0 @ ts) \<le> 2 ^ 53" using spec [OF Cons.prems(8), of k] by simp
  qed
  moreover have "\<forall>t \<in> set ts. readable key v c t" "\<forall>t \<in> set (ts0 @ ts). 0 \<le> v t" using Cons.prems(6,7) by auto
  ultimately obtain cands where t: "foldE (\<lambda>p. case p of None \<Rightarrow> Inr | Some t \<Rightarrow> tally_tuple t) (map Some ts) c = Inr (c \<lparr>candidates := cands\<rparr>)"
      "tallied key v (ts0 @ ts) cands"
    using tally_list [OF Cons.prems(5)] by blast
  let ?c1 = "c \<lparr>candidates := cands, responses_this_phase := responses_this_phase c + 1\<rparr>"
  have u: "unat (responses_this_phase c + 1) = unat (responses_this_phase c) + 1"
    using Cons.prems(3,4) unat_add_noov32 [of "responses_this_phase c" 1] by simp
  note step = mc_process_answer [OF Cons.prems(1) t(1)]
  show ?case
  proof (cases "rs = []")
    case True
    have l: "responses_this_phase c + 1 = of_nat (length (predecessors c))"
    proof -
      have "unat (responses_this_phase c + 1) = length (predecessors c)" using Cons.prems(3) True u by simp
      then show ?thesis by (metis of_nat_unat ucast_id)
    qed
    have "answers (phase_no (mc_phase c)) [ts] c = round_complete ?c1"
      using step u Cons.prems(3) True by (simp add: answers_def Let_def split_def)
    then show ?thesis using t(2) l True by auto
  next
    case False
    then have n: "unat (responses_this_phase ?c1) \<noteq> length (predecessors ?c1)" using u Cons.prems(3) by (cases rs) auto
    have "answers (phase_no (mc_phase c)) (ts # rs) c = answers (phase_no (mc_phase ?c1)) rs ?c1"
    proof -
      obtain x where "mc_process (map Some ts) (round_end (phase_no (mc_phase c))) c = Inr x" "fst x = []" "snd (snd (snd x)) = ?c1"
        using step n by (cases "mc_process (map Some ts) (round_end (phase_no (mc_phase c))) c") (auto simp: Let_def split_def)
      then show ?thesis by (simp add: answers_def split_def)
    qed
    moreover have "\<forall>t \<in> set (concat rs). readable key v ?c1 t" using Cons.prems(6) by (simp add: readable_def)
    ultimately show ?thesis
      using Cons.IH [of ?c1 "ts0 @ ts"] False Cons.prems(1,3,4,7,8) t(2) u by simp
  qed
qed simp

section \<open>Pruning keeps the top k\<close>

lemma tallied_entry: "tallied key v ts cs \<Longrightarrow> (k, i) \<in> set cs \<Longrightarrow>
   ci_val i = d_int (ksum key v k ts) \<and> ci_responses i = of_nat (kcount key k ts) \<and> ci_example i \<in> set ts \<and> key (ci_example i) = k"
  unfolding tallied_def by (auto simp: map_find_Some dest!: spec [of _ k] split: option.splits)

lemma tallied_keys: "tallied key v ts cs \<Longrightarrow> fst ` set cs = key ` set ts"
proof -
  assume t: "tallied key v ts cs"
  have "k \<in> fst ` set cs" if "k \<in> key ` set ts" for k
  proof (rule ccontr)
    assume "k \<notin> fst ` set cs"
    then have "map_find k cs = None" by (simp add: map_find_None)
    then show False using t that by (auto simp: tallied_def dest!: spec [of _ k])
  qed
  moreover have "k \<in> key ` set ts" if ki: "k \<in> fst ` set cs" for k
  proof -
    obtain i where "(k, i) \<in> set cs" using ki by force
    then show ?thesis using tallied_entry [OF t] by blast
  qed
  ultimately show ?thesis by blast
qed

lemma tallied_length: "tallied key v ts cs \<Longrightarrow> length cs = card (key ` set ts)"
  using tallied_keys [of key v ts cs] map_wf_distinct [of cs] distinct_card [of "map fst cs"] by (simp add: tallied_def)

text \<open>The threshold of a tally is one of the sums, and as many keys as asked for reach it.\<close>

lemma calculate_tau_tallied:
  assumes "tallied key v ts (candidates c)" and "first_char (sort_column c) = CHR ''-''"
    and "0 < unat (num_results c)" and "unat (num_results c) \<le> card (key ` set ts)"
  obtains tau K where "calculate_tau c = Inr (d_int tau)" and "finite K" and "card K = unat (num_results c)"
    and "\<And>k. k \<in> K \<Longrightarrow> tau \<le> ksum key v k ts" and "\<exists>k. tau = ksum key v k ts"
proof -
  let ?cs = "candidates c" and ?n = "unat (num_results c)"
  let ?f = "\<lambda>(k, i :: CandidateItem). ksum key v k ts"
  let ?xs = "map ?f ?cs"
  let ?tau = "sort ?xs ! (length ?xs - ?n)"
  have len: "?n \<le> length ?xs" using assms(1,4) tallied_length by simp
  have "map (ci_val \<circ> snd) ?cs = map d_int ?xs"
    using tallied_entry [OF assms(1)] by (auto intro!: map_cong)
  then have tau: "calculate_tau c = Inr (d_int ?tau)"
    using len assms(2,3) by (simp add: calculate_tau_def Let_def dsort_int del: map_map)
  let ?S = "filter (\<lambda>p. ?tau \<le> ?f p) ?cs"
  have "?n \<le> length (filter (\<lambda>x. ?tau \<le> x) ?xs)" by (rule sorted_suffix_count [OF assms(3) len])
  also have "\<dots> = length ?S" by (simp add: filter_map o_def)
  also have "\<dots> = card (fst ` set ?S)"
    using distinct_card [of "map fst ?S"] map_wf_distinct [of ?cs] assms(1) by (simp add: tallied_def distinct_map_filter)
  finally obtain K where K: "K \<subseteq> fst ` set ?S" "card K = ?n" "finite K" by (meson obtain_subset_with_card_n)
  moreover have "?tau \<le> ksum key v k ts" if "k \<in> K" for k using K(1) that by auto
  moreover have "\<exists>k. ?tau = ksum key v k ts"
    using sorted_nth_mem [OF assms(3) len] by auto
  ultimately show thesis using that tau by blast
qed

definition total :: "nat \<Rightarrow> (nat \<Rightarrow> DimensionKey \<Rightarrow> int) \<Rightarrow> DimensionKey \<Rightarrow> int" where
  "total m cell k = (\<Sum>i<m. cell i k)"

text \<open>A key is beaten when as many keys as the result holds have a greater total.\<close>

definition beaten :: "nat \<Rightarrow> nat \<Rightarrow> (nat \<Rightarrow> DimensionKey \<Rightarrow> int) \<Rightarrow> DimensionKey \<Rightarrow> bool" where
  "beaten n m cell k \<longleftrightarrow> (\<exists>K. finite K \<and> card K = n \<and> (\<forall>k' \<in> K. total m cell k < total m cell k'))"

text \<open>
  What source i answers in the two rounds: the cells it holds, each at most once.  \<^verbatim>\<open>cell i k\<close> is
  the value of key k at source i, 0 where it has none.
\<close>

definition sources_answer ::
  "(Tuple \<Rightarrow> DimensionKey) \<Rightarrow> (Tuple \<Rightarrow> int) \<Rightarrow> nat \<Rightarrow> (nat \<Rightarrow> DimensionKey \<Rightarrow> int) \<Rightarrow> (nat \<Rightarrow> Tuple list) \<Rightarrow> (nat \<Rightarrow> Tuple list) \<Rightarrow> bool" where
  "sources_answer key v m cell R1 R2 \<longleftrightarrow>
     (\<forall>i < m. distinct (map key (R1 i @ R2 i)) \<and> (\<forall>t \<in> set (R1 i @ R2 i). v t = cell i (key t)) \<and> (\<forall>k. 0 \<le> cell i k))
     \<and> (\<forall>k. total m cell k \<le> 2 ^ 53)"

text \<open>Round 2 as the protocol asks for it: what a source has not sent by then is below the threshold.\<close>

definition round_2_complete ::
  "(Tuple \<Rightarrow> DimensionKey) \<Rightarrow> nat \<Rightarrow> (nat \<Rightarrow> DimensionKey \<Rightarrow> int) \<Rightarrow> (nat \<Rightarrow> Tuple list) \<Rightarrow> (nat \<Rightarrow> Tuple list) \<Rightarrow> double \<Rightarrow> bool" where
  "round_2_complete key m cell R1 R2 T \<longleftrightarrow>
     (\<forall>i < m. \<forall>k. k \<notin> key ` set (R1 i @ R2 i) \<longrightarrow> dlt (d_int (cell i k)) T)"

lemma ksum_distinct:
  "distinct (map key ts) \<Longrightarrow> \<forall>t \<in> set ts. v t = f (key t) \<Longrightarrow>
     ksum key v k ts = (if k \<in> key ` set ts then f k else 0) \<and> kcount key k ts = (if k \<in> key ` set ts then 1 else 0)"
proof (induction ts)
  case (Cons t ts)
  then show ?case by (auto simp: ksum_def kcount_def)
qed (simp add: ksum_def kcount_def)

lemma ksum_concat: "distinct os \<Longrightarrow> set os = {..<m} \<Longrightarrow> ksum key v k (concat (map R os)) = (\<Sum>i<m. ksum key v k (R i))"
proof -
  assume o: "distinct os" "set os = {..<m}"
  have "ksum key v k (concat (map R os)) = sum_list (map (\<lambda>i. ksum key v k (R i)) os)"
    by (induction os) (auto simp: ksum_def)
  then show ?thesis using o by (simp add: sum_list_distinct_conv_sum_set)
qed

lemma kcount_concat: "distinct os \<Longrightarrow> set os = {..<m} \<Longrightarrow> kcount key k (concat (map R os)) = (\<Sum>i<m. kcount key k (R i))"
proof -
  assume o: "distinct os" "set os = {..<m}"
  have "kcount key k (concat (map R os)) = sum_list (map (\<lambda>i. kcount key k (R i)) os)"
    by (induction os) (auto simp: kcount_def)
  then show ?thesis using o by (simp add: sum_list_distinct_conv_sum_set)
qed

text \<open>An integer below the rounded threshold is below the exact one.\<close>

lemma below_threshold:
  assumes "of_int x < rnd (of_int tau / of_nat m)" and "0 \<le> x" and "x \<le> 2 ^ 53"
  shows "of_int x < (of_int tau / of_nat m :: rat)"
proof (rule ccontr)
  assume "\<not> of_int x < (of_int tau / of_nat m :: rat)"
  then have "rnd (of_int tau / of_nat m) \<le> of_int x" using assms(2,3) by (intro rnd_le_int) auto
  then show False using assms(1) by simp
qed

lemma threshold_value:
  assumes "0 \<le> tau" and "tau \<le> 2 ^ 53" and "0 < m" and "m < 2 ^ 32"
  shows "ddiv (d_int tau) (dof_int (int m)) = Fin (rnd (of_int tau / of_nat m))"
    and "0 \<le> rnd (of_int tau / of_nat m)" and "rnd (of_int tau / of_nat m) \<le> 2 ^ 53"
proof -
  have "dof_int (int m) = Fin (of_nat m)" using assms(4) by (subst dof_int_exact) auto
  moreover have q: "of_int 0 \<le> (of_int tau / of_nat m :: rat)" "(of_int tau / of_nat m :: rat) \<le> of_int (2 ^ 53)"
  proof -
    show "of_int 0 \<le> (of_int tau / of_nat m :: rat)" using assms(1) by simp
    have "(1 :: rat) \<le> of_nat m" using assms(3) by simp
    then have "(of_int tau / of_nat m :: rat) \<le> of_int tau"
      using assms(1) mult_left_mono [of 1 "of_nat m :: rat" "of_int tau"] by (simp add: divide_le_eq)
    also have "\<dots> \<le> of_int (2 ^ 53)" using assms(2) by (simp only: of_int_le_iff)
    finally show "(of_int tau / of_nat m :: rat) \<le> of_int (2 ^ 53)" .
  qed
  note f = mk_double_fin_int [OF q]
  ultimately show "ddiv (d_int tau) (dof_int (int m)) = Fin (rnd (of_int tau / of_nat m))"
    using f(1) assms(3) by simp
  show "0 \<le> rnd (of_int tau / of_nat m)" "rnd (of_int tau / of_nat m) \<le> 2 ^ 53" using f(2,3) by simp_all
qed

lemma unreported_below:
  assumes "\<And>i. i < m \<Longrightarrow> of_int (cell i k) < rnd (of_int tau / of_nat m)" and "0 < m"
    and "\<And>i. i < m \<Longrightarrow> 0 \<le> cell i k" and "total m cell k \<le> 2 ^ 53"
  shows "total m cell k < tau"
proof -
  have le: "cell i k \<le> 2 ^ 53" if "i < m" for i
    using member_le_sum [of i "{..<m}" "\<lambda>i. cell i k"] assms(3,4) that by (simp add: total_def)
  have "(\<Sum>i<m. of_int (cell i k)) < (\<Sum>i<m. of_int tau / of_nat m :: rat)"
    using assms(2) by (intro sum_strict_mono) (auto intro!: below_threshold assms(1,3) le)
  then have "(of_int (total m cell k) :: rat) < of_int tau" using assms(2) by (simp add: total_def)
  then show ?thesis by simp
qed

text \<open>
  The bound of a candidate is at least its total: what is missing is below the threshold at every
  source that has not reported it.
\<close>

lemma upper_bound_total:
  assumes "ci_val i = d_int s" and "ci_responses i = of_nat r" and "length (predecessors c) = m" and "m < 2 ^ 32" and "r \<le> m"
    and "T1 c = Fin T" and "0 \<le> T" and "T \<le> 2 ^ 53" and "of_int rest \<le> of_nat (m - r) * T"
    and "0 \<le> s" and "0 \<le> rest" and "s + rest \<le> 2 ^ 53"
  shows "dle (d_int (s + rest)) (upper_bound c i)"
proof -
  have "(of_nat m :: u64) - of_nat r = of_nat (m - r)" using assms(5) by (simp add: of_nat_diff)
  moreover have "unat (of_nat (m - r) :: u64) = m - r" using assms(4) by (intro unat_of_nat64) simp
  ultimately have u: "uint ((of_nat m :: u64) - of_nat r) = int (m - r)" by (metis uint_nat)
  have d: "dof_int (int (m - r)) = Fin (of_nat (m - r))" using assms(4) by (subst dof_int_exact) auto
  let ?p = "of_nat (m - r) * T :: rat"
  have "(of_nat (m - r) :: rat) \<le> of_nat (2 ^ 32)" using assms(4) by (simp only: of_nat_le_iff)
  then have mr: "(of_nat (m - r) :: rat) \<le> 2 ^ 32" by simp
  have "?p \<le> 2 ^ 32 * 2 ^ 53" using mr assms(7,8) by (intro mult_mono) auto
  then have p: "\<bar>?p\<bar> \<le> 2 powi 85" using assms(7) by (simp add: abs_of_nonneg power_int_def)
  have m1: "mk_double ?p = Fin (rnd ?p)" "\<bar>rnd ?p\<bar> \<le> 2 powi 85" using mk_double_fin [OF p] by simp_all
  have ge: "of_int rest \<le> rnd ?p" using assms(9-12) by (intro rnd_ge_int) auto
  have "s \<le> 2 ^ 53" using assms(11,12) by linarith
  then have "(of_int s :: rat) \<le> of_int (2 ^ 53)" by (simp only: of_int_le_iff)
  then have s53: "of_int s \<le> (2 ^ 53 :: rat)" by simp
  have "\<bar>rnd ?p + of_int s\<bar> \<le> 2 powi 86"
  proof -
    have "\<bar>rnd ?p + of_int s\<bar> \<le> 2 powi 85 + 2 ^ 53" using m1(2) s53 assms(10) by (simp add: abs_le_iff)
    also have "\<dots> \<le> 2 powi 86" by (simp add: power_int_def)
    finally show ?thesis .
  qed
  then have m2: "mk_double (rnd ?p + of_int s) = Fin (rnd (rnd ?p + of_int s))" by (rule mk_double_fin) simp_all
  have "of_int (s + rest) \<le> rnd (rnd ?p + of_int s)"
    using ge assms(10-12) by (intro rnd_ge_int) auto
  then show ?thesis
    unfolding upper_bound_def using assms(1-3,6) u d m1(1) m2 by simp
qed

text \<open>A coordinator that has just asked for round 1.\<close>

definition round_1_open :: "nat \<Rightarrow> MultiRoundCoordinator \<Rightarrow> bool" where
  "round_1_open m c \<longleftrightarrow> mc_phase c = ROUND_1 \<and> responses_this_phase c = 0 \<and> candidates c = [] \<and> length (predecessors c) = m
     \<and> 0 < m \<and> m < 2 ^ 32 \<and> first_char (sort_column c) = CHR ''-'' \<and> 0 < unat (num_results c)"

definition in_order :: "nat \<Rightarrow> nat list \<Rightarrow> bool" where
  "in_order m os \<longleftrightarrow> distinct os \<and> set os = {..<m}"

lemma sources_sums:
  assumes "sources_answer key v m cell R1 R2" and "in_order m o1" and "in_order m o2"
  shows "ksum key v k (concat (map R1 o1) @ concat (map R2 o2)) = (\<Sum>i<m. if k \<in> key ` set (R1 i @ R2 i) then cell i k else 0)"
    and "kcount key k (concat (map R1 o1) @ concat (map R2 o2)) = (\<Sum>i<m. if k \<in> key ` set (R1 i @ R2 i) then 1 else 0)"
    and "ksum key v k (concat (map R1 o1)) \<le> total m cell k"
    and "ksum key v k (concat (map R1 o1) @ concat (map R2 o2)) \<le> total m cell k"
    and "\<forall>t \<in> set (concat (map R1 o1) @ concat (map R2 o2)). 0 \<le> v t"
proof -
  have o: "distinct o1" "set o1 = {..<m}" "distinct o2" "set o2 = {..<m}" using assms(2,3) by (auto simp: in_order_def)
  have a: "distinct (map key (R1 i @ R2 i))" "\<forall>t \<in> set (R1 i @ R2 i). v t = cell i (key t)" "0 \<le> cell i k" if "i < m" for i k
    using assms(1) that by (auto simp: sources_answer_def)
  have s: "ksum key v k (R1 i) + ksum key v k (R2 i) = (if k \<in> key ` set (R1 i @ R2 i) then cell i k else 0)
      \<and> kcount key k (R1 i) + kcount key k (R2 i) = (if k \<in> key ` set (R1 i @ R2 i) then 1 else 0)" if "i < m" for i k
    using ksum_distinct [OF a(1,2) [OF that], of k] by simp
  have nn: "\<forall>t \<in> set (R1 i @ R2 i). 0 \<le> v t" if "i < m" for i using a(2,3) [OF that] by auto
  show sum: "ksum key v k (concat (map R1 o1) @ concat (map R2 o2)) = (\<Sum>i<m. if k \<in> key ` set (R1 i @ R2 i) then cell i k else 0)"
    using s by (simp add: ksum_concat [OF o(1,2)] ksum_concat [OF o(3,4)] flip: sum.distrib)
  show "kcount key k (concat (map R1 o1) @ concat (map R2 o2)) = (\<Sum>i<m. if k \<in> key ` set (R1 i @ R2 i) then 1 else 0)"
    using s by (simp add: kcount_concat [OF o(1,2)] kcount_concat [OF o(3,4)] flip: sum.distrib)
  show le: "ksum key v k (concat (map R1 o1) @ concat (map R2 o2)) \<le> total m cell k"
    unfolding sum total_def using a(3) by (intro sum_mono) auto
  show pos: "\<forall>t \<in> set (concat (map R1 o1) @ concat (map R2 o2)). 0 \<le> v t" using nn o by fastforce
  then have "0 \<le> ksum key v k (concat (map R2 o2))" by (intro ksum_nonneg) auto
  then show "ksum key v k (concat (map R1 o1)) \<le> total m cell k" using le by simp
qed

lemma round_complete_1:
  assumes "mc_phase c = ROUND_1" and "candidates c \<noteq> []" and "calculate_tau (c \<lparr>responses_this_phase := 0\<rparr>) = Inr tau"
  shows "round_complete c = (let c1 = c \<lparr>responses_this_phase := 0, T1 := ddiv tau (dof_int (int (length (predecessors c)))), mc_phase := ROUND_2\<rparr>
     in Inr (send_up ((mk_msg TPUT_ROUND_2) \<lparr>tput_r2_threshold := Some (T1 c1), tput_r2_col := Some (sint (total_col c1))\<rparr>) c1, c1))"
  using assms by (simp add: round_complete_def start_phase_2_def Let_def send_up_def)

lemma round_complete_2:
  assumes "mc_phase c = ROUND_2" and "candidates c \<noteq> []" and "calculate_tau (c \<lparr>responses_this_phase := 0, mc_phase := ROUND_3\<rparr>) = Inr tau"
  shows "\<exists>up c'. round_complete c = Inr (up, c') \<and> up = map (\<lambda>p. (p, (mk_msg TPUT_ROUND_3) \<lparr>tput_r3_timecol := Some (mc_ts_field c),
       tput_r3_query := map (ci_example \<circ> snd) (filter (\<lambda>(_, i). dle tau (upper_bound c i)) (candidates c))\<rparr>)) (predecessors c)"
  using assms by (simp add: round_complete_def start_phase_3_def Let_def send_up_def upper_bound_def)

lemma calculate_tau_cong:
  "candidates c' = candidates c \<Longrightarrow> num_results c' = num_results c \<Longrightarrow> sort_column c' = sort_column c \<Longrightarrow> calculate_tau c' = calculate_tau c"
  by (simp add: calculate_tau_def Let_def)

lemma candidate_reaches:
  assumes "sources_answer key v m cell R1 R2" and "in_order m o1" and "in_order m o2"
    and "round_2_complete key m cell R1 R2 (Fin T)" and "0 \<le> T" and "T \<le> 2 ^ 53" and "m < 2 ^ 32"
    and "tallied key v (concat (map R1 o1) @ concat (map R2 o2)) (candidates c)" and "(k, i) \<in> set (candidates c)"
    and "length (predecessors c) = m" and "T1 c = Fin T"
  shows "dle (d_int (total m cell k)) (upper_bound c i)"
proof -
  let ?rep = "\<lambda>i. k \<in> key ` set (R1 i @ R2 i)" and ?ts = "concat (map R1 o1) @ concat (map R2 o2)"
  let ?s = "\<Sum>i<m. if ?rep i then cell i k else 0" and ?rest = "\<Sum>i<m. if ?rep i then 0 else cell i k"
  let ?r = "\<Sum>i<m. if ?rep i then 1 else 0 :: nat" and ?q = "\<Sum>i<m. if ?rep i then 0 else 1 :: nat"
  have nn: "0 \<le> cell i k" if "i < m" for i using assms(1) that by (auto simp: sources_answer_def)
  have tot: "total m cell k = ?s + ?rest" unfolding total_def by (subst sum.distrib [symmetric], rule sum.cong) auto
  have "?r + ?q = (\<Sum>i<m. 1)" by (subst sum.distrib [symmetric], rule sum.cong) auto
  then have mr: "?r + ?q = m" by simp
  note e = tallied_entry [OF assms(8,9)]
  note ss = sources_sums [OF assms(1-3)]
  have "(of_int ?rest :: rat) = (\<Sum>i<m. if ?rep i then 0 else of_int (cell i k))" by (simp add: if_distrib cong: if_cong)
  also have "\<dots> \<le> (\<Sum>i<m. if ?rep i then 0 else T)"
    using assms(4) by (intro sum_mono) (auto simp: round_2_complete_def less_imp_le)
  also have "\<dots> = of_nat ?q * T" unfolding of_nat_sum sum_distrib_right by (rule sum.cong) auto
  finally have le: "of_int ?rest \<le> of_nat ?q * T" .
  have "m - ?r = ?q" using mr by linarith
  then have rest: "of_int ?rest \<le> of_nat (m - ?r) * T" using le by (simp only:)
  have "dle (d_int (?s + ?rest)) (upper_bound c i)"
  proof (rule upper_bound_total [OF _ _ assms(10) assms(7) _ assms(11) assms(5,6) rest])
    show "ci_val i = d_int ?s" using e unfolding ss(1) by blast
    show "ci_responses i = of_nat ?r" using e unfolding ss(2) by blast
    show "?r \<le> m" using mr by linarith
    show "0 \<le> ?s" "0 \<le> ?rest" using nn by (auto intro!: sum_nonneg)
    show "?s + ?rest \<le> 2 ^ 53" unfolding tot [symmetric] using assms(1) by (simp add: sources_answer_def)
  qed
  then show ?thesis using tot by simp
qed

lemma unbeaten_queried:
  assumes "sources_answer key v m cell R1 R2" and "in_order m o1" and "in_order m o2" and "0 < m" and "m < 2 ^ 32"
    and "round_2_complete key m cell R1 R2 (Fin T)" and "T = rnd (of_int tau1 / of_nat m)" and "0 \<le> T" and "T \<le> 2 ^ 53"
    and "tallied key v (concat (map R1 o1) @ concat (map R2 o2)) (candidates c)" and "length (predecessors c) = m" and "T1 c = Fin T"
    and "finite K1" and "card K1 = n" and "\<And>k. k \<in> K1 \<Longrightarrow> tau1 \<le> ksum key v k (concat (map R1 o1))"
    and "finite K2" and "card K2 = n" and "\<And>k. k \<in> K2 \<Longrightarrow> tau2 \<le> ksum key v k (concat (map R1 o1) @ concat (map R2 o2))"
    and "\<not> beaten n m cell k"
  shows "\<exists>i. (k, i) \<in> set (candidates c) \<and> dle (d_int tau2) (upper_bound c i)"
proof -
  let ?a = "concat (map R1 o1)" and ?b = "concat (map R2 o2)"
  note ss = sources_sums [OF assms(1-3)]
  have le: "total m cell k \<le> 2 ^ 53" for k using assms(1) by (simp add: sources_answer_def)
  have beat: "tau \<le> total m cell k" if "finite K" "card K = n" "\<And>k'. k' \<in> K \<Longrightarrow> tau \<le> total m cell k'" for K tau
    using assms(19) that by (fastforce simp: beaten_def)
  have g1: "tau1 \<le> total m cell k" by (rule beat [OF assms(13,14)]) (use assms(15) ss(3) order_trans in blast)
  have g2: "tau2 \<le> total m cell k" by (rule beat [OF assms(16,17)]) (use assms(18) ss(4) order_trans in blast)
  have "k \<in> key ` set (?a @ ?b)"
  proof (rule ccontr)
    assume n: "k \<notin> key ` set (?a @ ?b)"
    have "total m cell k < tau1"
    proof (rule unreported_below [OF _ assms(4) _ le])
      fix i assume i: "i < m"
      then have "k \<notin> key ` set (R1 i @ R2 i)" using n assms(2,3) by (auto simp: in_order_def)
      then show "of_int (cell i k) < rnd (of_int tau1 / of_nat m)" using assms(6,7) i by (auto simp: round_2_complete_def)
      show "0 \<le> cell i k" using assms(1) i by (auto simp: sources_answer_def)
    qed
    then show False using g1 by simp
  qed
  then have "k \<in> fst ` set (candidates c)" using tallied_keys [OF assms(10)] by simp
  then obtain i where i: "(k, i) \<in> set (candidates c)" by force
  have "dle (d_int (total m cell k)) (upper_bound c i)"
    by (rule candidate_reaches [OF assms(1-3) assms(6) assms(8,9) assms(5) assms(10) i assms(11,12)])
  moreover have "dle (d_int tau2) (d_int (total m cell k))" using g2 by simp
  ultimately show ?thesis using i dle_trans by blast
qed


section \<open>Two nodes\<close>

definition rank_cube :: DataCubeImpl where
  "rank_cube = \<lparr>ci_dimensions = [\<lparr>d_name = ''url'', d_type = DIM_STRING, d_indexes = [0]\<rparr>],
     ci_aggregates = [\<lparr>a_class = MTSum, a_name = ''count'', a_indexes = [1]\<rparr>],
     dimensionMap = [(''url'', 0)], aggregateMap = [(''count'', 0)], src_tuple_min_len = 0\<rparr>"

definition rank_schema :: CubeSchema where
  "rank_schema = \<lparr>impl = None, dimensions = [\<lparr>dim_name = ''url'', dim_type = DIM_STRING, dim_tuple_indexes = [0]\<rparr>],
     aggregates = [\<lparr>agg_name = ''count'', agg_type = ''count'', agg_tuple_indexes = [1]\<rparr>]\<rparr>"

definition rank_cell :: "string \<Rightarrow> int \<Rightarrow> Tuple" where
  "rank_cell u n = \<lparr>e = [string_element u, int_element n], version = None\<rparr>"

definition rank_key :: "Tuple \<Rightarrow> DimensionKey" where
  "rank_key t = the_ok (get_dimension_key rank_cube t (get_leaf_levels rank_cube))"

definition rank_val :: "Tuple \<Rightarrow> int" where
  "rank_val t = get_i_val (e t ! 1)"

text \<open>A store answers with the cells that match the url of the slice, by falling count when it is sorted.\<close>

definition rank_queries :: "Tuple list QueryOps" where
  "rank_queries = \<lparr>slice_query = (\<lambda>_ _ _ _ _ cells. cells),
     slice_and_rollup = (\<lambda>_ mn _ order lim cells.
       let found = filter (\<lambda>t. case s_val (e mn ! 0) of None \<Rightarrow> True | Some u \<Rightarrow> get_s_val (e t ! 0) = u) cells;
           ranked = (if order = [] then found else sort_key (\<lambda>t. - rank_val t) found)
       in if lim = 0 then ranked else take (unat lim) ranked)\<rparr>"

definition rank_coordinator :: MultiRoundCoordinator where
  "rank_coordinator = \<lparr>predecessors = [], future_preds = [(0, 0), (1, 1)], mc_running = True, mc_chain = True, num_results = 1,
     min_window_size = 1, mc_rollup_levels = [1], mc_start_ts = 0, mc_ts_field = - 1, window_offset = 0,
     sort_column = ''-count'', just_once = True, responses_this_phase = 0, total_col = 1,
     destcube = Some (rank_cube, rank_schema), T1 = Fin 0, wait_for_start = 0, candidates = [], mc_phase = NOT_STARTED\<rparr>"

definition rank_open :: MultiRoundCoordinator where
  "rank_open = rank_coordinator \<lparr>mc_phase := ROUND_1, predecessors := [0, 1]\<rparr>"

definition rank_r1 :: "nat \<Rightarrow> Tuple list" where
  "rank_r1 i = (if i = 0 then [rank_cell ''x'' 10] else [rank_cell ''y'' 9])"

definition rank_r2 :: "nat \<Rightarrow> Tuple list" where
  "rank_r2 i = [rank_cell ''z'' 6]"

definition rank_holds :: "nat \<Rightarrow> DimensionKey \<Rightarrow> int" where
  "rank_holds i k = (if k = ''z|1|'' then 6 else if i = 0 \<and> k = ''x|1|'' then 10 else if i = 1 \<and> k = ''y|1|'' then 9 else 0)"

lemma rank_key_cell:
  assumes "length u < 254"
  shows "get_dimension_key rank_cube (rank_cell u n) (get_leaf_levels rank_cube) = Inr (u @ ''|1|'')"
    and "rank_key (rank_cell u n) = u @ ''|1|''"
  using assms show_nat_1
  by (simp_all add: rank_key_def get_dimension_key_def get_leaf_levels_def rank_cube_def leaf_level_def flat_leaf_level_def
      get_key_def rank_cell_def tuple_e_def string_get_key_def)

lemma rank_readable: "length u < 254 \<Longrightarrow> in_int n \<Longrightarrow> readable rank_key rank_val rank_open (rank_cell u n)"
  by (auto simp: readable_def rank_open_def rank_coordinator_def rank_key_cell rank_val_def get_i_val_def
      get_rank_val_def tuple_e_def rank_cell_def dof_int32_exact) (simp add: rank_cell_def [symmetric] rank_key_cell)

lemma rank_threshold: "map_sum id (T1 \<circ> snd) (answers 1 (map rank_r1 [0, 1]) rank_open) = Inr (Fin 5)"
  by code_simp


lemma take_ranked_prefix:
  "take_ranked ok cl ts = Inr us \<Longrightarrow> (\<exists>rest. ts = us @ rest) \<and> (\<forall>t \<in> set us. \<exists>x. get_rank_val t cl = Inr x \<and> ok x)"
proof (induction ts arbitrary: us)
  case (Cons t ts)
  then obtain x where x: "get_rank_val t cl = Inr x" by (auto simp: res_simps)
  show ?case
  proof (cases "ok x")
    case True
    then obtain us' where "take_ranked ok cl ts = Inr us'" "us = t # us'" using Cons.prems x by (auto simp: res_simps)
    then show ?thesis using Cons.IH x True by auto
  qed (use Cons.prems x in simp)
qed simp

text \<open>
  Round 2 loses the direction of the sort.  The message that opens it carries neither
  the sort key nor k, so a sender that ranks by falling values takes the rank to be rising: what
  it sends is a prefix of its whole ranking, the cells of round 1 not skipped, and every cell in
  it is at most the threshold instead of at least it.
\<close>

theorem round_2_loses_direction:
  assumes "start_phase_2 c = Inr (up, c1)" and "(p, msg) \<in> set up"
    and "meta_from_downstream qo sch msg st s = Inr (r, s')"
  shows "\<not> take_greatest s' \<and> (\<exists>buf marker rest. r = Some (buf, marker)
     \<and> slice_and_rollup qo (ms_rollup_levels s) (ms_min s) (ms_max s) (ms_sort_order s) 0 st = buf @ rest
     \<and> (\<forall>t \<in> set buf. \<exists>x. get_rank_val t (sint (total_col c)) = Inr x \<and> dle x (T1 c1)))"
proof -
  have msg: "msg = (mk_msg TPUT_ROUND_2) \<lparr>tput_r2_threshold := Some (T1 c1), tput_r2_col := Some (sint (total_col c))\<rparr>"
    using assms(1,2) by (auto simp: start_phase_2_def Let_def res_simps send_up_def)
  then obtain buf where b: "sender_round_2 qo msg st (s \<lparr>take_greatest := False\<rparr>) = Inr buf"
      "r = Some (buf, (mk_msg END_OF_WINDOW) \<lparr>tput_round := Some 2\<rparr>)" "s' = s \<lparr>take_greatest := False\<rparr>"
    using assms(3) by (auto simp: meta_from_downstream_def mk_msg_def get_string_def first_char_def Let_def res_simps)
  have "take_ranked (\<lambda>x. dle x (T1 c1)) (sint (total_col c))
      (slice_and_rollup qo (ms_rollup_levels s) (ms_min s) (ms_max s) (ms_sort_order s) 0 st) = Inr buf"
    using b(1) by (simp add: sender_round_2_def msg mk_msg_def get_int32_def get_double_def)
  from take_ranked_prefix [OF this] show ?thesis using b(2,3) by auto
qed

definition rank_sender :: MultiRoundSender where
  "rank_sender = (new_MultiRoundSender True) \<lparr>ms_sort_order := [''-count''], ms_rollup_levels := [1],
     ms_min := empty_dim_tuple rank_schema, ms_max := empty_dim_tuple rank_schema\<rparr>"

text \<open>The protocol between real senders and the coordinator: every message is answered in turn.\<close>

definition deliver ::
  "'b QueryOps \<Rightarrow> CubeSchema \<Rightarrow> 'b list \<Rightarrow> up_msgs \<Rightarrow> MultiRoundSender list \<times> MultiRoundCoordinator \<Rightarrow>
   (up_msgs \<times> Tuple option list \<times> MultiRoundSender list \<times> MultiRoundCoordinator) res" where
  "deliver qo sch stores ups sc = foldE (\<lambda>(p, msg) (up, out, ss, c).
     bindE (nthE ss p) (\<lambda>s. bindE (nthE stores p) (\<lambda>st.
     bindE (meta_from_downstream qo sch msg st s) (\<lambda>(r, s'). case r of None \<Rightarrow> Inr (up, out, ss[p := s'], c)
       | Some (buf, marker) \<Rightarrow> bindE (mc_process (map Some buf) marker c) (\<lambda>(up', ts, _, c').
           Inr (up @ up', out @ ts, ss[p := s'], c')))))) ups ([], [], sc)"

definition tput_protocol ::
  "'b QueryOps \<Rightarrow> CubeSchema \<Rightarrow> 'b list \<Rightarrow> MultiRoundSender list \<Rightarrow> int \<Rightarrow> MultiRoundCoordinator \<Rightarrow>
   (Tuple option list \<times> MultiRoundCoordinator) res" where
  "tput_protocol qo sch stores ss w_end c =
     bindE (start_phase_1 w_end c) (\<lambda>(up1, _, c1).
     bindE (deliver qo sch stores up1 (ss, c1)) (\<lambda>(up2, out1, ss2, c2).
     bindE (deliver qo sch stores up2 (ss2, c2)) (\<lambda>(up3, out2, ss3, c3).
     bindE (deliver qo sch stores up3 (ss3, c3)) (\<lambda>(_, out3, _, c4).
     Inr (out1 @ out2 @ out3, c4)))))"

definition node_a :: "Tuple list" where
  "node_a = [rank_cell ''x'' 10, rank_cell ''z'' 6]"

definition node_b :: "Tuple list" where
  "node_b = [rank_cell ''y'' 9, rank_cell ''z'' 6]"

text \<open>
  The top url of two nodes is z with 12 in total; the protocol as it is sends on only x and y and
  ends.
\<close>

theorem tput_misses_top:
  "map_sum id (\<lambda>(out, c). (map (map_option (\<lambda>t. get_s_val (e t ! 0))) out, mc_phase c))
     (tput_protocol rank_queries rank_schema [node_a, node_b] [new_MultiRoundSender False, new_MultiRoundSender False] 100 rank_coordinator)
   = Inr ([Some ''x'', Some ''y''], DONE)"
  by code_simp

definition rank_after_1 :: MultiRoundCoordinator where
  "rank_after_1 = rank_open \<lparr>candidates := [(''x|1|'', \<lparr>ci_val = Fin 10, ci_responses = 1, ci_example = rank_cell ''x'' 10\<rparr>),
     (''y|1|'', \<lparr>ci_val = Fin 9, ci_responses = 1, ci_example = rank_cell ''y'' 9\<rparr>)]\<rparr>"

lemma rank_round_2_opened:
  "map_sum id (\<lambda>(up, c). (map fst up, T1 c)) (start_phase_2 rank_after_1) = Inr ([0, 1], Fin 5)"
  by code_simp

lemma rank_round_2_answer:
  "map_sum id (\<lambda>(up, c). map_sum id fst (meta_from_downstream rank_queries rank_schema (snd (hd up)) node_a rank_sender)) (start_phase_2 rank_after_1)
     = Inr (Inr (Some ([], (mk_msg END_OF_WINDOW) \<lparr>tput_round := Some 2\<rparr>)))"
  by code_simp

theorem round_2_loses_direction_witness:
  "\<exists>up c1 msg s'. start_phase_2 rank_after_1 = Inr (up, c1) \<and> (0, msg) \<in> set up
     \<and> meta_from_downstream rank_queries rank_schema msg node_a rank_sender = Inr (Some ([], (mk_msg END_OF_WINDOW) \<lparr>tput_round := Some 2\<rparr>), s')
     \<and> \<not> take_greatest s'"
proof -
  obtain up c1 where u: "start_phase_2 rank_after_1 = Inr (up, c1)" "map fst up = [0, 1]"
    using rank_round_2_opened unfolding map_sum_eq_Inr by auto
  then obtain msg where m: "(0, msg) \<in> set up" "snd (hd up) = msg" by (cases up) auto
  obtain s' where s': "meta_from_downstream rank_queries rank_schema msg node_a rank_sender = Inr (Some ([], (mk_msg END_OF_WINDOW) \<lparr>tput_round := Some 2\<rparr>), s')"
    using rank_round_2_answer u(1) m(2) by (auto simp: map_sum_eq_Inr)
  show ?thesis using round_2_loses_direction [OF u(1) m(1) s'] u(1) m(1) s' by blast
qed

end
