(* ===== verification/JS_Socket.thy ===== *)
theory JS_Socket
  imports JS_Monitors
begin

text \<open>
  The connected socket (\<^verbatim>\<open>comm/connected_socket.h\<close>, \<^verbatim>\<open>comm/connected_socket.cc\<close>): framing of
  messages, the send queue with at most one asynchronous write outstanding, the two-step receive,
  closing and failing.  A serialised protobuf message is its bytes.  The handlers posted to a strand
  are a queue; an outstanding asynchronous operation is a component of the state, and its completion
  is an event.  What leaves through the socket is collected in \<^verbatim>\<open>wire\<close>, what the callbacks are called
  with in \<^verbatim>\<open>delivered\<close> and \<^verbatim>\<open>fired\<close>.  Handlers are atomic: one strand never runs two of its handlers
  at once.
\<close>

section \<open>Frames\<close>

type_synonym bytes = "u8 list"

text \<open>The error codes the code makes or compares with; \<^verbatim>\<open>operation_aborted\<close> of asio is the code \<^verbatim>\<open>operation_canceled\<close>.\<close>

datatype io_error =
    message_size | connection_reset | invalid_argument | not_connected | operation_canceled
  | address_family_not_supported | timed_out | host_unreachable | already_started | end_of_file
  | other_error int

definition MAX_UINT32 :: int where "MAX_UINT32 = 4294967295"

definition hdrlen :: nat where "hdrlen = 4"

text \<open>The bytes of a word in network order, as \<^verbatim>\<open>htonl\<close> leaves them in memory.\<close>

definition htonl :: "u32 \<Rightarrow> bytes" where
  "htonl w = [ucast (drop_bit 24 w), ucast (drop_bit 16 w), ucast (drop_bit 8 w), ucast w]"

definition ntohl :: "bytes \<Rightarrow> u32" where
  "ntohl bs = foldl (\<lambda>w b. push_bit 8 w + ucast b) 0 bs"

record SerializedMessageOut =
  mo_msg :: bytes
  mo_nbytes :: u32

text \<open>
  The constructor.  \<^verbatim>\<open>ByteSize\<close> has type int; when it comes out above the maximum the object is left
  without a buffer, and the memory error is in its use.  The sum with the header length is stored in
  32 bits; a buffer shorter than the message is overrun.
\<close>

definition new_SerializedMessageOut :: "bytes \<Rightarrow> (io_error + SerializedMessageOut) res" where
  "new_SerializedMessageOut m =
     (let len_check = (word_of_int (to_int32 (int (length m))) :: size_t) in
      if uint len_check > MAX_UINT32 then Inr (Inl message_size)
      else let len = (word_of_int (uint len_check) :: u32); n = len + of_nat hdrlen in
        if unat n < hdrlen + length m then Inl OutOfBounds
        else Inr (Inr \<lparr>mo_msg = htonl len @ m, mo_nbytes = n\<rparr>))"

section \<open>State\<close>

datatype sock_state_t = CS_open | CS_closing | CS_closed

datatype send_post = PerformSend SerializedMessageOut | PerformQueuedSend

datatype read_op = ReadHeader | ReadBody nat

record ConnectedSocket =
  is_open :: bool
  sock_state :: sock_state_t
  bytesQueued :: size_t
  send_counter :: "u64 option"
  recv_counter :: "u64 option"
  sending :: bool
  sendQueue :: "SerializedMessageOut list"
  receiving :: bool
  recvcb :: bool
  closing_cb :: "nat option"
  sock_mon :: SmoothingQCongestionMonitor
  sendStrand :: "send_post list"
  recvStrand :: nat
  writes :: "SerializedMessageOut list"
  reads :: "read_op list"
  wire :: bytes
  delivered :: "(bytes \<times> io_error option) list"
  fired :: "nat list"

definition new_ConnectedSocket :: "int \<Rightarrow> int \<Rightarrow> bool \<Rightarrow> ConnectedSocket" where
  "new_ConnectedSocket ti tr counters =
     \<lparr>is_open = True, sock_state = CS_open, bytesQueued = 0,
      send_counter = (if counters then Some 0 else None), recv_counter = (if counters then Some 0 else None),
      sending = False, sendQueue = [], receiving = False, recvcb = False, closing_cb = None,
      sock_mon = new_SmoothingQ 10000 50 ti tr, sendStrand = [], recvStrand = 0, writes = [], reads = [],
      wire = [], delivered = [], fired = []\<rparr>"

section \<open>Closing and failing\<close>

definition close_now :: "ConnectedSocket \<Rightarrow> ConnectedSocket" where
  "close_now s = s \<lparr>is_open := False, sock_state := CS_closed,
     fired := fired s @ (case closing_cb s of None \<Rightarrow> [] | Some c \<Rightarrow> [c])\<rparr>"

definition sock_fail :: "io_error \<Rightarrow> ConnectedSocket \<Rightarrow> ConnectedSocket" where
  "sock_fail err s =
     (let s1 = close_now (s \<lparr>sending := False, sendQueue := []\<rparr>) in
      if recvcb s1 then s1 \<lparr>delivered := delivered s1 @ [([], Some err)]\<rparr> else s1)"

definition close_on_strand :: "nat \<Rightarrow> ConnectedSocket \<Rightarrow> ConnectedSocket" where
  "close_on_strand cb s = (let s1 = s \<lparr>closing_cb := Some cb\<rparr> in
     if \<not> sending s1 then close_now s1 else s1 \<lparr>sock_state := CS_closing\<rparr>)"

section \<open>Sending\<close>

text \<open>The result is the number of bytes queued, 0 with an error.\<close>

definition send_msg :: "bytes \<Rightarrow> ConnectedSocket \<Rightarrow> (size_t \<times> io_error option \<times> ConnectedSocket) res" where
  "send_msg m s =
     (if \<not> is_open s then Inr (0, Some connection_reset, s)
      else if sock_state s \<noteq> CS_open then Inr (0, Some connection_reset, s)
      else bindE (new_SerializedMessageOut m) (\<lambda>r. case r of Inl err \<Rightarrow> Inl OutOfBounds
        | Inr msg \<Rightarrow> Inr (ucast (mo_nbytes msg), None, s \<lparr>sendStrand := sendStrand s @ [PerformSend msg]\<rparr>)))"

definition async_write :: "SerializedMessageOut \<Rightarrow> ConnectedSocket \<Rightarrow> ConnectedSocket" where
  "async_write msg s = s \<lparr>writes := writes s @ [msg]\<rparr>"

definition perform_send :: "SerializedMessageOut \<Rightarrow> ConnectedSocket \<Rightarrow> ConnectedSocket" where
  "perform_send msg s =
     (if \<not> is_open s then s
      else let s1 = s \<lparr>sock_mon := s_report_insert (mo_nbytes msg) (sock_mon s)\<rparr> in
        if sending s1 then
          s1 \<lparr>bytesQueued := bytesQueued s1 + ucast (mo_nbytes msg), sendQueue := sendQueue s1 @ [msg],
              sendStrand := sendStrand s1 @ [PerformQueuedSend]\<rparr>
        else async_write msg (s1 \<lparr>sending := True, sock_mon := s_report_delete (mo_nbytes msg) (sock_mon s1)\<rparr>))"

definition perform_queued_send :: "ConnectedSocket \<Rightarrow> ConnectedSocket res" where
  "perform_queued_send s =
     (if sending s \<or> \<not> is_open s then Inr s
      else case sendQueue s of [] \<Rightarrow> Inr s
      | msg # rest \<Rightarrow>
          (let s1 = s \<lparr>sendQueue := rest, sending := True\<rparr> in
           if bytesQueued s1 < ucast (mo_nbytes msg) then Inl LogFatal
           else Inr (async_write msg (s1 \<lparr>bytesQueued := bytesQueued s1 - ucast (mo_nbytes msg),
             sock_mon := s_report_delete (mo_nbytes msg) (sock_mon s1)\<rparr>))))"

definition sent :: "io_error option \<Rightarrow> size_t \<Rightarrow> ConnectedSocket \<Rightarrow> ConnectedSocket res" where
  "sent err bytes_transferred s =
     (let s1 = s \<lparr>send_counter := map_option (counter_update bytes_transferred) (send_counter s), sending := False\<rparr> in
      case err of Some er \<Rightarrow> Inr (sock_fail er s1)
      | None \<Rightarrow> if sendQueue s1 \<noteq> [] then perform_queued_send s1
                else Inr (if sock_state s1 = CS_closing then close_now s1 else s1))"

section \<open>Receiving\<close>

definition recv_msg :: "ConnectedSocket \<Rightarrow> ConnectedSocket" where
  "recv_msg s = s \<lparr>recvcb := True, recvStrand := Suc (recvStrand s)\<rparr>"

definition perform_recv :: "ConnectedSocket \<Rightarrow> ConnectedSocket" where
  "perform_recv s = (if \<not> is_open s \<or> receiving s then s
     else s \<lparr>receiving := True, reads := reads s @ [ReadHeader]\<rparr>)"

definition received_header :: "bytes \<Rightarrow> io_error option \<Rightarrow> ConnectedSocket \<Rightarrow> ConnectedSocket" where
  "received_header hdrbuf err s = (case err of
       Some er \<Rightarrow> (let s1 = s \<lparr>receiving := False\<rparr> in if er \<noteq> operation_canceled then sock_fail er s1 else s1)
     | None \<Rightarrow>
         if length hdrbuf \<noteq> hdrlen then sock_fail invalid_argument (s \<lparr>receiving := False\<rparr>)
         else if \<not> is_open s then sock_fail not_connected (s \<lparr>receiving := False\<rparr>)
         else let msglen = unat (ntohl hdrbuf) in
           if msglen = 0 then sock_fail invalid_argument (s \<lparr>receiving := False\<rparr>)
           else s \<lparr>reads := reads s @ [ReadBody msglen]\<rparr>)"

definition received_body :: "nat \<Rightarrow> bytes \<Rightarrow> io_error option \<Rightarrow> ConnectedSocket \<Rightarrow> ConnectedSocket" where
  "received_body len m err s0 = (let s = s0 \<lparr>receiving := False\<rparr> in
     case err of Some er \<Rightarrow> sock_fail er s
     | None \<Rightarrow>
         if length m \<noteq> len then sock_fail invalid_argument s
         else let s1 = s \<lparr>recv_counter := map_option (counter_update (of_nat (length m) + 4)) (recv_counter s)\<rparr> in
           if recvcb s1 then s1 \<lparr>delivered := delivered s1 @ [(m, None)]\<rparr> else s1)"

section \<open>Events\<close>

text \<open>
  What can happen to a socket: a call by its user, the next handler of a strand, the completion of
  the outstanding write or read.  A write that completes without an error has written the whole
  buffer, one that fails a part of it; a read without an error has filled its buffer.  An event that
  is not possible in a state leaves it alone.
\<close>

datatype sock_event =
    USend bytes
  | UClose nat
  | URecv
  | RunSend
  | RunRecv
  | WriteDone
  | WriteFailed nat io_error
  | ReadDone bytes
  | ReadFailed io_error

fun sock_step :: "sock_event \<Rightarrow> ConnectedSocket \<Rightarrow> ConnectedSocket res" where
  "sock_step (USend m) s = bindE (send_msg m s) (\<lambda>(_, _, s'). Inr s')"
| "sock_step (UClose cb) s = Inr (close_on_strand cb s)"
| "sock_step URecv s = Inr (recv_msg s)"
| "sock_step RunSend s = (case sendStrand s of [] \<Rightarrow> Inr s
     | PerformSend msg # ps \<Rightarrow> Inr (perform_send msg (s \<lparr>sendStrand := ps\<rparr>))
     | PerformQueuedSend # ps \<Rightarrow> perform_queued_send (s \<lparr>sendStrand := ps\<rparr>))"
| "sock_step RunRecv s = (case recvStrand s of 0 \<Rightarrow> Inr s | Suc n \<Rightarrow> Inr (perform_recv (s \<lparr>recvStrand := n\<rparr>)))"
| "sock_step WriteDone s = (case writes s of [] \<Rightarrow> Inr s
     | msg # ws \<Rightarrow> sent None (ucast (mo_nbytes msg)) (s \<lparr>writes := ws, wire := wire s @ mo_msg msg\<rparr>))"
| "sock_step (WriteFailed n er) s = (case writes s of [] \<Rightarrow> Inr s
     | msg # ws \<Rightarrow> sent (Some er) (of_nat (min n (length (mo_msg msg)))) (s \<lparr>writes := ws, wire := wire s @ take n (mo_msg msg)\<rparr>))"
| "sock_step (ReadDone bs) s = (case reads s of [] \<Rightarrow> Inr s
     | ReadHeader # rs \<Rightarrow> if length bs = hdrlen then Inr (received_header bs None (s \<lparr>reads := rs\<rparr>)) else Inr s
     | ReadBody n # rs \<Rightarrow> if length bs = n then Inr (received_body n bs None (s \<lparr>reads := rs\<rparr>)) else Inr s)"
| "sock_step (ReadFailed er) s = (case reads s of [] \<Rightarrow> Inr s
     | ReadHeader # rs \<Rightarrow> Inr (received_header [] (Some er) (s \<lparr>reads := rs\<rparr>))
     | ReadBody n # rs \<Rightarrow> Inr (received_body n [] (Some er) (s \<lparr>reads := rs\<rparr>)))"

definition sock_run :: "sock_event list \<Rightarrow> ConnectedSocket \<Rightarrow> ConnectedSocket res" where
  "sock_run evs s = foldE sock_step evs s"


section \<open>Framing\<close>

definition frame :: "bytes \<Rightarrow> bytes" where
  "frame m = htonl (of_nat (length m)) @ m"

definition frames :: "bytes list \<Rightarrow> bytes" where
  "frames ms = concat (map frame ms)"

lemma frames_simps [simp]:
  "frames [] = []"
  "frames (m # ms) = frame m @ frames ms"
  "frames (ms @ ns) = frames ms @ frames ns"
  by (simp_all add: frames_def)

lemma length_htonl [simp]: "length (htonl w) = 4"
  by (simp add: htonl_def)

lemma length_frame [simp]: "length (frame m) = 4 + length m"
  by (simp add: frame_def)

lemma low_byte: "ucast (ucast (v :: u32) :: u8) = take_bit 8 v"
  by (rule bit_word_eqI) (auto simp: bit_simps)

lemma append_byte: "push_bit 8 (drop_bit (n + 8) w) + ucast (ucast (drop_bit n w :: u32) :: u8) = drop_bit n w"
  using bits_ident [of 8 "drop_bit n w"] by (simp add: low_byte add.commute)

lemma high_byte: "ucast (ucast (drop_bit 24 (w :: u32)) :: u8) = drop_bit 24 w"
  by (rule bit_word_eqI) (auto simp: bit_simps dest: bit_imp_le_length)

lemma ntohl_htonl [simp]: "ntohl (htonl w) = w"
  using append_byte [of 16 w] append_byte [of 8 w] append_byte [of 0 w]
  by (simp add: ntohl_def htonl_def high_byte)

definition wf_out :: "SerializedMessageOut \<Rightarrow> bool" where
  "wf_out msg \<longleftrightarrow> unat (mo_nbytes msg) = length (mo_msg msg)"

lemma new_SerializedMessageOut_ok:
  assumes "length m < 2 ^ 31"
  shows "\<exists>msg. new_SerializedMessageOut m = Inr (Inr msg) \<and> mo_msg msg = frame m \<and> wf_out msg"
proof -
  let ?L = "word_of_int (int (length m)) :: size_t" and ?l = "word_of_int (int (length m)) :: u32"
  have l: "to_int32 (int (length m)) = int (length m)"
    using assms by (intro to_int32_id) (simp add: in_int_def INT_MAX_def INT_MIN_def)
  have u: "uint ?L = int (length m)"
    using assms by (simp only: uint_word_of_int) (simp add: take_bit_int_eq_self)
  have n: "unat (?l + of_nat hdrlen) = hdrlen + length m"
    using assms by (simp add: hdrlen_def unat_word_ariths unsigned_of_nat take_bit_eq_mod)
  have "new_SerializedMessageOut m = Inr (Inr \<lparr>mo_msg = htonl ?l @ m, mo_nbytes = ?l + of_nat hdrlen\<rparr>)"
    unfolding new_SerializedMessageOut_def Let_def l u using assms n by (simp add: MAX_UINT32_def)
  then show ?thesis using n by (simp add: frame_def wf_out_def hdrlen_def)
qed


section \<open>Messages leave in order\<close>

text \<open>The messages a run accepts: those sent while the socket is open.\<close>

definition accepts :: "ConnectedSocket \<Rightarrow> bool" where
  "accepts s \<longleftrightarrow> is_open s \<and> sock_state s = CS_open"

fun accepted_of :: "sock_event \<Rightarrow> ConnectedSocket \<Rightarrow> bytes list" where
  "accepted_of (USend m) s = (if accepts s then [m] else [])"
| "accepted_of ev s = []"

fun accepted :: "sock_event list \<Rightarrow> ConnectedSocket \<Rightarrow> bytes list" where
  "accepted [] s = []"
| "accepted (ev # evs) s = accepted_of ev s @ (case sock_step ev s of Inl _ \<Rightarrow> [] | Inr s' \<Rightarrow> accepted evs s')"

fun posted :: "send_post list \<Rightarrow> SerializedMessageOut list" where
  "posted [] = []"
| "posted (PerformSend msg # ps) = msg # posted ps"
| "posted (PerformQueuedSend # ps) = posted ps"

definition out_bytes :: "SerializedMessageOut list \<Rightarrow> bytes" where
  "out_bytes ms = concat (map mo_msg ms)"

lemma out_bytes_simps [simp]:
  "out_bytes [] = []" "out_bytes (m # ms) = mo_msg m @ out_bytes ms" "out_bytes (ms @ ns) = out_bytes ms @ out_bytes ns"
  by (simp_all add: out_bytes_def)

lemma posted_append [simp]: "posted (ps @ qs) = posted ps @ posted qs"
  by (induction ps rule: posted.induct) simp_all

definition unsent :: "ConnectedSocket \<Rightarrow> SerializedMessageOut list" where
  "unsent s = writes s @ sendQueue s @ posted (sendStrand s)"

text \<open>
  While the socket is open, what was accepted is what went out, what is being written, what is
  queued and what is still posted, in this order; at most one write is outstanding, nothing is
  queued without one, and the byte counter is the size of the queue.  Once it is closed, the wire
  and the write that was outstanding are the start of what was accepted.
\<close>

definition send_inv :: "bytes list \<Rightarrow> ConnectedSocket \<Rightarrow> bool" where
  "send_inv acc s \<longleftrightarrow> list_all wf_out (unsent s) \<and>
     (if is_open s then sock_state s \<noteq> CS_closed \<and> frames acc = wire s @ out_bytes (unsent s)
        \<and> length (writes s) = (if sending s then 1 else 0) \<and> (sendQueue s \<noteq> [] \<longrightarrow> sending s)
        \<and> unat (bytesQueued s) = length (out_bytes (sendQueue s))
      else sock_state s = CS_closed \<and> \<not> sending s \<and> sendQueue s = [] \<and> length (writes s) \<le> 1
        \<and> (\<exists>rest. frames acc = wire s @ out_bytes (writes s) @ rest))"

fun ev_load :: "sock_event \<Rightarrow> nat" where
  "ev_load (USend m) = 4 + length m"
| "ev_load ev = 0"

definition ev_ok :: "sock_event \<Rightarrow> bool" where
  "ev_ok ev \<longleftrightarrow> (case ev of USend m \<Rightarrow> length m < 2 ^ 31 | _ \<Rightarrow> True)"

lemma send_inv_new: "send_inv [] (new_ConnectedSocket ti tr k)"
  by (simp add: send_inv_def unsent_def new_ConnectedSocket_def)

lemma send_inv_close:
  "send_inv acc s \<Longrightarrow> \<not> sending s \<Longrightarrow> send_inv acc (close_now s)"
  by (auto simp: send_inv_def close_now_def unsent_def split: if_splits)

lemma send_inv_fail: "send_inv acc s \<Longrightarrow> send_inv acc (sock_fail err s)"
  by (auto simp: send_inv_def sock_fail_def close_now_def unsent_def Let_def split: if_splits)

lemma send_inv_frame:
  assumes "send_inv acc s" "is_open t = is_open s" "sock_state t = sock_state s" "wire t = wire s" "writes t = writes s"
    "sendQueue t = sendQueue s" "sendStrand t = sendStrand s" "sending t = sending s" "bytesQueued t = bytesQueued s"
  shows "send_inv acc t"
  using assms by (cases "is_open s") (simp_all add: send_inv_def unsent_def)


lemma send_inv_send_msg:
  assumes "send_inv acc s" and "length m < 2 ^ 31"
  shows "\<exists>r er s'. send_msg m s = Inr (r, er, s') \<and> send_inv (acc @ accepted_of (USend m) s) s'"
proof (cases "accepts s")
  case True
  obtain msg where "new_SerializedMessageOut m = Inr (Inr msg)" "mo_msg msg = frame m" "wf_out msg"
    using new_SerializedMessageOut_ok [OF assms(2)] by blast
  then show ?thesis using assms(1) True
    by (auto simp: send_msg_def accepts_def send_inv_def unsent_def)
next
  case False
  then show ?thesis using assms(1) by (auto simp: send_msg_def accepts_def)
qed

lemma send_inv_perform_send:
  assumes "send_inv acc s" and "sendStrand s = PerformSend msg # ps" and "length (frames acc) < 2 ^ 64"
  shows "send_inv acc (perform_send msg (s \<lparr>sendStrand := ps\<rparr>))"
proof (cases "is_open s \<and> sending s")
  case True
  then have i: "unat (bytesQueued s) = length (out_bytes (sendQueue s))" "wf_out msg"
    "frames acc = wire s @ out_bytes (unsent s)"
    using assms(1,2) by (auto simp: send_inv_def unsent_def)
  then have "unat (mo_nbytes msg) + unat (bytesQueued s) < 2 ^ 64"
    using assms(2,3) by (auto simp: unsent_def wf_out_def)
  then have "unat (bytesQueued s + ucast (mo_nbytes msg)) = unat (bytesQueued s) + unat (mo_nbytes msg)"
    by (simp add: unat_word_ariths unsigned_ucast_eq take_bit_eq_mod)
  then show ?thesis using assms(1,2) True i(1,2)
    by (auto simp: send_inv_def perform_send_def unsent_def wf_out_def)
next
  case False
  then show ?thesis using assms(1,2)
    by (auto simp: send_inv_def perform_send_def unsent_def async_write_def Let_def split: if_splits)
qed

text \<open>The next message of the queue is taken when a write has completed, and only then.\<close>

lemma send_inv_next:
  assumes "is_open s" and "sock_state s \<noteq> CS_closed" and "frames acc = wire s @ out_bytes (unsent s)" and "writes s = []"
    and "\<not> sending s" and "unat (bytesQueued s) = length (out_bytes (sendQueue s))" and "list_all wf_out (unsent s)"
    and "sendQueue s \<noteq> []"
  shows "\<exists>s'. perform_queued_send s = Inr s' \<and> send_inv acc s'"
proof -
  obtain msg q where q: "sendQueue s = msg # q" using assms(8) by (cases "sendQueue s") auto
  then have w: "unat (mo_nbytes msg) = length (mo_msg msg)" using assms(7) by (auto simp: unsent_def wf_out_def)
  have u: "unat (ucast (mo_nbytes msg) :: size_t) = unat (mo_nbytes msg)"
    using unat_u32_bound [of "mo_nbytes msg"] by (simp add: unsigned_ucast_eq take_bit_eq_mod)
  have "unat (ucast (mo_nbytes msg) :: size_t) \<le> unat (bytesQueued s)" using assms(6) q w u by simp
  then have "(ucast (mo_nbytes msg) :: size_t) \<le> bytesQueued s" by (simp add: word_le_nat_alt)
  moreover from this have "unat (bytesQueued s - ucast (mo_nbytes msg)) = length (out_bytes q)"
    using assms(6) q w u by (simp add: unat_sub)
  ultimately show ?thesis using assms q
    by (auto simp: perform_queued_send_def send_inv_def unsent_def async_write_def Let_def not_less)
qed

lemma send_inv_write_done:
  assumes "send_inv acc s"
  shows "\<exists>s'. sock_step WriteDone s = Inr s' \<and> send_inv acc s'"
proof (cases "writes s")
  case (Cons msg ws)
  let ?s = "s \<lparr>writes := ws, wire := wire s @ mo_msg msg,
      send_counter := map_option (counter_update (ucast (mo_nbytes msg))) (send_counter s), sending := False\<rparr>"
  show ?thesis
  proof (cases "is_open s \<and> sendQueue s \<noteq> []")
    case True
    then have "\<exists>s'. perform_queued_send ?s = Inr s' \<and> send_inv acc s'"
      using assms Cons by (intro send_inv_next) (auto simp: send_inv_def unsent_def)
    then show ?thesis using True Cons by (simp add: sent_def Let_def)
  next
    case False
    then have "send_inv acc ?s" "sendQueue s = []"
      using assms Cons by (auto simp: send_inv_def unsent_def split: if_splits)
    then show ?thesis using Cons send_inv_close [of acc ?s] by (simp add: sent_def Let_def)
  qed
qed (use assms in simp)

lemma send_inv_write_failed:
  assumes "send_inv acc s"
  shows "\<exists>s'. sock_step (WriteFailed n er) s = Inr s' \<and> send_inv acc s'"
proof (cases "writes s")
  case (Cons msg ws)
  have "ws = []" using assms Cons by (auto simp: send_inv_def split: if_splits)
  moreover have "\<exists>rest. frames acc = wire s @ mo_msg msg @ rest"
    using assms Cons \<open>ws = []\<close> by (auto simp: send_inv_def unsent_def split: if_splits)
  moreover have "mo_msg msg = take n (mo_msg msg) @ drop n (mo_msg msg)" by simp
  ultimately have "\<exists>rest. frames acc = wire s @ take n (mo_msg msg) @ rest" by (metis append.assoc)
  then show ?thesis using assms Cons \<open>ws = []\<close>
    by (auto simp: sent_def Let_def sock_fail_def close_now_def send_inv_def unsent_def)
qed (use assms in simp)

lemma send_inv_run_send:
  assumes "send_inv acc s" and "length (frames acc) < 2 ^ 64"
  shows "\<exists>s'. sock_step RunSend s = Inr s' \<and> send_inv acc s'"
proof (cases "sendStrand s")
  case (Cons p ps)
  show ?thesis
  proof (cases p)
    case (PerformSend msg)
    then show ?thesis using send_inv_perform_send [OF assms(1) _ assms(2)] Cons by simp
  next
    case PerformQueuedSend
    then have "send_inv acc (s \<lparr>sendStrand := ps\<rparr>)" "perform_queued_send (s \<lparr>sendStrand := ps\<rparr>) = Inr (s \<lparr>sendStrand := ps\<rparr>)"
      using assms(1) Cons by (auto simp: send_inv_def unsent_def perform_queued_send_def split: if_splits list.splits)
    then show ?thesis using Cons PerformQueuedSend by simp
  qed
qed (use assms in simp)


lemma send_inv_header: "send_inv acc s \<Longrightarrow> send_inv acc (received_header bs err s)"
  by (cases err) (auto simp: received_header_def Let_def intro!: send_inv_fail elim: send_inv_frame)

lemma send_inv_body: "send_inv acc s \<Longrightarrow> send_inv acc (received_body n bs err s)"
  by (cases err) (auto simp: received_body_def Let_def intro!: send_inv_fail elim: send_inv_frame)

lemma send_inv_close_on_strand: "send_inv acc s \<Longrightarrow> send_inv acc (close_on_strand cb s)"
  by (auto simp: close_on_strand_def Let_def send_inv_def close_now_def unsent_def split: if_splits)

lemma send_inv_step:
  assumes "send_inv acc s" and "ev_ok ev" and "length (frames acc) < 2 ^ 64"
  shows "\<exists>s'. sock_step ev s = Inr s' \<and> send_inv (acc @ accepted_of ev s) s'"
proof (cases ev)
  case (USend m)
  then show ?thesis using send_inv_send_msg [OF assms(1), of m] assms(2) by (fastforce simp: ev_ok_def)
next
  case (ReadDone bs)
  then show ?thesis using assms(1) send_inv_frame [OF assms(1)]
    by (auto split: list.split read_op.split intro!: send_inv_header send_inv_body)
next
  case (ReadFailed er)
  then show ?thesis using assms(1) send_inv_frame [OF assms(1)]
    by (auto split: list.split read_op.split intro!: send_inv_header send_inv_body)
qed (use assms send_inv_close_on_strand send_inv_write_done send_inv_write_failed send_inv_run_send send_inv_frame
      in \<open>auto simp: recv_msg_def perform_recv_def split: nat.split\<close>)

lemma send_inv_run:
  assumes "send_inv acc s" and "list_all ev_ok evs" and "length (frames acc) + sum_list (map ev_load evs) < 2 ^ 64"
  shows "\<exists>s'. sock_run evs s = Inr s' \<and> send_inv (acc @ accepted evs s) s'"
  using assms
proof (induction evs arbitrary: acc s)
  case Nil
  then show ?case by (simp add: sock_run_def)
next
  case (Cons ev evs)
  then obtain s1 where s1: "sock_step ev s = Inr s1" "send_inv (acc @ accepted_of ev s) s1"
    using send_inv_step [of acc s ev] by auto
  have "length (frames (accepted_of ev s)) \<le> ev_load ev" by (cases ev) auto
  then have "length (frames (acc @ accepted_of ev s)) + sum_list (map ev_load evs) < 2 ^ 64"
    using Cons.prems(3) by simp
  then show ?case using Cons.IH [OF s1(2)] Cons.prems(2) s1(1) by (simp add: sock_run_def)
qed

section \<open>Messages arrive in order\<close>

text \<open>
  A receiver that reads a byte stream as far as it goes: an outstanding read completes when its
  bytes are there, and the client asks for the next message after each one it gets.
\<close>

function drain :: "bytes \<Rightarrow> ConnectedSocket \<Rightarrow> ConnectedSocket" where
  "drain bs s = (case reads s of [] \<Rightarrow> s
     | ReadHeader # rs \<Rightarrow>
         if length bs < hdrlen then s
         else drain (drop hdrlen bs) (received_header (take hdrlen bs) None (s \<lparr>reads := rs\<rparr>))
     | ReadBody n # rs \<Rightarrow>
         if n = 0 \<or> length bs < n then s
         else drain (drop n bs) (perform_recv (recv_msg (received_body n (take n bs) None (s \<lparr>reads := rs\<rparr>)))
                \<lparr>recvStrand := recvStrand s\<rparr>))"
  by pat_completeness auto

termination
  by (relation "measure (\<lambda>(bs, s). length bs)") (auto simp: hdrlen_def)

declare drain.simps [simp del]

text \<open>A receiver that waits for a message.\<close>

definition listening :: "ConnectedSocket \<Rightarrow> bool" where
  "listening s \<longleftrightarrow> is_open s \<and> receiving s \<and> recvcb s \<and> reads s = [ReadHeader]"

lemma listening_new: "listening (perform_recv (recv_msg (new_ConnectedSocket ti tr k)))"
  by (simp add: listening_def perform_recv_def recv_msg_def new_ConnectedSocket_def)

lemma drain_short: "listening s \<Longrightarrow> length bs < 4 \<Longrightarrow> drain bs s = s"
  by (subst drain.simps) (simp add: listening_def hdrlen_def)

lemma drain_header:
  assumes "listening s" and "0 < length m" and "length m < 2 ^ 31"
  shows "drain (htonl (of_nat (length m)) @ bs) s = drain bs (s \<lparr>reads := [ReadBody (length m)]\<rparr>)"
proof -
  have "unat (of_nat (length m) :: u32) = length m" using assms(3) by (simp add: unsigned_of_nat take_bit_eq_mod)
  then have "received_header (htonl (of_nat (length m))) None (s \<lparr>reads := []\<rparr>) = s \<lparr>reads := [ReadBody (length m)]\<rparr>"
    using assms(1,2) by (simp add: received_header_def listening_def hdrlen_def)
  then show ?thesis using assms(1) by (subst drain.simps) (simp add: listening_def hdrlen_def)
qed

lemma drain_body:
  assumes "listening s" and "0 < length m"
  shows "\<exists>s'. listening s' \<and> delivered s' = delivered s @ [(m, None)]
     \<and> drain (m @ bs) (s \<lparr>reads := [ReadBody (length m)]\<rparr>) = drain bs s'"
  using assms
  by (subst drain.simps) (auto simp: listening_def received_body_def perform_recv_def recv_msg_def Let_def
      intro!: exI [of _ "s \<lparr>recv_counter := map_option (counter_update (of_nat (length m) + 4)) (recv_counter s),
        delivered := delivered s @ [(m, None)], recvcb := True, receiving := True, reads := [ReadHeader]\<rparr>"])

lemma drain_body_short:
  "listening s \<Longrightarrow> length bs < length m \<Longrightarrow> drain bs (s \<lparr>reads := [ReadBody (length m)]\<rparr>) = s \<lparr>reads := [ReadBody (length m)]\<rparr>"
  by (subst drain.simps) simp


text \<open>What is read from the start of a sequence of frames is a start of the sequence of messages.\<close>

lemma drain_frames:
  assumes "listening s" and "list_all (\<lambda>m. 0 < length m \<and> length m < 2 ^ 31) ms" and "frames ms = bs @ rest"
  shows "\<exists>k \<le> length ms. delivered (drain bs s) = delivered s @ map (\<lambda>m. (m, None)) (take k ms)
     \<and> (rest = [] \<longrightarrow> k = length ms)"
  using assms
proof (induction ms arbitrary: s bs)
  case Nil
  then show ?case by (simp add: drain_short)
next
  case (Cons m ms)
  let ?h = "htonl (of_nat (length m))"
  have m: "0 < length m" "length m < 2 ^ 31" using Cons.prems(2) by auto
  have eq: "?h @ m @ frames ms = bs @ rest" using Cons.prems(3) by (simp add: frame_def)
  show ?case
  proof (cases "length bs < 4 + length m")
    case True
    then have "rest \<noteq> []" using arg_cong [OF eq, of length] by auto
    moreover have "delivered (drain bs s) = delivered s"
    proof (cases "length bs < 4")
      case False
      then have "bs = ?h @ drop 4 bs" using arg_cong [OF eq, of "take 4"] append_take_drop_id [of 4 bs] by simp
      then show ?thesis
        using drain_header [OF Cons.prems(1) m, of "drop 4 bs"] drain_body_short [OF Cons.prems(1), of "drop 4 bs" m] True False
        by simp
    qed (simp add: drain_short Cons.prems(1))
    ultimately show ?thesis by (intro exI [of _ 0]) simp
  next
    case False
    then have "bs = take (4 + length m) (bs @ rest) @ drop (4 + length m) bs" by simp
    also have "take (4 + length m) (bs @ rest) = ?h @ m" unfolding eq [symmetric] by simp
    finally have bs: "bs = ?h @ m @ drop (4 + length m) bs" by simp
    then have r: "frames ms = drop (4 + length m) bs @ rest" using eq by (metis append.assoc same_append_eq)
    obtain s1 where s1: "listening s1" "delivered s1 = delivered s @ [(m, None)]" "drain bs s = drain (drop (4 + length m) bs) s1"
      using drain_body [OF Cons.prems(1) m(1)] drain_header [OF Cons.prems(1) m] bs by metis
    from Cons.IH [OF s1(1) _ r] Cons.prems(2) obtain k where "k \<le> length ms"
      "delivered (drain (drop (4 + length m) bs) s1) = delivered s1 @ map (\<lambda>m. (m, None)) (take k ms)"
      "rest = [] \<longrightarrow> k = length ms"
      by auto
    then show ?thesis using s1(2,3) by (intro exI [of _ "Suc k"]) simp
  qed
qed

definition drained :: "ConnectedSocket \<Rightarrow> bool" where
  "drained s \<longleftrightarrow> is_open s \<and> unsent s = []"

lemma accepted_sends: "m \<in> set (accepted evs s) \<Longrightarrow> USend m \<in> set evs"
proof (induction evs arbitrary: s)
  case (Cons ev evs)
  have "m \<in> set (accepted_of ev s) \<Longrightarrow> ev = USend m" by (cases ev) (auto split: if_splits)
  then show ?case using Cons by (auto split: sum.splits)
qed simp

text \<open>
  Property C10: messages travel in order, none twice and none altered.  Whatever the users of a socket
  do and however its handlers, writes and errors interleave, its handlers raise no fatal error, and
  a receiver that reads any part of what went out is given a start of the sequence of messages
  accepted for sending; when nothing is left unsent and it reads all of it, it is given all of them.
\<close>

theorem messages_in_order:
  assumes "\<forall>m. USend m \<in> set evs \<longrightarrow> 0 < length m \<and> length m < 2 ^ 31"
    and "sum_list (map ev_load evs) < 2 ^ 64" and "listening r" and "delivered r = []"
  shows "\<exists>s. sock_run evs (new_ConnectedSocket ti tr cnt) = Inr s
     \<and> (\<forall>bs rest. wire s = bs @ rest \<longrightarrow>
          (\<exists>k. delivered (drain bs r) = map (\<lambda>m. (m, None)) (take k (accepted evs (new_ConnectedSocket ti tr cnt)))
             \<and> (drained s \<and> rest = [] \<longrightarrow> k = length (accepted evs (new_ConnectedSocket ti tr cnt)))))"
proof -
  let ?s0 = "new_ConnectedSocket ti tr cnt"
  have "list_all ev_ok evs" using assms(1) by (auto simp: list_all_iff ev_ok_def split: sock_event.split)
  then obtain s where s: "sock_run evs ?s0 = Inr s" "send_inv (accepted evs ?s0) s"
    using send_inv_run [OF send_inv_new [of ti tr cnt], of evs] assms(2) by auto
  have acc: "list_all (\<lambda>m. 0 < length m \<and> length m < 2 ^ 31) (accepted evs ?s0)"
    using assms(1) accepted_sends by (auto simp: list_all_iff)
  obtain more where more: "frames (accepted evs ?s0) = wire s @ more" "drained s \<longrightarrow> more = []"
    using s(2) by (cases "is_open s") (auto simp: send_inv_def drained_def)
  have "\<exists>k. delivered (drain bs r) = map (\<lambda>m. (m, None)) (take k (accepted evs ?s0))
      \<and> (drained s \<and> rest = [] \<longrightarrow> k = length (accepted evs ?s0))" if "wire s = bs @ rest" for bs rest
    using drain_frames [OF assms(3) acc, of bs "rest @ more"] more that assms(4) by auto
  then show ?thesis using s(1) by blast
qed


definition demo_sends :: "sock_event list" where
  "demo_sends = [USend [1, 2], USend [3], RunSend, RunSend, WriteDone, RunSend, WriteDone]"

definition demo_receiver :: ConnectedSocket where
  "demo_receiver = perform_recv (recv_msg (new_ConnectedSocket 0 0 True))"

lemma demo_sends_accepted: "accepted demo_sends (new_ConnectedSocket 0 0 True) = [[1, 2], [3]]"
  by code_simp

lemma demo_sends_drained: "map_sum id drained (sock_run demo_sends (new_ConnectedSocket 0 0 True)) = Inr True"
  by code_simp

theorem messages_in_order_witness:
  "\<exists>s. sock_run demo_sends (new_ConnectedSocket 0 0 True) = Inr s
     \<and> delivered (drain (wire s) demo_receiver) = [([1, 2], None), ([3], None)]"
proof -
  have 1: "\<forall>m. USend m \<in> set demo_sends \<longrightarrow> 0 < length m \<and> length m < 2 ^ 31"
    by (auto simp: demo_sends_def)
  have 2: "sum_list (map ev_load demo_sends) < 2 ^ 64" by (simp add: demo_sends_def)
  have 3: "listening demo_receiver" unfolding demo_receiver_def by (rule listening_new)
  have 4: "delivered demo_receiver = []"
    by (simp add: demo_receiver_def perform_recv_def recv_msg_def new_ConnectedSocket_def)
  obtain s where s: "sock_run demo_sends (new_ConnectedSocket 0 0 True) = Inr s"
    "\<forall>bs rest. wire s = bs @ rest \<longrightarrow>
          (\<exists>k. delivered (drain bs demo_receiver) = map (\<lambda>m. (m, None)) (take k [[1, 2], [3]])
             \<and> (drained s \<and> rest = [] \<longrightarrow> k = length [[1, 2], [3 :: u8]]))"
    using messages_in_order [OF 1 2 3 4, of 0 0 True] unfolding demo_sends_accepted by blast
  moreover have "drained s" using demo_sends_drained s(1) by simp
  ultimately show ?thesis using s(2) [rule_format, of "wire s" "[]"] by auto
qed

lemma sock_fail_reads [simp]: "reads (sock_fail er s) = reads s"
  by (simp add: sock_fail_def close_now_def Let_def)

text \<open>
  A message of no bytes is sent like any other, but its header is taken for an error by the receiver,
  which then closes the connection: nothing that follows it arrives.
\<close>

theorem empty_message_breaks:
  assumes "listening s"
  shows "\<not> is_open (drain (frame [] @ bs) s) \<and> delivered (drain (frame [] @ bs) s) = delivered s @ [([], Some invalid_argument)]"
proof -
  have "ntohl (htonl 0) = 0" by simp
  then have "received_header (htonl 0) None (s \<lparr>reads := []\<rparr>) = sock_fail invalid_argument (s \<lparr>reads := [], receiving := False\<rparr>)"
    using assms by (simp add: received_header_def listening_def hdrlen_def)
  then have "drain (frame [] @ bs) s = drain bs (sock_fail invalid_argument (s \<lparr>reads := [], receiving := False\<rparr>))"
    using assms by (subst drain.simps) (simp add: listening_def hdrlen_def frame_def)
  also have "\<dots> = sock_fail invalid_argument (s \<lparr>reads := [], receiving := False\<rparr>)"
    by (subst drain.simps) simp
  finally show ?thesis using assms by (simp add: sock_fail_def close_now_def listening_def)
qed

section \<open>Closing\<close>

text \<open>The writes of a closing socket complete one after the other; the last one closes it.\<close>

lemma closing_drains:
  assumes "send_inv acc s" and "is_open s" and "sock_state s = CS_closing" and "sending s" and "closing_cb s = Some cb"
    and "length (frames acc) < 2 ^ 64"
  shows "\<exists>s'. sock_run (replicate (Suc (length (sendQueue s))) WriteDone) s = Inr s' \<and> \<not> is_open s'
     \<and> fired s' = fired s @ [cb] \<and> wire s' = wire s @ out_bytes (writes s @ sendQueue s)"
  using assms
proof (induction "sendQueue s" arbitrary: s)
  case Nil
  then obtain msg where "writes s = [msg]" by (auto simp: send_inv_def length_Suc_conv)
  then show ?case using Nil by (simp add: sock_run_def sent_def close_now_def)
next
  case (Cons q qs)
  obtain msg where w: "writes s = [msg]" using Cons.prems by (auto simp: send_inv_def length_Suc_conv)
  obtain s1 where s1: "sock_step WriteDone s = Inr s1" "send_inv acc s1"
    using send_inv_write_done [OF Cons.prems(1)] by blast
  have f: "is_open s1 \<and> sock_state s1 = CS_closing \<and> sending s1 \<and> closing_cb s1 = Some cb \<and> fired s1 = fired s
      \<and> sendQueue s1 = qs \<and> writes s1 = [q] \<and> wire s1 = wire s @ mo_msg msg"
    using s1(1) w Cons.hyps(2) [symmetric] Cons.prems
    by (auto simp: sent_def perform_queued_send_def async_write_def Let_def split: if_splits)
  then obtain s' where "sock_run (replicate (Suc (length (sendQueue s1))) WriteDone) s1 = Inr s'" "\<not> is_open s'"
      "fired s' = fired s1 @ [cb]" "wire s' = wire s1 @ out_bytes (writes s1 @ sendQueue s1)"
    using Cons.hyps(1) [of s1] s1(2) Cons.prems(6) by auto
  then show ?case using s1(1) f w Cons.hyps(2) [symmetric] by (auto simp: sock_run_def)
qed



definition demo_pending :: "sock_event list" where
  "demo_pending = [USend [1, 2], USend [3], RunSend, RunSend]"

lemma demo_pending_state:
  "map_sum id (\<lambda>s. (is_open s, sending s, length (sendQueue s), fired s, wire s @ out_bytes (writes s @ sendQueue s)))
     (sock_run demo_pending (new_ConnectedSocket 0 0 True)) = Inr (True, True, 1, [], [0, 0, 0, 2, 1, 2, 0, 0, 0, 1, 3])"
  by code_simp


text \<open>
  A message that was accepted but whose handler has not run yet is lost when the socket is closed
  in between: it is never written.
\<close>

theorem close_drops_posted:
  "accepted [USend [1, 2], UClose 7, RunSend] (new_ConnectedSocket 0 0 True) = [[1, 2]]
   \<and> map_sum id (\<lambda>s. (wire s, unsent s, fired s)) (sock_run [USend [1, 2], UClose 7, RunSend] (new_ConnectedSocket 0 0 True))
     = Inr ([], [], [7])"
  by code_simp

end
