(* ===== verification/JS_Connection.thy ===== *)
theory JS_Connection
  imports JS_Socket
begin

text \<open>
  Connections (\<^verbatim>\<open>comm/connection.h\<close>, \<^verbatim>\<open>comm/client_connection.cc\<close>, \<^verbatim>\<open>comm/server_connection.cc\<close>,
  \<^verbatim>\<open>comm/connection_manager.cc\<close>): a client connection from its set-up with a deadline to its close,
  the accept loop of a server, and the manager that tries the addresses of a name in turn.  Endpoints
  are numbers; what the operating system answers to an open, a connect or an accept is an argument.
\<close>

section \<open>ClientConnection\<close>

text \<open>
  A pending wait or connect of asio: cancelling it queues its handler with the code for a cancelled
  operation, unless it is done and its handler is queued already.
\<close>

datatype async_op = Idle | Pending | Queued "io_error option"

definition cancel_op :: "async_op \<Rightarrow> async_op" where
  "cancel_op a = (case a of Pending \<Rightarrow> Queued (Some operation_canceled) | _ \<Rightarrow> a)"

datatype addr_family = V4 | V6 | OtherFamily

record ClientConnection =
  cc_connected :: bool
  cc_sock_open :: bool
  cc_connecting :: async_op
  cc_timer :: async_op
  cc_connSock :: "ConnectedSocket option"
  cc_calls :: "io_error option list"
  cc_closed_cbs :: "nat list"

definition new_ClientConnection :: "addr_family \<Rightarrow> io_error option \<Rightarrow> io_error option \<Rightarrow> io_error option \<times> ClientConnection" where
  "new_ClientConnection fam open_err opt_err =
     (let c = \<lparr>cc_connected = False, cc_sock_open = False, cc_connecting = Idle, cc_timer = Idle, cc_connSock = None,
         cc_calls = [], cc_closed_cbs = []\<rparr>
      in case fam of OtherFamily \<Rightarrow> (Some address_family_not_supported, c)
         | _ \<Rightarrow> (opt_err, c \<lparr>cc_sock_open := open_err = None\<rparr>))"

definition client_of_socket :: "ConnectedSocket \<Rightarrow> ClientConnection" where
  "client_of_socket s = \<lparr>cc_connected = True, cc_sock_open = is_open s, cc_connecting = Idle, cc_timer = Idle,
     cc_connSock = Some s, cc_calls = [], cc_closed_cbs = []\<rparr>"

definition cc_connect :: "ClientConnection \<Rightarrow> ClientConnection" where
  "cc_connect c = (if \<not> cc_sock_open c then c \<lparr>cc_calls := cc_calls c @ [Some address_family_not_supported]\<rparr>
     else c \<lparr>cc_connecting := Pending, cc_timer := Pending\<rparr>)"

text \<open>The callback of a close is a number; \<^verbatim>\<open>None\<close> stands for the one that does nothing.\<close>

definition close_async :: "nat option \<Rightarrow> ClientConnection \<Rightarrow> ClientConnection" where
  "close_async cb c = (let c1 = c \<lparr>cc_connected := False\<rparr> in
     case cc_connSock c1 of
       Some s \<Rightarrow> (let s' = (case cb of Some n \<Rightarrow> close_on_strand n s
           | None \<Rightarrow> (let s1 = s \<lparr>closing_cb := None\<rparr> in if \<not> sending s1 then close_now s1 else s1 \<lparr>sock_state := CS_closing\<rparr>))
         in c1 \<lparr>cc_connSock := Some s', cc_sock_open := is_open s'\<rparr>)
     | None \<Rightarrow> c1 \<lparr>cc_sock_open := False, cc_connecting := (if cc_sock_open c1 then cancel_op (cc_connecting c1) else cc_connecting c1),
         cc_closed_cbs := cc_closed_cbs c1 @ (case cb of None \<Rightarrow> [] | Some n \<Rightarrow> [n])\<rparr>)"

definition connect_cb :: "io_error option \<Rightarrow> ConnectedSocket \<Rightarrow> ClientConnection \<Rightarrow> ClientConnection" where
  "connect_cb err fresh c =
     (if err = Some operation_canceled then c
      else let c1 = c \<lparr>cc_timer := cancel_op (cc_timer c)\<rparr>;
               c2 = (if err \<noteq> None then close_async None c1 else c1 \<lparr>cc_connSock := Some fresh, cc_connected := True\<rparr>)
           in c2 \<lparr>cc_calls := cc_calls c2 @ [err]\<rparr>)"

definition timeout_cb :: "io_error option \<Rightarrow> ClientConnection \<Rightarrow> ClientConnection" where
  "timeout_cb err c = (if err = Some operation_canceled then c
     else let c1 = close_async None c in c1 \<lparr>cc_calls := cc_calls c1 @ [Some timed_out]\<rparr>)"

definition cc_send_msg :: "bytes \<Rightarrow> ClientConnection \<Rightarrow> (size_t \<times> io_error option \<times> ClientConnection) res" where
  "cc_send_msg m c = (case cc_connSock c of
       Some s \<Rightarrow> if \<not> cc_connected c then Inr (0, Some not_connected, c)
         else bindE (send_msg m s) (\<lambda>(n, er, s'). Inr (n, er, c \<lparr>cc_connSock := Some s'\<rparr>))
     | None \<Rightarrow> Inr (0, Some not_connected, c))"

definition recv_data_msg :: "ClientConnection \<Rightarrow> io_error option \<times> ClientConnection" where
  "recv_data_msg c = (case cc_connSock c of
       Some s \<Rightarrow> if \<not> cc_connected c then (Some not_connected, c) else (None, c \<lparr>cc_connSock := Some (recv_msg s)\<rparr>)
     | None \<Rightarrow> (Some not_connected, c))"

text \<open>The message a callback gets is parsed from the bytes; the parser is protobuf's.\<close>

definition recv_data_msg_cb :: "(bytes \<Rightarrow> DataplaneMessage) \<Rightarrow> bytes \<times> io_error option \<Rightarrow> DataplaneMessage \<times> io_error option" where
  "recv_data_msg_cb parse d = (case d of (m, Some er) \<Rightarrow> (mk_msg DP_ERROR, Some er) | (m, None) \<Rightarrow> (parse m, None))"

text \<open>
  The events of a connection that is being set up: the operating system completes the connect or the
  deadline passes, and the handlers run in some order.
\<close>

datatype cc_event = ConnectDone "io_error option" | Deadline | RunConnect | RunTimer

fun cc_step :: "cc_event \<Rightarrow> ClientConnection \<Rightarrow> ClientConnection" where
  "cc_step (ConnectDone err) c = (if cc_connecting c = Pending then c \<lparr>cc_connecting := Queued err\<rparr> else c)"
| "cc_step Deadline c = (if cc_timer c = Pending then c \<lparr>cc_timer := Queued None\<rparr> else c)"
| "cc_step RunConnect c = (case cc_connecting c of Queued err \<Rightarrow>
       connect_cb err (new_ConnectedSocket 0 0 False) (c \<lparr>cc_connecting := Idle\<rparr>) | _ \<Rightarrow> c)"
| "cc_step RunTimer c = (case cc_timer c of Queued err \<Rightarrow> timeout_cb err (c \<lparr>cc_timer := Idle\<rparr>) | _ \<Rightarrow> c)"

section \<open>ServerConnection\<close>

record ServerConnection =
  accepting :: bool
  acceptor_open :: bool
  acceptcb :: bool
  astrand :: nat
  accept_ops :: nat
  clients :: "(nat \<times> ConnectedSocket) list"
  accept_calls :: "(nat option \<times> io_error option) list"

definition new_ServerConnection :: "addr_family \<Rightarrow> io_error option \<Rightarrow> io_error option \<Rightarrow> io_error option \<Rightarrow> io_error option
    \<Rightarrow> io_error option \<times> ServerConnection" where
  "new_ServerConnection fam open_err reuse_err bind_err listen_err =
     (let c = \<lparr>accepting = False, acceptor_open = False, acceptcb = False, astrand = 0, accept_ops = 0, clients = [], accept_calls = []\<rparr>;
          c1 = c \<lparr>acceptor_open := fam \<noteq> OtherFamily \<and> open_err = None\<rparr>
      in if fam = OtherFamily then (Some address_family_not_supported, c)
         else if open_err \<noteq> None then (open_err, c)
         else if reuse_err \<noteq> None then (reuse_err, c1)
         else if bind_err \<noteq> None then (bind_err, c1)
         else (listen_err, c1))"

definition server_close :: "ServerConnection \<Rightarrow> ServerConnection" where
  "server_close c = c \<lparr>accepting := False, acceptcb := False, acceptor_open := False\<rparr>"

definition server_accept :: "ServerConnection \<Rightarrow> io_error option \<times> ServerConnection" where
  "server_accept c = (if \<not> acceptor_open c then (Some address_family_not_supported, c)
     else if accepting c then (Some already_started, c)
     else (None, c \<lparr>acceptcb := True, astrand := Suc (astrand c)\<rparr>))"

definition do_accept :: "ServerConnection \<Rightarrow> ServerConnection" where
  "do_accept c = (if \<not> acceptor_open c \<or> accepting c then c
     else c \<lparr>accepting := True, accept_ops := Suc (accept_ops c)\<rparr>)"

text \<open>Calling an empty boost::function throws.\<close>

definition call_acceptcb :: "nat option \<Rightarrow> io_error option \<Rightarrow> ServerConnection \<Rightarrow> ServerConnection res" where
  "call_acceptcb p err c = (if acceptcb c then Inr (c \<lparr>accept_calls := accept_calls c @ [(p, err)]\<rparr>)
     else Inl (Thrown ''bad_function_call''))"

definition server_accepted :: "ConnectedSocket \<Rightarrow> io_error option \<Rightarrow> io_error + nat \<Rightarrow> ServerConnection \<Rightarrow> ServerConnection res" where
  "server_accepted fresh err remote c0 = (let c = c0 \<lparr>accepting := False\<rparr> in
     if \<not> acceptcb c then Inr (server_close c)
     else if err \<noteq> None then call_acceptcb None err (server_close c)
     else let c1 = c \<lparr>astrand := Suc (astrand c)\<rparr> in
       (case remote of Inl ec \<Rightarrow> call_acceptcb None (Some ec) c1
        | Inr ep \<Rightarrow> if map_of (clients c1) ep \<noteq> None then Inr c1
            else call_acceptcb (Some ep) None (c1 \<lparr>clients := (ep, fresh) # clients c1\<rparr>)))"

datatype srv_event = RunAccept | Accepted nat | AcceptError io_error | AcceptGone io_error

fun srv_step :: "srv_event \<Rightarrow> ServerConnection \<Rightarrow> ServerConnection res" where
  "srv_step RunAccept c = (case astrand c of 0 \<Rightarrow> Inr c | Suc n \<Rightarrow> Inr (do_accept (c \<lparr>astrand := n\<rparr>)))"
| "srv_step (Accepted ep) c = (case accept_ops c of 0 \<Rightarrow> Inr c
     | Suc n \<Rightarrow> server_accepted (new_ConnectedSocket 0 0 False) None (Inr ep) (c \<lparr>accept_ops := n\<rparr>))"
| "srv_step (AcceptError er) c = (case accept_ops c of 0 \<Rightarrow> Inr c
     | Suc n \<Rightarrow> server_accepted (new_ConnectedSocket 0 0 False) (Some er) (Inl er) (c \<lparr>accept_ops := n\<rparr>))"
| "srv_step (AcceptGone er) c = (case accept_ops c of 0 \<Rightarrow> Inr c
     | Suc n \<Rightarrow> server_accepted (new_ConnectedSocket 0 0 False) None (Inl er) (c \<lparr>accept_ops := n\<rparr>))"

section \<open>ConnectionManager\<close>

text \<open>
  The addresses are tried in order.  For an address, the argument \<^verbatim>\<open>attempt\<close> is what constructing
  the connection and, if that worked, connecting gives.
\<close>

fun create_connection :: "('a \<Rightarrow> io_error option) \<Rightarrow> ('a \<Rightarrow> io_error option) \<Rightarrow> 'a list \<Rightarrow> 'a option \<times> io_error option" where
  "create_connection ctor conn [] = (None, Some host_unreachable)"
| "create_connection ctor conn (a # as) =
     (if ctor a = None then (if conn a = None then (Some a, None) else create_connection ctor conn as)
      else create_connection ctor conn as)"

definition domain_resolved :: "('a \<Rightarrow> io_error option) \<Rightarrow> ('a \<Rightarrow> io_error option) \<Rightarrow> io_error option \<Rightarrow> 'a list \<Rightarrow> 'a option \<times> io_error option" where
  "domain_resolved ctor conn err as = (if err = None then create_connection ctor conn as else (None, err))"

definition connect_to_domain ::
  "(string \<Rightarrow> 'a option) \<Rightarrow> (string \<Rightarrow> io_error + 'a list) \<Rightarrow> ('a \<Rightarrow> io_error option) \<Rightarrow> ('a \<Rightarrow> io_error option) \<Rightarrow> string \<Rightarrow>
   'a option \<times> io_error option" where
  "connect_to_domain from_string resolve ctor conn domain = (case from_string domain of
       Some addr \<Rightarrow> create_connection ctor conn [addr]
     | None \<Rightarrow> (case resolve domain of Inl er \<Rightarrow> domain_resolved ctor conn (Some er) [] | Inr as \<Rightarrow> domain_resolved ctor conn None as))"


section \<open>Properties\<close>

text \<open>The manager gives the first address that works, and an error only when none does.\<close>

theorem create_connection_first:
  "create_connection ctor conn as =
     (case find (\<lambda>a. ctor a = None \<and> conn a = None) as of Some a \<Rightarrow> (Some a, None) | None \<Rightarrow> (None, Some host_unreachable))"
  by (induction as) auto

text \<open>
  A connect and its deadline: the handler that runs first cancels the other operation, so that its
  handler does nothing.  When the deadline passes and the connect completes before either handler
  runs, though, both call back: the connection that was reported as open is closed and reported
  again, as timed out.
\<close>

theorem connect_calls_back_twice:
  assumes "cc_sock_open c" and "cc_calls c = []"
  shows "cc_calls (fold cc_step [ConnectDone None, RunConnect, Deadline, RunTimer] (cc_connect c)) = [None]"
    and "cc_calls (fold cc_step [ConnectDone None, Deadline, RunConnect, RunTimer] (cc_connect c)) = [None, Some timed_out]"
    and "\<not> cc_connected (fold cc_step [ConnectDone None, Deadline, RunConnect, RunTimer] (cc_connect c))"
  using assms
  by (simp_all add: cc_connect_def connect_cb_def timeout_cb_def cancel_op_def close_async_def Let_def new_ConnectedSocket_def close_now_def)

text \<open>
  The accept loop.  A failed accept clears the callback before it calls it; a client that connects
  from an address it has used before is dropped without a word, since addresses are never removed.
\<close>

theorem accept_error_throws:
  assumes "0 < accept_ops c" and "acceptcb c"
  shows "srv_step (AcceptError er) c = Inl (Thrown ''bad_function_call'')"
  using assms by (cases "accept_ops c") (simp_all add: server_accepted_def server_close_def call_acceptcb_def)

theorem known_client_dropped:
  assumes "0 < accept_ops c" and "acceptcb c" and "map_of (clients c) ep \<noteq> None"
  shows "\<exists>c'. srv_step (Accepted ep) c = Inr c' \<and> accept_calls c' = accept_calls c \<and> clients c' = clients c"
  using assms by (cases "accept_ops c") (auto simp: server_accepted_def Let_def)

lemma new_client_accepted:
  assumes "0 < accept_ops c" and "acceptcb c" and "map_of (clients c) ep = None"
  shows "\<exists>c'. srv_step (Accepted ep) c = Inr c' \<and> accept_calls c' = accept_calls c @ [(Some ep, None)]
     \<and> map_of (clients c') ep \<noteq> None \<and> 0 < astrand c'"
  using assms by (cases "accept_ops c") (auto simp: server_accepted_def call_acceptcb_def Let_def)

end
