(* ===== verification/JS_Dataplane.thy ===== *)
theory JS_Dataplane
  imports JS_Connection JS_Chain JS_Map
begin

text \<open>
  Data between nodes (\<^verbatim>\<open>dataplane/dataplane_comm.h\<close>, \<^verbatim>\<open>dataplane/dataplane_comm.cc\<close>): the adaptor that
  ends a chain whose destination is on another node, the state of an incoming connection, which starts
  a chain there, and the manager of both.  A client connection is used through the operations
  \<^verbatim>\<open>ConnOps\<close>; what the adaptor does to chains and to the manager is a list of effects, and so is what
  an incoming connection gives to its chain.  \<^verbatim>\<open>ByteSize\<close> of a tuple is an argument.  A message
  without a type has the type ERROR, the first of the enumeration; no message of that type is given to
  a chain.
\<close>

section \<open>Connections as the dataplane uses them\<close>

record 'c ConnOps =
  co_send :: "DataplaneMessage \<Rightarrow> 'c \<Rightarrow> (io_error option \<times> 'c) res"
  co_recv :: "'c \<Rightarrow> io_error option \<times> 'c"
  co_close :: "'c \<Rightarrow> 'c"
  co_connected :: "'c \<Rightarrow> bool"
  co_congest :: "double \<Rightarrow> msec_t \<Rightarrow> 'c \<Rightarrow> 'c"
  co_set_queue :: "u32 \<Rightarrow> 'c \<Rightarrow> 'c"
  co_set_rate :: "double \<Rightarrow> 'c \<Rightarrow> 'c"

definition upd_mon :: "(SmoothingQCongestionMonitor \<Rightarrow> SmoothingQCongestionMonitor) \<Rightarrow> ClientConnection \<Rightarrow> ClientConnection" where
  "upd_mon f c = c \<lparr>cc_connSock := map_option (\<lambda>s. s \<lparr>sock_mon := f (sock_mon s)\<rparr>) (cc_connSock c)\<rparr>"

text \<open>\<^verbatim>\<open>ser\<close> is protobuf's serialisation; the callback of a close is the manager's cleanup, number 0.\<close>

definition client_ops :: "(DataplaneMessage \<Rightarrow> bytes) \<Rightarrow> ClientConnection ConnOps" where
  "client_ops ser = \<lparr>co_send = (\<lambda>m c. bindE (cc_send_msg (ser m) c) (\<lambda>(_, er, c'). Inr (er, c'))),
     co_recv = recv_data_msg, co_close = close_async (Some 0), co_connected = cc_connected,
     co_congest = (\<lambda>d t. upd_mon (set_downstream_congestion d t)), co_set_queue = (\<lambda>n. upd_mon (set_queue_size n)),
     co_set_rate = (\<lambda>d. upd_mon (set_max_rate d))\<rparr>"

section \<open>RemoteDestAdaptor\<close>

record BWReporter =
  bw_tuples :: u32
  bw_bytes :: u32
  next_report :: msec_t

definition new_BWReporter :: BWReporter where
  "new_BWReporter = \<lparr>bw_tuples = 0, bw_bytes = 0, next_report = 0\<rparr>"

definition sending_a_tuple :: "msec_t \<Rightarrow> size_t \<Rightarrow> BWReporter \<Rightarrow> BWReporter" where
  "sending_a_tuple now b r = (let r1 = r \<lparr>bw_tuples := bw_tuples r + 1, bw_bytes := bw_bytes r + ucast b\<rparr> in
     if now > next_report r1 then \<lparr>bw_tuples = 0, bw_bytes = 0, next_report = now + 5000\<rparr> else r1)"

definition SIZE_TO_SEND :: size_t where "SIZE_TO_SEND = 4096"

datatype rd_effect = Cleanup string | StopChain nat | UnregisterChain nat | Upwards nat DataplaneMessage

record 'c RemoteDestAdaptor =
  rd_conn :: "'c option"
  chainIsReady :: bool
  this_buf_size :: size_t
  is_stopping :: bool
  dest_as_str :: string
  remoteAddr :: string
  dest_as_edge :: Edge
  out_buffer_msg :: DataplaneMessage
  rd_timer :: bool
  reporter :: BWReporter
  rd_chains :: "nat option list"
  no_window_started :: bool
  rd_effects :: "rd_effect list"

definition has_type :: "DataplaneMessage \<Rightarrow> bool" where
  "has_type m \<longleftrightarrow> dp_type m \<noteq> DP_ERROR"

definition cleared_msg :: DataplaneMessage where
  "cleared_msg = mk_msg DP_ERROR"

definition new_RemoteDestAdaptor :: "Edge \<Rightarrow> 'c RemoteDestAdaptor" where
  "new_RemoteDestAdaptor ed =
     (let na = (case dest_addr ed of Some a \<Rightarrow> a | None \<Rightarrow> \<lparr>address = [], portno = 0\<rparr>) in
      \<lparr>rd_conn = None, chainIsReady = False, this_buf_size = 0, is_stopping = False,
       dest_as_str = (case edge_dest ed of Some d \<Rightarrow> operator_id_to_string (OpId (edge_computation ed) d)
         | None \<Rightarrow> (case dest_cube ed of Some n \<Rightarrow> n | None \<Rightarrow> ''external'')),
       remoteAddr = address na @ '':'' @ show_int (portno na), dest_as_edge = ed, out_buffer_msg = cleared_msg,
       rd_timer = False, reporter = new_BWReporter, rd_chains = [], no_window_started = True, rd_effects = []\<rparr>)"

definition rd_add_chain :: "nat \<Rightarrow> 'c RemoteDestAdaptor \<Rightarrow> 'c RemoteDestAdaptor" where
  "rd_add_chain ch r = r \<lparr>rd_chains := rd_chains r @ [Some ch]\<rparr>"

text \<open>
  The wait for the first answer of the other side: each wake-up of the condition variable tells
  whether it was in time, and what other threads have made of the two flags.
\<close>

fun wait_for_chain_ready :: "(bool \<times> bool \<times> bool) list \<Rightarrow> 'c RemoteDestAdaptor \<Rightarrow> bool \<times> 'c RemoteDestAdaptor" where
  "wait_for_chain_ready [] r = (chainIsReady r, r)"
| "wait_for_chain_ready ((in_time, ready, stopping) # ws) r =
     (if chainIsReady r then (True, r)
      else let r1 = r \<lparr>chainIsReady := ready, is_stopping := stopping\<rparr> in
        if \<not> in_time \<or> is_stopping r1 then (False, r1) else wait_for_chain_ready ws r1)"

definition connection_broken :: "'c RemoteDestAdaptor \<Rightarrow> 'c RemoteDestAdaptor" where
  "connection_broken r =
     (if is_stopping r then r
      else r \<lparr>is_stopping := True, rd_timer := False, rd_conn := None,
        rd_effects := rd_effects r @ [Cleanup (dest_as_str r)]
          @ concat (map (\<lambda>c. case c of None \<Rightarrow> [] | Some n \<Rightarrow> [StopChain n, UnregisterChain n]) (rd_chains r)),
        rd_chains := []\<rparr>)"

text \<open>A failed send breaks the connection, which forgets it, and then closes what it has forgotten.\<close>

definition do_send_unlocked :: "'c ConnOps \<Rightarrow> 'c RemoteDestAdaptor \<Rightarrow> 'c RemoteDestAdaptor res" where
  "do_send_unlocked co r = (case rd_conn r of None \<Rightarrow> Inl NullDeref
     | Some c \<Rightarrow> bindE (co_send co (out_buffer_msg r) c) (\<lambda>(er, c').
         let r1 = r \<lparr>this_buf_size := 0, rd_timer := False, rd_conn := Some c', out_buffer_msg := cleared_msg\<rparr> in
         if er \<noteq> None then
           (let r2 = connection_broken r1 in case rd_conn r2 of None \<Rightarrow> Inl NullDeref
              | Some c2 \<Rightarrow> Inr (r2 \<lparr>rd_conn := Some (co_close co c2)\<rparr>))
         else Inr r1))"

definition force_send :: "'c ConnOps \<Rightarrow> 'c RemoteDestAdaptor \<Rightarrow> 'c RemoteDestAdaptor res" where
  "force_send co r = (if this_buf_size r = 0 \<or> is_stopping r then Inr r else do_send_unlocked co r)"

text \<open>A send whose error is not looked at.\<close>

definition send_out :: "'c ConnOps \<Rightarrow> DataplaneMessage \<Rightarrow> 'c RemoteDestAdaptor \<Rightarrow> 'c RemoteDestAdaptor res" where
  "send_out co m r = (case rd_conn r of None \<Rightarrow> Inl NullDeref
     | Some c \<Rightarrow> bindE (co_send co m c) (\<lambda>(_, c'). Inr (r \<lparr>rd_conn := Some c'\<rparr>)))"

definition rd_meta_from_upstream :: "'c ConnOps \<Rightarrow> msec_t \<Rightarrow> DataplaneMessage \<Rightarrow> 'c RemoteDestAdaptor \<Rightarrow> 'c RemoteDestAdaptor res" where
  "rd_meta_from_upstream co now msg_in r =
     (if dp_type msg_in = NO_MORE_DATA then Inl LogFatal
      else if dp_type msg_in = END_OF_WINDOW \<and> window_length_ms msg_in \<noteq> None then
        (if no_window_started r then send_out co msg_in r
         else send_out co (msg_in \<lparr>timestamp := Some (sint now)\<rparr>) (r \<lparr>no_window_started := True\<rparr>))
      else send_out co msg_in r)"

definition buffer_tuple :: "(Tuple \<Rightarrow> nat) \<Rightarrow> msec_t \<Rightarrow> Tuple option \<Rightarrow> 'c RemoteDestAdaptor \<Rightarrow> 'c RemoteDestAdaptor" where
  "buffer_tuple tsize now p r = (case p of None \<Rightarrow> r
     | Some t \<Rightarrow> r \<lparr>reporter := sending_a_tuple now (of_nat (tsize t)) (reporter r),
         this_buf_size := this_buf_size r + of_nat (tsize t),
         out_buffer_msg := (out_buffer_msg r) \<lparr>data := data (out_buffer_msg r) @ [t]\<rparr>\<rparr>)"

definition rd_enqueue ::
  "'c ConnOps \<Rightarrow> (Tuple \<Rightarrow> nat) \<Rightarrow> msec_t \<Rightarrow> Tuple option list \<Rightarrow> DataplaneMessage \<Rightarrow> 'c RemoteDestAdaptor \<Rightarrow> 'c RemoteDestAdaptor res" where
  "rd_enqueue co tsize now tuples msg r =
     (let buffer_was_empty = (this_buf_size r = 0);
          r1 = fold (buffer_tuple tsize now) tuples (r \<lparr>out_buffer_msg := (out_buffer_msg r) \<lparr>dp_type := DATA\<rparr>\<rparr>)
      in if has_type msg then bindE (do_send_unlocked co r1) (rd_meta_from_upstream co now msg)
         else if this_buf_size r1 > SIZE_TO_SEND then do_send_unlocked co r1
         else Inr (if buffer_was_empty then r1 \<lparr>rd_timer := True\<rparr> else r1))"

definition rd_process ::
  "'c ConnOps \<Rightarrow> (Tuple \<Rightarrow> nat) \<Rightarrow> msec_t \<Rightarrow> (bool \<times> bool \<times> bool) list \<Rightarrow> Tuple option list \<Rightarrow> DataplaneMessage \<Rightarrow>
   'c RemoteDestAdaptor \<Rightarrow> 'c RemoteDestAdaptor res" where
  "rd_process co tsize now ws tuples msg r0 =
     (if is_stopping r0 then Inr r0
      else case wait_for_chain_ready ws r0 of (ready, r) \<Rightarrow>
        if \<not> ready then Inr r
        else bindE (if no_window_started r then send_out co (mk_msg DATA) (r \<lparr>no_window_started := False\<rparr>) else Inr r)
               (rd_enqueue co tsize now tuples msg))"

definition process_delta ::
  "'c ConnOps \<Rightarrow> (Tuple \<Rightarrow> nat) \<Rightarrow> msec_t \<Rightarrow> (bool \<times> bool \<times> bool) list \<Rightarrow> Tuple \<Rightarrow> Tuple \<Rightarrow>
   'c RemoteDestAdaptor \<Rightarrow> 'c RemoteDestAdaptor res" where
  "process_delta co tsize now ws oldV newV r0 = (case wait_for_chain_ready ws r0 of (ready, r) \<Rightarrow>
     if \<not> ready then Inr r
     else let sz = of_nat (tsize oldV + tsize newV);
              buffer_was_empty = (this_buf_size r = 0);
              m = out_buffer_msg r;
              r1 = r \<lparr>reporter := sending_a_tuple now sz (reporter r), this_buf_size := this_buf_size r + sz,
                out_buffer_msg := m \<lparr>dp_type := DATA, old_val := old_val m @ [oldV], new_val := new_val m @ [newV]\<rparr>\<rparr>
          in if this_buf_size r1 < SIZE_TO_SEND then Inr (if buffer_was_empty then r1 \<lparr>rd_timer := True\<rparr> else r1)
             else do_send_unlocked co r1)"

definition rd_chain_stopping :: "'c ConnOps \<Rightarrow> nat \<Rightarrow> 'c RemoteDestAdaptor \<Rightarrow> 'c RemoteDestAdaptor res" where
  "rd_chain_stopping co ch r = (case rd_conn r of None \<Rightarrow> Inr r
     | Some c \<Rightarrow> if \<not> co_connected co c then Inr r
       else let r1 = r \<lparr>rd_chains := map (\<lambda>x. if x = Some ch then None else x) (rd_chains r)\<rparr> in
         if list_ex (\<lambda>x. x \<noteq> None) (rd_chains r1) then Inr r1
         else bindE (if is_stopping r1 then Inr r1
               else bindE (force_send co r1) (\<lambda>r2. send_out co (mk_msg NO_MORE_DATA) (r2 \<lparr>rd_timer := False\<rparr>))) (\<lambda>r3.
           case rd_conn r3 of None \<Rightarrow> Inl NullDeref
           | Some c3 \<Rightarrow> Inr (r3 \<lparr>rd_conn := Some (co_close co (snd (co_recv co c3)))\<rparr>)))"

definition conn_created_cb :: "'c ConnOps \<Rightarrow> u32 \<Rightarrow> 'c \<Rightarrow> io_error option \<Rightarrow> 'c RemoteDestAdaptor \<Rightarrow> 'c RemoteDestAdaptor res" where
  "conn_created_cb co maxQueueSize c err r =
     (if err \<noteq> None \<or> \<not> co_connected co c then Inr r
      else let c1 = co_set_queue co maxQueueSize c;
               c2 = (case max_kb_per_sec (dest_as_edge r) of None \<Rightarrow> c1 | Some kb \<Rightarrow> co_set_rate co (dmul kb (Fin 1000)) c1);
               c3 = snd (co_recv co c2)
           in send_out co ((mk_msg CHAIN_CONNECT) \<lparr>chain_link := Some (dest_as_edge r)\<rparr>) (r \<lparr>rd_conn := Some c3\<rparr>))"

definition conn_ready_cb :: "'c ConnOps \<Rightarrow> DataplaneMessage \<Rightarrow> io_error option \<Rightarrow> 'c RemoteDestAdaptor \<Rightarrow> 'c RemoteDestAdaptor res" where
  "conn_ready_cb co msg err r =
     (if err \<noteq> None then Inr (connection_broken r)
      else if dp_type msg = DP_ERROR then Inr r
      else let r1 = r \<lparr>chainIsReady := True\<rparr> in
        bindE (if dp_type msg = CONGEST_STATUS then
                 (case rd_conn r1 of None \<Rightarrow> Inl NullDeref
                  | Some c \<Rightarrow> Inr (r1 \<lparr>rd_conn := Some (co_congest co
                      (case congestion_level msg of None \<Rightarrow> Fin 0 | Some d \<Rightarrow> d)
                      (word_of_int (case timestamp msg of None \<Rightarrow> 0 | Some t \<Rightarrow> t)) c)\<rparr>))
               else if dp_type msg = TPUT_START \<or> dp_type msg = TPUT_ROUND_2 \<or> dp_type msg = TPUT_ROUND_3 \<or> dp_type msg = SET_BACKOFF then
                 foldE (\<lambda>ch r. case ch of None \<Rightarrow> Inl NullDeref
                   | Some n \<Rightarrow> Inr (r \<lparr>rd_effects := rd_effects r @ [Upwards n msg]\<rparr>)) (rd_chains r1) r1
               else Inr r1) (\<lambda>r2.
        Inr (case rd_conn r2 of None \<Rightarrow> r2 | Some c \<Rightarrow> r2 \<lparr>rd_conn := Some (snd (co_recv co c))\<rparr>)))"


section \<open>IncomingConnectionState\<close>

datatype in_effect = DestProcess "Tuple list" DataplaneMessage | DestMeta DataplaneMessage | DestStop

record 'c IncomingConnectionState =
  in_conn :: 'c
  in_dest :: bool
  dest_side_congest :: WindowCongestionMonitor
  in_timer :: bool
  in_effects :: "in_effect list"

text \<open>The factor of the window monitor is 0.75.\<close>

definition new_IncomingConnectionState :: "msec_t \<Rightarrow> 'c \<Rightarrow> 'c IncomingConnectionState res" where
  "new_IncomingConnectionState now c = bindE (new_WindowCongestionMonitor now (Fin (3 / 4))) (\<lambda>m.
     Inr \<lparr>in_conn = c, in_dest = True, dest_side_congest = m, in_timer = False, in_effects = []\<rparr>)"

definition no_more_tuples :: "'c IncomingConnectionState \<Rightarrow> 'c IncomingConnectionState" where
  "no_more_tuples s = (if \<not> in_dest s then s else s \<lparr>in_dest := False, in_effects := in_effects s @ [DestStop]\<rparr>)"

definition in_close :: "'c ConnOps \<Rightarrow> 'c IncomingConnectionState \<Rightarrow> 'c IncomingConnectionState" where
  "in_close co s = s \<lparr>in_conn := co_close co (in_conn s)\<rparr>"

definition in_send :: "'c ConnOps \<Rightarrow> DataplaneMessage \<Rightarrow> 'c IncomingConnectionState \<Rightarrow> (io_error option \<times> 'c IncomingConnectionState) res" where
  "in_send co m s = bindE (co_send co m (in_conn s)) (\<lambda>(er, c). Inr (er, s \<lparr>in_conn := c\<rparr>))"

definition got_data_cb ::
  "'c ConnOps \<Rightarrow> (Tuple \<Rightarrow> nat) \<Rightarrow> msec_t \<Rightarrow> DataplaneMessage \<Rightarrow> io_error option \<Rightarrow>
   'c IncomingConnectionState \<Rightarrow> 'c IncomingConnectionState res" where
  "got_data_cb co tsize now msg err s =
     (if err \<noteq> None then Inr (if in_dest s then in_close co (no_more_tuples s) else s)
      else if \<not> in_dest s then Inl LogFatal
      else if list_ex (\<lambda>t. e t = []) (data msg) then Inl AssertFail
      else bindE (case dp_type msg of
          DATA \<Rightarrow> Inr (s \<lparr>dest_side_congest := w_report_insert now (of_nat (sum_list (map tsize (data msg)))) (dest_side_congest s),
             in_effects := in_effects s @ [DestProcess (data msg) msg]\<rparr>)
        | NO_MORE_DATA \<Rightarrow> Inr (in_close co (no_more_tuples s))
        | TS_ECHO \<Rightarrow> bindE (in_send co msg s) (\<lambda>(_, s1). Inr s1)
        | END_OF_WINDOW \<Rightarrow>
            (let m = w_end_of_window_default now (case window_length_ms msg of None \<Rightarrow> 0 | Some w \<Rightarrow> w) (dest_side_congest s);
                 s1 = s \<lparr>in_effects := in_effects s @ [DestMeta msg]\<rparr>
             in bindE (w_capacity_ratio now m) (\<lambda>(lvl, m').
                bindE (in_send co ((mk_msg CONGEST_STATUS) \<lparr>timestamp := Some (case timestamp msg of None \<Rightarrow> 0 | Some t \<Rightarrow> t),
                    congestion_level := Some lvl\<rparr>) (s1 \<lparr>dest_side_congest := m'\<rparr>)) (\<lambda>(_, s2). Inr s2)))
        | _ \<Rightarrow> Inr (s \<lparr>in_effects := in_effects s @ [DestMeta msg]\<rparr>)) (\<lambda>s3.
      Inr (s3 \<lparr>in_conn := snd (co_recv co (in_conn s3))\<rparr>)))"

definition report_congestion_upstream ::
  "'c ConnOps \<Rightarrow> double \<Rightarrow> 'c IncomingConnectionState \<Rightarrow> 'c IncomingConnectionState res" where
  "report_congestion_upstream co level s =
     (if \<not> in_dest s then Inl NullDeref
      else bindE (in_send co ((mk_msg CONGEST_STATUS) \<lparr>congestion_level := Some level\<rparr>) s) (\<lambda>(er, s1).
        Inr (if er \<noteq> None then in_close co (no_more_tuples s1) else s1)))"

definition register_congestion_recheck :: "'c IncomingConnectionState \<Rightarrow> 'c IncomingConnectionState" where
  "register_congestion_recheck s = s \<lparr>in_timer := True\<rparr>"

text \<open>The level and time of the monitor of the chain are the arguments.\<close>

definition congestion_recheck_cb ::
  "'c ConnOps \<Rightarrow> msec_t \<Rightarrow> double \<Rightarrow> msec_t \<Rightarrow> io_error option \<Rightarrow> 'c IncomingConnectionState \<Rightarrow> 'c IncomingConnectionState res" where
  "congestion_recheck_cb co now level age err s =
     (if err = Some operation_canceled then Inr s
      else let s1 = s \<lparr>dest_side_congest := set_downstream_congestion level age (dest_side_congest s)\<rparr> in
        if co_connected co (in_conn s1) then
          bindE (w_capacity_ratio now (dest_side_congest s1)) (\<lambda>(lvl, m).
          bindE (report_congestion_upstream co lvl (s1 \<lparr>dest_side_congest := m\<rparr>)) (\<lambda>s2.
          Inr (register_congestion_recheck s2)))
        else Inr s1)"

definition in_meta_from_downstream ::
  "'c ConnOps \<Rightarrow> DataplaneMessage \<Rightarrow> 'c IncomingConnectionState \<Rightarrow> 'c IncomingConnectionState res" where
  "in_meta_from_downstream co msg s =
     (if co_connected co (in_conn s) then
        bindE (in_send co msg s) (\<lambda>(er, s1). Inr (if er \<noteq> None then in_close co (no_more_tuples s1) else s1))
      else Inr s)"

section \<open>DataplaneConnManager\<close>

text \<open>
  Connections are numbers in the manager's maps, and so are chains.  A live connection is filed
  under its remote endpoint, a pending one under the name of the operator or cube it waits for, an
  adaptor under the name of its destination.
\<close>

record PendingConn =
  pc_conn :: nat
  pc_src :: operator_id_t

record DataplaneConnManager =
  pendingConns :: "(string, PendingConn list) stdmap"
  liveConns :: "(nat, nat \<times> nat \<times> operator_id_t) stdmap"
  adaptors :: "(string, nat) stdmap"
  dm_strand :: "string list"
  dm_strand_in :: "nat list"

definition new_DataplaneConnManager :: DataplaneConnManager where
  "new_DataplaneConnManager = \<lparr>pendingConns = [], liveConns = [], adaptors = [], dm_strand = [], dm_strand_in = []\<rparr>"

definition enable_connection ::
  "(nat \<Rightarrow> nat) \<Rightarrow> nat \<Rightarrow> nat \<Rightarrow> operator_id_t \<Rightarrow> DataplaneConnManager \<Rightarrow> DataplaneConnManager res" where
  "enable_connection endpoint c dest src m =
     (if map_has (endpoint c) (liveConns m) then Inl LogFatal
      else Inr (m \<lparr>liveConns := map_set (endpoint c) (c, dest, src) (liveConns m)\<rparr>))"

definition pending_connection :: "nat \<Rightarrow> string \<Rightarrow> operator_id_t \<Rightarrow> DataplaneConnManager \<Rightarrow> DataplaneConnManager" where
  "pending_connection c future_op src m =
     m \<lparr>pendingConns := map_set future_op
        ((case map_find future_op (pendingConns m) of None \<Rightarrow> [] | Some ps \<Rightarrow> ps) @ [\<lparr>pc_conn = c, pc_src = src\<rparr>]) (pendingConns m)\<rparr>"

text \<open>
  A new chain takes the connections that wait for its head: each gets a copy of the chain of its
  own, with an empty head; \<^verbatim>\<open>fresh\<close> is the number of the first copy.  The result also lists the copies.
\<close>

fun enable_pending :: "(nat \<Rightarrow> nat) \<Rightarrow> nat \<Rightarrow> PendingConn list \<Rightarrow> DataplaneConnManager \<Rightarrow> (nat list \<times> DataplaneConnManager) res" where
  "enable_pending endpoint fresh [] m = Inr ([], m)"
| "enable_pending endpoint fresh (p # ps) m =
     bindE (enable_connection endpoint (pc_conn p) fresh (pc_src p) m) (\<lambda>m1.
     bindE (enable_pending endpoint (Suc fresh) ps m1) (\<lambda>(chs, m2). Inr (fresh # chs, m2)))"

definition created_chain ::
  "(nat \<Rightarrow> nat) \<Rightarrow> nat \<Rightarrow> string \<Rightarrow> DataplaneConnManager \<Rightarrow> (nat list \<times> DataplaneConnManager) res" where
  "created_chain endpoint fresh op_id m = (case map_find op_id (pendingConns m) of None \<Rightarrow> Inr ([], m)
     | Some ps \<Rightarrow> bindE (enable_pending endpoint fresh ps m) (\<lambda>(chs, m1).
         Inr (chs, m1 \<lparr>pendingConns := map_erase op_id (pendingConns m1)\<rparr>)))"

definition register_new_adaptor :: "string \<Rightarrow> nat \<Rightarrow> DataplaneConnManager \<Rightarrow> DataplaneConnManager" where
  "register_new_adaptor dest a m = m \<lparr>adaptors := map_set dest a (adaptors m)\<rparr>"

definition dm_cleanup :: "string \<Rightarrow> DataplaneConnManager \<Rightarrow> DataplaneConnManager" where
  "dm_cleanup dest m = m \<lparr>dm_strand := dm_strand m @ [dest]\<rparr>"

definition cleanup_incoming :: "nat \<Rightarrow> DataplaneConnManager \<Rightarrow> DataplaneConnManager" where
  "cleanup_incoming ep m = m \<lparr>dm_strand_in := dm_strand_in m @ [ep]\<rparr>"

text \<open>\<^verbatim>\<open>in_use\<close> tells whether the connection of an adaptor is connected.  An unknown name is entered in the map with no adaptor by the code; here it stays absent.\<close>

definition deferred_cleanup :: "(nat \<Rightarrow> bool) \<Rightarrow> string \<Rightarrow> DataplaneConnManager \<Rightarrow> DataplaneConnManager res" where
  "deferred_cleanup in_use dest m = (case map_find dest (adaptors m) of None \<Rightarrow> Inr m
     | Some a \<Rightarrow> if \<not> in_use a then Inr (m \<lparr>adaptors := map_erase dest (adaptors m)\<rparr>) else Inl LogFatal)"

definition deferred_cleanup_in :: "nat \<Rightarrow> DataplaneConnManager \<Rightarrow> DataplaneConnManager" where
  "deferred_cleanup_in ep m = m \<lparr>liveConns := map_erase ep (liveConns m)\<rparr>"

definition dm_close :: "DataplaneConnManager \<Rightarrow> nat list" where
  "dm_close m = concat (map (\<lambda>(_, ps). map pc_conn ps) (pendingConns m)) @ map (\<lambda>(_, c, _). c) (liveConns m)"


section \<open>A hop between two nodes\<close>

text \<open>
  What goes through a chain is a sequence of items, tuples and markers.  The adaptor stamps some
  markers with the time they were sent, so timestamps are left out of the comparison.
\<close>

datatype item = Tup Tuple | Meta DataplaneMessage

definition untimed :: "DataplaneMessage \<Rightarrow> DataplaneMessage" where
  "untimed m = m \<lparr>timestamp := None\<rparr>"

definition tuples_of :: "Tuple option list \<Rightarrow> Tuple list" where
  "tuples_of ts = concat (map (\<lambda>p. case p of None \<Rightarrow> [] | Some t \<Rightarrow> [t]) ts)"

definition call_items :: "Tuple option list \<Rightarrow> DataplaneMessage \<Rightarrow> item list" where
  "call_items ts m = map Tup (tuples_of ts) @ (if has_type m then [Meta (untimed m)] else [])"

definition msg_items :: "DataplaneMessage \<Rightarrow> item list" where
  "msg_items m = (if dp_type m = DATA then map Tup (data m) else [Meta (untimed m)])"

fun effect_items :: "in_effect \<Rightarrow> item list" where
  "effect_items (DestProcess ts m) = map Tup ts"
| "effect_items (DestMeta m) = [Meta (untimed m)]"
| "effect_items DestStop = []"

definition given_items :: "'c IncomingConnectionState \<Rightarrow> item list" where
  "given_items s = concat (map effect_items (in_effects s))"

definition buffered :: "'c RemoteDestAdaptor \<Rightarrow> Tuple list" where
  "buffered r = data (out_buffer_msg r)"

definition full_tuple :: "Tuple \<Rightarrow> bool" where
  "full_tuple t \<longleftrightarrow> e t \<noteq> []"

text \<open>The markers that pass through a chain: not data, not the end of it and not an echo request.\<close>

definition marker :: "DataplaneMessage \<Rightarrow> bool" where
  "marker m \<longleftrightarrow> dp_type m \<noteq> DATA \<and> dp_type m \<noteq> NO_MORE_DATA \<and> dp_type m \<noteq> TS_ECHO \<and> dp_type m \<noteq> DP_ERROR \<and> data m = []"

definition wire_msg :: "DataplaneMessage \<Rightarrow> bool" where
  "wire_msg m \<longleftrightarrow> (dp_type m = DATA \<or> marker m) \<and> list_all full_tuple (data m)"

definition rd_ready :: "'c RemoteDestAdaptor \<Rightarrow> bool" where
  "rd_ready r \<longleftrightarrow> chainIsReady r \<and> \<not> is_stopping r"

lemma tuples_of_simps [simp]:
  "tuples_of [] = []" "tuples_of (None # ts) = tuples_of ts" "tuples_of (Some t # ts) = t # tuples_of ts"
  by (simp_all add: tuples_of_def)

lemma untimed_stamp [simp]: "untimed (m \<lparr>timestamp := x\<rparr>) = untimed m"
  by (simp add: untimed_def)

lemma marker_stamp [simp]: "marker (m \<lparr>timestamp := x\<rparr>) = marker m"
  by (simp add: marker_def)

lemma fold_buffer:
  "data (out_buffer_msg (fold (buffer_tuple tsize now) ts r)) = data (out_buffer_msg r) @ tuples_of ts
   \<and> dp_type (out_buffer_msg (fold (buffer_tuple tsize now) ts r)) = dp_type (out_buffer_msg r)
   \<and> rd_conn (fold (buffer_tuple tsize now) ts r) = rd_conn r
   \<and> chainIsReady (fold (buffer_tuple tsize now) ts r) = chainIsReady r
   \<and> is_stopping (fold (buffer_tuple tsize now) ts r) = is_stopping r
   \<and> no_window_started (fold (buffer_tuple tsize now) ts r) = no_window_started r"
  by (induction ts arbitrary: r) (auto simp: buffer_tuple_def split: option.split)

lemma wait_ready [simp]: "chainIsReady r \<Longrightarrow> wait_for_chain_ready ws r = (True, r)"
  by (cases ws) auto

lemma meta_sends:
  assumes "rd_meta_from_upstream co now m r = Inr r'"
  obtains x w where "send_out co (m \<lparr>timestamp := x\<rparr>) (r \<lparr>no_window_started := w\<rparr>) = Inr r'"
proof (cases "dp_type m = END_OF_WINDOW \<and> window_length_ms m \<noteq> None \<and> \<not> no_window_started r")
  case True
  then show ?thesis using assms that [of "Some (sint now)" True] by (auto simp: rd_meta_from_upstream_def)
next
  case False
  then show ?thesis using assms that [of "timestamp m" "no_window_started r"]
    by (auto simp: rd_meta_from_upstream_def split: if_splits)
qed

text \<open>The law of a connection: a send on a connection that is up adds the message to what is on its way out.\<close>

locale channel =
  fixes co :: "'c ConnOps" and up :: "'c \<Rightarrow> bool" and out :: "'c \<Rightarrow> 'e list" and enc :: "DataplaneMessage \<Rightarrow> 'e"
  assumes send_up: "up c \<Longrightarrow> co_send co m c = Inr (er, c') \<Longrightarrow> er = None \<and> up c' \<and> out c' = out c @ [enc m]"
begin

lemma send_out_up:
  assumes "send_out co m r = Inr r'" and "rd_conn r = Some c" and "up c"
  shows "\<exists>c'. r' = r \<lparr>rd_conn := Some c'\<rparr> \<and> up c' \<and> out c' = out c @ [enc m]"
  using assms send_up [of c m] by (auto simp: send_out_def res_simps)

lemma do_send_up:
  assumes "do_send_unlocked co r = Inr r'" and "rd_conn r = Some c" and "up c"
  shows "\<exists>c'. r' = r \<lparr>this_buf_size := 0, rd_timer := False, rd_conn := Some c', out_buffer_msg := cleared_msg\<rparr>
     \<and> up c' \<and> out c' = out c @ [enc (out_buffer_msg r)]"
  using assms send_up [of c "out_buffer_msg r"] by (fastforce simp: do_send_unlocked_def res_simps Let_def)

lemma meta_up:
  assumes "rd_meta_from_upstream co now m r = Inr r'" and "rd_conn r = Some c" and "up c"
  shows "\<exists>c' x w. r' = r \<lparr>no_window_started := w, rd_conn := Some c'\<rparr> \<and> up c' \<and> out c' = out c @ [enc (m \<lparr>timestamp := x\<rparr>)]"
proof -
  obtain x w where "send_out co (m \<lparr>timestamp := x\<rparr>) (r \<lparr>no_window_started := w\<rparr>) = Inr r'"
    using assms(1) by (rule meta_sends)
  from send_out_up [OF this, of c] assms(2,3) show ?thesis by (simp, blast)
qed

text \<open>Tuples and a marker: what is sent and what is left in the buffer is what was there and what was given.\<close>

lemma enqueue_up:
  assumes "rd_enqueue co tsize now ts m r = Inr r'" and "rd_ready r" and "rd_conn r = Some c" and "up c"
    and "has_type m \<longrightarrow> marker m" and "list_all full_tuple (buffered r @ tuples_of ts)"
  shows "\<exists>c' ms. rd_conn r' = Some c' \<and> up c' \<and> out c' = out c @ map enc ms \<and> rd_ready r' \<and> list_all full_tuple (buffered r')
     \<and> list_all wire_msg ms \<and> concat (map msg_items ms) @ map Tup (buffered r') = map Tup (buffered r) @ call_items ts m"
proof -
  let ?r = "fold (buffer_tuple tsize now) ts (r \<lparr>out_buffer_msg := (out_buffer_msg r) \<lparr>dp_type := DATA\<rparr>\<rparr>)"
  let ?m = "out_buffer_msg ?r"
  have r2: "buffered ?r = buffered r @ tuples_of ts" "dp_type ?m = DATA" "rd_conn ?r = Some c" "rd_ready ?r"
    using assms(2,3) by (simp_all add: fold_buffer buffered_def rd_ready_def)
  have w: "wire_msg ?m" "msg_items ?m = map Tup (buffered r @ tuples_of ts)"
    using r2 assms(6) by (simp_all add: wire_msg_def msg_items_def buffered_def)
  have sent: "\<exists>c1. r1 = ?r \<lparr>this_buf_size := 0, rd_timer := False, rd_conn := Some c1, out_buffer_msg := cleared_msg\<rparr>
      \<and> up c1 \<and> out c1 = out c @ [enc ?m] \<and> rd_ready r1 \<and> buffered r1 = []" if "do_send_unlocked co ?r = Inr r1" for r1
    using do_send_up [OF that r2(3) assms(4)] r2(4) by (auto simp: rd_ready_def buffered_def cleared_msg_def mk_msg_def)
  consider (meta) r1 where "has_type m" "do_send_unlocked co ?r = Inr r1" "rd_meta_from_upstream co now m r1 = Inr r'"
    | (full) "\<not> has_type m" "do_send_unlocked co ?r = Inr r'"
    | (room) "\<not> has_type m" "r' = ?r \<or> r' = ?r \<lparr>rd_timer := True\<rparr>"
    using assms(1) by (auto simp: rd_enqueue_def res_simps Let_def split: if_splits)
  then show ?thesis
  proof cases
    case meta
    obtain c1 where c1: "rd_conn r1 = Some c1" "up c1" "out c1 = out c @ [enc ?m]" "rd_ready r1" "buffered r1 = []"
      using sent [OF meta(2)] by auto
    obtain c2 x z where c2: "r' = r1 \<lparr>no_window_started := z, rd_conn := Some c2\<rparr>" "up c2" "out c2 = out c1 @ [enc (m \<lparr>timestamp := x\<rparr>)]"
      using meta_up [OF meta(3) c1(1,2)] by auto
    have m: "marker m" "dp_type m \<noteq> DATA" "data m = []" using assms(5) meta(1) by (simp_all add: marker_def)
    then have "wire_msg (m \<lparr>timestamp := x\<rparr>)" "msg_items (m \<lparr>timestamp := x\<rparr>) = [Meta (untimed m)]"
      by (simp_all add: wire_msg_def msg_items_def)
    then show ?thesis using c1 c2 w meta(1)
      by (intro exI [of _ c2] exI [of _ "[?m, m \<lparr>timestamp := x\<rparr>]"]) (simp add: rd_ready_def buffered_def call_items_def)
  next
    case full
    then show ?thesis using sent [of r'] w by (auto simp: call_items_def intro!: exI [of _ "[?m]"])
  next
    case room
    then have "buffered r' = buffered ?r" "rd_conn r' = Some c" "rd_ready r'" using r2 by (auto simp: buffered_def rd_ready_def)
    then show ?thesis using r2(1) room(1) assms(4,6) by (intro exI [of _ c] exI [of _ "[]"]) (simp add: call_items_def)
  qed
qed

lemma process_up:
  assumes "rd_process co tsize now ws ts m r = Inr r'" and "rd_ready r" and "rd_conn r = Some c" and "up c"
    and "has_type m \<longrightarrow> marker m" and "list_all full_tuple (buffered r @ tuples_of ts)"
  shows "\<exists>c' ms. rd_conn r' = Some c' \<and> up c' \<and> out c' = out c @ map enc ms \<and> rd_ready r' \<and> list_all full_tuple (buffered r')
     \<and> list_all wire_msg ms \<and> concat (map msg_items ms) @ map Tup (buffered r') = map Tup (buffered r) @ call_items ts m"
proof (cases "no_window_started r")
  case True
  then obtain r1 where s: "send_out co (mk_msg DATA) (r \<lparr>no_window_started := False\<rparr>) = Inr r1"
      "rd_enqueue co tsize now ts m r1 = Inr r'"
    using assms(1,2) by (auto simp: rd_process_def rd_ready_def res_simps)
  obtain c1 where c1: "r1 = r \<lparr>no_window_started := False, rd_conn := Some c1\<rparr>" "up c1" "out c1 = out c @ [enc (mk_msg DATA)]"
    using send_out_up [OF s(1), of c] assms(3,4) by auto
  have "wire_msg (mk_msg DATA)" "msg_items (mk_msg DATA) = []" by (simp_all add: wire_msg_def msg_items_def mk_msg_def)
  moreover obtain c' ms where "rd_conn r' = Some c'" "up c'" "out c' = out c1 @ map enc ms" "rd_ready r'"
      "list_all full_tuple (buffered r')" "list_all wire_msg ms"
      "concat (map msg_items ms) @ map Tup (buffered r') = map Tup (buffered r) @ call_items ts m"
    using enqueue_up [OF s(2), of c1] c1(1,2) assms(2,5,6) by (auto simp: rd_ready_def buffered_def)
  ultimately show ?thesis using c1(3) by (intro exI [of _ c'] exI [of _ "mk_msg DATA # ms"]) simp
next
  case False
  then show ?thesis using assms(1,2) enqueue_up [OF _ assms(2-6)] by (auto simp: rd_process_def rd_ready_def)
qed

lemma processes_up:
  assumes "foldE (\<lambda>(now, ws, ts, m). rd_process co tsize now ws ts m) calls r = Inr r'" and "rd_ready r"
    and "rd_conn r = Some c" and "up c" and "\<forall>(now, ws, ts, m) \<in> set calls. (has_type m \<longrightarrow> marker m) \<and> list_all full_tuple (tuples_of ts)"
    and "list_all full_tuple (buffered r)"
  shows "\<exists>c' ms. rd_conn r' = Some c' \<and> up c' \<and> out c' = out c @ map enc ms \<and> rd_ready r' \<and> list_all wire_msg ms
     \<and> concat (map msg_items ms) @ map Tup (buffered r') = map Tup (buffered r) @ concat (map (\<lambda>(_, _, ts, m). call_items ts m) calls)"
  using assms
proof (induction calls arbitrary: r c)
  case Nil
  then show ?case by (auto intro!: exI [of _ "[]"])
next
  case (Cons a calls)
  obtain now ws ts m where a: "a = (now, ws, ts, m)" by (cases a)
  obtain r1 where r1: "rd_process co tsize now ws ts m r = Inr r1"
      "foldE (\<lambda>(now, ws, ts, m). rd_process co tsize now ws ts m) calls r1 = Inr r'"
    using Cons.prems(1) by (auto simp: a res_simps)
  obtain c1 ms1 where c1: "rd_conn r1 = Some c1" "up c1" "out c1 = out c @ map enc ms1" "rd_ready r1" "list_all full_tuple (buffered r1)"
      "list_all wire_msg ms1" "concat (map msg_items ms1) @ map Tup (buffered r1) = map Tup (buffered r) @ call_items ts m"
    using process_up [OF r1(1) Cons.prems(2-4)] Cons.prems(5,6) by (auto simp: a)
  obtain c2 ms2 where c2: "rd_conn r' = Some c2" "up c2" "out c2 = out c1 @ map enc ms2" "rd_ready r'" "list_all wire_msg ms2"
      "concat (map msg_items ms2) @ map Tup (buffered r') = map Tup (buffered r1) @ concat (map (\<lambda>(_, _, ts, m). call_items ts m) calls)"
    using Cons.IH [OF r1(2) c1(4,1,2)] Cons.prems(5) c1(5) by auto
  have "concat (map msg_items (ms1 @ ms2)) @ map Tup (buffered r')
      = (concat (map msg_items ms1) @ map Tup (buffered r1)) @ concat (map (\<lambda>(_, _, ts, m). call_items ts m) calls)"
    using c2(6) by simp
  then show ?case using c1 c2 unfolding c1(7) by (intro exI [of _ c2] exI [of _ "ms1 @ ms2"]) (simp add: a)
qed

end


text \<open>A client connection is such a channel: its frames wait on the strand of its socket.\<close>

definition conn_up :: "ClientConnection \<Rightarrow> bool" where
  "conn_up c \<longleftrightarrow> cc_connected c \<and> (case cc_connSock c of None \<Rightarrow> False | Some s \<Rightarrow> accepts s)"

definition outgoing :: "ClientConnection \<Rightarrow> bytes list" where
  "outgoing c = (case cc_connSock c of None \<Rightarrow> [] | Some s \<Rightarrow> map mo_msg (posted (sendStrand s)))"

lemma length_word: "(word_of_int (uint (word_of_int (to_int32 (int n)) :: size_t)) :: u32) = of_nat n"
proof -
  have "(word_of_int (uint (word_of_int x :: size_t)) :: u32) = word_of_int x" for x
    by (rule bit_word_eqI) (auto simp: bit_simps)
  then have "(word_of_int (uint (word_of_int (to_int32 (int n)) :: size_t)) :: u32) = word_of_int (to_int32 (int n))" .
  also have "\<dots> = of_nat n" unfolding to_int32_def by simp
  finally show ?thesis .
qed

lemma new_SerializedMessageOut_frame:
  assumes "new_SerializedMessageOut m = Inr (Inr msg)"
  shows "mo_msg msg = frame m"
  using assms unfolding new_SerializedMessageOut_def Let_def length_word by (auto simp: frame_def split: if_splits)

lemma send_msg_posts:
  assumes "send_msg m s = Inr (n, er, s')" and "accepts s"
  shows "er = None \<and> (\<exists>msg. mo_msg msg = frame m \<and> s' = s \<lparr>sendStrand := sendStrand s @ [PerformSend msg]\<rparr>)"
proof -
  obtain x where x: "new_SerializedMessageOut m = Inr x"
    using assms by (auto simp: send_msg_def accepts_def res_simps)
  then show ?thesis using assms new_SerializedMessageOut_frame [of m]
    by (cases x) (auto simp: send_msg_def accepts_def)
qed

interpretation client: channel "client_ops ser" conn_up outgoing "\<lambda>m. frame (ser m)"
proof
  fix c m er c'
  assume a: "conn_up c" "co_send (client_ops ser) m c = Inr (er, c')"
  then obtain s where s: "cc_connSock c = Some s" "accepts s" "cc_connected c" by (auto simp: conn_up_def split: option.splits)
  then obtain n s' where "send_msg (ser m) s = Inr (n, er, s')" "c' = c \<lparr>cc_connSock := Some s'\<rparr>"
    using a(2) by (auto simp: client_ops_def cc_send_msg_def res_simps)
  with send_msg_posts [OF this(1) s(2)] s show "er = None \<and> conn_up c' \<and> outgoing c' = outgoing c @ [frame (ser m)]"
    by (auto simp: conn_up_def accepts_def outgoing_def)
qed

text \<open>The receiving side; the answer to the end of a window has to be one that can be serialised.\<close>

definition answers_status :: "'c ConnOps \<Rightarrow> bool" where
  "answers_status co \<longleftrightarrow> (\<forall>t lvl c. is_ok (co_send co ((mk_msg CONGEST_STATUS) \<lparr>timestamp := Some t, congestion_level := Some lvl\<rparr>) c))"

lemma got_data_items:
  assumes "in_dest s" and "wire_msg m" and "answers_status co"
  shows "\<exists>s'. got_data_cb co tsize now m None s = Inr s' \<and> in_dest s' \<and> given_items s' = given_items s @ msg_items m"
proof -
  have d: "\<not> list_ex (\<lambda>t. e t = []) (data m)" using assms(2) by (auto simp: wire_msg_def full_tuple_def list_all_iff list_ex_iff)
  show ?thesis
  proof (cases "dp_type m = END_OF_WINDOW")
    case True
    let ?m = "w_end_of_window_default now (case window_length_ms m of None \<Rightarrow> 0 | Some w \<Rightarrow> w) (dest_side_congest s)"
    obtain er c' where "co_send co ((mk_msg CONGEST_STATUS) \<lparr>timestamp := Some (case timestamp m of None \<Rightarrow> 0 | Some t \<Rightarrow> t),
        congestion_level := Some (fmin (downstream_status ?m) (mon_ratio ?m))\<rparr>) (in_conn s) = Inr (er, c')"
      using assms(3) by (metis answers_status_def is_ok_iff surj_pair)
    then show ?thesis using True d assms(1)
      by (simp add: got_data_cb_def in_send_def w_capacity_ratio_def Let_def given_items_def msg_items_def)
  next
    case False
    then show ?thesis using assms(1,2) d
      by (cases "dp_type m") (simp_all add: got_data_cb_def wire_msg_def marker_def given_items_def msg_items_def)
  qed
qed

lemma got_all_items:
  assumes "in_dest s" and "list_all wire_msg ms" and "answers_status co"
  shows "\<exists>s'. foldE (\<lambda>m. got_data_cb co tsize now m None) ms s = Inr s' \<and> given_items s' = given_items s @ concat (map msg_items ms)"
  using assms
proof (induction ms arbitrary: s)
  case (Cons m ms)
  then obtain s1 where "got_data_cb co tsize now m None s = Inr s1" "in_dest s1" "given_items s1 = given_items s @ msg_items m"
    using got_data_items [of s m co tsize now] by auto
  then show ?case using Cons.IH [of s1] Cons.prems by auto
qed simp



definition demo_ser :: "DataplaneMessage \<Rightarrow> bytes" where
  "demo_ser m = replicate (Suc (length (data m))) 1"

definition demo_conn :: ClientConnection where
  "demo_conn = client_of_socket (new_ConnectedSocket 0 0 False)"

definition demo_edge :: Edge where
  "demo_edge = (empty_edge 1) \<lparr>edge_dest := Some 2\<rparr>"

definition demo_rda :: "ClientConnection RemoteDestAdaptor" where
  "demo_rda = (new_RemoteDestAdaptor demo_edge) \<lparr>rd_conn := Some demo_conn, chainIsReady := True\<rparr>"

definition demo_row :: "int \<Rightarrow> Tuple" where
  "demo_row i = extend_tuple_int empty_tuple i"

definition demo_window_end :: DataplaneMessage where
  "demo_window_end = (mk_msg END_OF_WINDOW) \<lparr>window_length_ms := Some 1000\<rparr>"

definition demo_calls :: "(msec_t \<times> (bool \<times> bool \<times> bool) list \<times> Tuple option list \<times> DataplaneMessage) list" where
  "demo_calls = [(5, [], [Some (demo_row 1), None, Some (demo_row 2)], cleared_msg), (7, [], [Some (demo_row 3)], demo_window_end),
     (9, [], [Some (demo_row 4)], cleared_msg)]"

definition demo_incoming :: "ClientConnection IncomingConnectionState" where
  "demo_incoming = the_ok (new_IncomingConnectionState 1 demo_conn)"

lemma demo_rda_runs:
  "map_sum id buffered (foldE (\<lambda>(now, ws, ts, m). rd_process (client_ops demo_ser) (\<lambda>_. 8) now ws ts m) demo_calls demo_rda)
     = Inr [demo_row 4]"
  by code_simp

lemma demo_items:
  "concat (map (\<lambda>(_, _, ts, m). call_items ts m) demo_calls)
     = [Tup (demo_row 1), Tup (demo_row 2), Tup (demo_row 3), Meta demo_window_end, Tup (demo_row 4)]"
  by code_simp

lemma demo_answers: "answers_status (client_ops demo_ser)"
proof -
  have "new_SerializedMessageOut [1] = Inr (Inr \<lparr>mo_msg = [0, 0, 0, 1, 1], mo_nbytes = 5\<rparr>)" by code_simp
  then show ?thesis
    by (auto simp: answers_status_def client_ops_def cc_send_msg_def send_msg_def demo_ser_def mk_msg_def is_ok_def split: option.split)
qed


text \<open>
  A relay doubles its data.  A chain that starts with a connection and ends with an adaptor is given
  each message of data together with its tuples; the message has a type, so the adaptor sends the
  tuples and then, as a marker, the message with the tuples in it once more.
\<close>

theorem relay_doubles_data:
  assumes "rd_process (client_ops ser) tsize now ws (map Some (data m)) m r = Inr r'" and "dp_type m = DATA"
    and "rd_ready r" and "rd_conn r = Some c" and "conn_up c" and "buffered r = []" and "\<not> no_window_started r"
  shows "\<exists>c' m1. rd_conn r' = Some c' \<and> outgoing c' = outgoing c @ [frame (ser m1), frame (ser m)] \<and> msg_items m1 = map Tup (data m)"
proof -
  let ?r = "fold (buffer_tuple tsize now) (map Some (data m)) (r \<lparr>out_buffer_msg := (out_buffer_msg r) \<lparr>dp_type := DATA\<rparr>\<rparr>)"
  obtain r1 where r1: "do_send_unlocked (client_ops ser) ?r = Inr r1" "send_out (client_ops ser) m r1 = Inr r'"
    using assms(1-3,7)
    by (auto simp: rd_process_def rd_ready_def rd_enqueue_def has_type_def rd_meta_from_upstream_def Let_def res_simps)
  have t: "tuples_of (map Some xs) = xs" for xs by (induction xs) simp_all
  have c: "rd_conn ?r = Some c" "msg_items (out_buffer_msg ?r) = map Tup (data m)"
    using assms(4,6) by (simp_all add: fold_buffer msg_items_def t buffered_def)
  obtain c1 where c1: "rd_conn r1 = Some c1" "conn_up c1" "outgoing c1 = outgoing c @ [frame (ser (out_buffer_msg ?r))]"
    using client.do_send_up [OF r1(1) c(1) assms(5)] by auto
  obtain c2 where "rd_conn r' = Some c2" "outgoing c2 = outgoing c1 @ [frame (ser m)]"
    using client.send_out_up [OF r1(2) c1(1,2)] by auto
  then show ?thesis using c1(3) c(2) by auto
qed

text \<open>A failed send of the buffer forgets the connection and then closes it through a null pointer.\<close>

theorem failed_send_derefs_null:
  assumes "rd_conn r = Some c" and "\<not> is_stopping r" and "co_send co (out_buffer_msg r) c = Inr (Some er, c')"
  shows "do_send_unlocked co r = Inl NullDeref"
  using assms by (simp add: do_send_unlocked_def connection_broken_def Let_def)



definition demo_full :: "ClientConnection RemoteDestAdaptor" where
  "demo_full = demo_rda \<lparr>rd_chains := [None, Some 3], this_buf_size := 8,
     out_buffer_msg := (mk_msg DATA) \<lparr>data := [demo_row 1]\<rparr>\<rparr>"

lemma demo_full_stops: "is_ok (rd_chain_stopping (client_ops demo_ser) 3 demo_full)"
  by code_simp


section \<open>Waiting connections\<close>

text \<open>
  The manager: a chain that is created takes every connection that waits for its head, each into a
  chain of its own, and leaves none behind.
\<close>

lemma enable_pending_live:
  assumes "enable_pending endpoint fresh ps m = Inr (chs, m')"
  shows "chs = [fresh..<fresh + length ps] \<and> pendingConns m' = pendingConns m
     \<and> (\<forall>i < length ps. map_find (endpoint (pc_conn (ps ! i))) (liveConns m') = Some (pc_conn (ps ! i), fresh + i, pc_src (ps ! i)))
     \<and> (\<forall>ep. map_has ep (liveConns m) \<longrightarrow> map_find ep (liveConns m') = map_find ep (liveConns m))"
  using assms
proof (induction ps arbitrary: fresh m chs)
  case (Cons p ps)
  let ?ep = "endpoint (pc_conn p)" and ?m = "m \<lparr>liveConns := map_set (endpoint (pc_conn p)) (pc_conn p, fresh, pc_src p) (liveConns m)\<rparr>"
  obtain chs' where a: "\<not> map_has ?ep (liveConns m)" "enable_pending endpoint (Suc fresh) ps ?m = Inr (chs', m')" "chs = fresh # chs'"
    using Cons.prems by (auto simp: enable_connection_def res_simps split: if_splits)
  note ih = Cons.IH [OF a(2)]
  have "map_find ?ep (liveConns m') = Some (pc_conn p, fresh, pc_src p)" using ih by (simp add: map_has_def)
  then have "map_find (endpoint (pc_conn ((p # ps) ! i))) (liveConns m') = Some (pc_conn ((p # ps) ! i), fresh + i, pc_src ((p # ps) ! i))"
    if "i < length (p # ps)" for i
    using ih that by (cases i) auto
  moreover have "map_find ep (liveConns m') = map_find ep (liveConns m)" if "map_has ep (liveConns m)" for ep
  proof -
    have "map_has ep (liveConns ?m)" "map_find ep (liveConns ?m) = map_find ep (liveConns m)" using that a(1) by auto
    then show ?thesis using ih by (auto simp: map_has_def)
  qed
  moreover have "chs = [fresh..<fresh + length (p # ps)]" using ih a(3) upt_conv_Cons [of fresh "fresh + length (p # ps)"] by simp
  ultimately show ?case using ih by simp
qed simp

theorem created_chain_takes_all:
  assumes "created_chain endpoint fresh op_id m = Inr (chs, m')" and "map_find op_id (pendingConns m) = Some ps"
  shows "length chs = length ps \<and> distinct chs \<and> map_find op_id (pendingConns m') = None
     \<and> (\<forall>i < length ps. map_find (endpoint (pc_conn (ps ! i))) (liveConns m') = Some (pc_conn (ps ! i), chs ! i, pc_src (ps ! i)))"
proof -
  obtain m1 where m1: "enable_pending endpoint fresh ps m = Inr (chs, m1)"
      "m' = m1 \<lparr>pendingConns := map_erase op_id (pendingConns m1)\<rparr>"
    using assms by (auto simp: created_chain_def res_simps)
  show ?thesis using enable_pending_live [OF m1(1)] m1(2) by auto
qed

end
