(* ===== verification/JS_Node.thy ===== *)
theory JS_Node
  imports JS_Map JS_Text
begin

text \<open>
  The node (\<^verbatim>\<open>dataplane/node.h\<close>, \<^verbatim>\<open>dataplane/node.cc\<close>) and its cubes by name
  (\<^verbatim>\<open>dataplane/cube_manager.cc\<close>): the tables of operators and chains, the handler of a request to alter
  the topology with its roll-back, the building of chains from edges, congestion policies and the stop
  of a computation.  An operator is what its virtual functions say of it; the loader and \<^verbatim>\<open>configure\<close> are
  arguments.  A null pointer in a table, or a weak one that has expired, is \<^verbatim>\<open>None\<close>.  Calls into other
  components are a list of effects.
\<close>

section \<open>CubeManager\<close>

record NamedCube =
  nc_schema :: CubeSchema
  nc_masstree :: bool
  nc_overwrite :: bool
  nc_cleared :: nat
  nc_subscribers :: "operator_id_t list"

type_synonym CubeManager = "(string, NamedCube) stdmap"

definition to_canonical :: "string \<Rightarrow> string" where
  "to_canonical raw_name = (case dropWhile (\<lambda>c. c \<noteq> CHR ''/'') raw_name of [] \<Rightarrow> raw_name | _ # name \<Rightarrow> name)"

definition get_cube :: "string \<Rightarrow> CubeManager \<Rightarrow> NamedCube option" where
  "get_cube raw_name m = map_find (to_canonical raw_name) m"

definition name_char :: "char \<Rightarrow> bool" where
  "name_char c \<longleftrightarrow> (CHR ''a'' \<le> c \<and> c \<le> CHR ''z'') \<or> (CHR ''A'' \<le> c \<and> c \<le> CHR ''Z'') \<or> is_digit c \<or> c = CHR ''_''"

definition valid_name :: "string \<Rightarrow> bool" where
  "valid_name name \<longleftrightarrow> name \<noteq> [] \<and> list_all name_char name"

definition create_cube :: "string \<Rightarrow> CubeSchema \<Rightarrow> bool \<Rightarrow> CubeManager \<Rightarrow> NamedCube option \<times> CubeManager" where
  "create_cube raw_name sch overwrite_if_present m =
     (let name = to_canonical raw_name in
      if \<not> valid_name name then (None, m)
      else case map_find name m of
        Some c \<Rightarrow> (let c' = (if overwrite_if_present then c \<lparr>nc_cleared := Suc (nc_cleared c)\<rparr> else c) in (Some c', map_set name c' m))
      | None \<Rightarrow> (let c = \<lparr>nc_schema = sch, nc_masstree = (impl sch = Some Masstree), nc_overwrite = overwrite_if_present,
            nc_cleared = 0, nc_subscribers = []\<rparr>
          in (Some c, map_set name c m)))"

text \<open>Destroying a cube that is not in the table goes through a null pointer.\<close>

definition destroy_cube :: "string \<Rightarrow> CubeManager \<Rightarrow> CubeManager res" where
  "destroy_cube raw_name m = (let name = to_canonical raw_name in
     case map_find name m of None \<Rightarrow> Inl NullDeref | Some c \<Rightarrow> Inr (map_erase name m))"

definition put_cube :: "string \<Rightarrow> NamedCube option \<Rightarrow> CubeManager \<Rightarrow> CubeManager res" where
  "put_cube name c m = (case c of None \<Rightarrow> Inl LogFatal | Some c \<Rightarrow> Inr (map_set name c m))"

text \<open>The list starts with as many empty names as there are cubes.\<close>

definition list_cubes :: "CubeManager \<Rightarrow> string list" where
  "list_cubes m = replicate (length m) [] @ map fst m"


section \<open>State of the node\<close>

record OpInfo =
  oi_mangled :: string
  oi_description :: string
  oi_source :: bool
  oi_chain_end :: bool
  oi_subscriber :: bool

datatype node_member = MOp operator_id_t | MCube string | MRemote Edge

type_synonym node_chain = "node_member list"

text \<open>
  The effects on adaptors, chains and policies; a congestion policy has a number, its operators are
  those added to it, in this order.
\<close>

datatype node_effect =
    NewAdaptor Edge | ChainCreated node_chain | ChainStarted node_chain | ChainStopped node_chain
  | PolicyOperator nat operator_id_t | PolicyMonitor nat node_chain | PolicyChain nat node_chain | SetPolicy nat operator_id_t

record Node =
  n_operators :: "(operator_id_t, OpInfo option) stdmap"
  chainSources :: "(operator_id_t, node_chain option) stdmap"
  sourcelessChain :: "(operator_id_t, node_chain option) stdmap"
  n_cubes :: CubeManager
  n_effects :: "node_effect list"

definition effect :: "node_effect \<Rightarrow> Node \<Rightarrow> Node" where
  "effect f n = n \<lparr>n_effects := n_effects n @ [f]\<rparr>"

text \<open>
  What a request works on: the ids it has started, its response so far and the node.  A step that
  throws leaves this state behind for the handler of the exception.
\<close>

record AlterState =
  a_ids :: "operator_id_t list"
  a_started :: "TaskID list"
  a_created :: "CubeMeta list"
  a_stopped :: "TaskID list"
  a_node :: Node

type_synonym alter_res = "(cxx_error \<times> AlterState) + AlterState"

definition upd_node :: "(Node \<Rightarrow> Node) \<Rightarrow> AlterState \<Rightarrow> AlterState" where
  "upd_node f a = a \<lparr>a_node := f (a_node a)\<rparr>"

fun bindA :: "alter_res \<Rightarrow> (AlterState \<Rightarrow> alter_res) \<Rightarrow> alter_res" where
  "bindA (Inl er) f = Inl er"
| "bindA (Inr a) f = f a"

fun foldA :: "('x \<Rightarrow> AlterState \<Rightarrow> alter_res) \<Rightarrow> 'x list \<Rightarrow> AlterState \<Rightarrow> alter_res" where
  "foldA f [] a = Inr a"
| "foldA f (x # xs) a = bindA (f x a) (foldA f xs)"

section \<open>Operators\<close>

text \<open>Looking an operator up enters a null pointer for an id that is not in the table.\<close>

definition get_operator :: "operator_id_t \<Rightarrow> Node \<Rightarrow> OpInfo option \<times> Node" where
  "get_operator i n = (case map_find i (n_operators n) of Some p \<Rightarrow> (p, n)
     | None \<Rightarrow> (None, n \<lparr>n_operators := map_set i None (n_operators n)\<rparr>))"

definition config_map :: "(string \<times> string) list \<Rightarrow> op_config" where
  "config_map cfg = map_of (rev cfg)"

text \<open>\<^verbatim>\<open>configure\<close> gives an exception, or an error string, which is empty when it went well.\<close>

definition create_operator ::
  "(string \<Rightarrow> OpInfo option) \<Rightarrow> (OpInfo \<Rightarrow> op_config \<Rightarrow> string + operator_err_t) \<Rightarrow> string \<Rightarrow> operator_id_t \<Rightarrow> op_config \<Rightarrow>
   Node \<Rightarrow> OpInfo res" where
  "create_operator newOp configure op_tn i cfg n =
     (if map_has i (n_operators n) then Inl (Thrown (''operator '' @ operator_id_to_string i @ ''  already exists''))
      else case newOp op_tn of None \<Rightarrow> Inl (Thrown (''Loader failed to create operator of type '' @ op_tn))
      | Some d \<Rightarrow> (case configure d cfg of Inl what \<Rightarrow> Inl (Thrown what)
          | Inr err \<Rightarrow> if err \<noteq> [] then Inl (Thrown err) else Inr d))"

definition contains :: "string \<Rightarrow> string \<Rightarrow> bool" where
  "contains hay needle \<longleftrightarrow> list_ex (\<lambda>k. take (length needle) (drop k hay) = needle) [0..<Suc (length hay)]"

text \<open>
  One operator of a request: an id that is in the table has to be of the same type and not of this very
  request; asking a null pointer for its type is an exception that nobody catches.
\<close>

definition start_operator ::
  "(string \<Rightarrow> OpInfo option) \<Rightarrow> (OpInfo \<Rightarrow> op_config \<Rightarrow> string + operator_err_t) \<Rightarrow> TaskMeta \<Rightarrow> AlterState \<Rightarrow> alter_res" where
  "start_operator newOp configure task a =
     (let i = unparse_id (task_id_of task); cmd = op_typename task; n = a_node a;
          done = (\<lambda>a. a \<lparr>a_started := a_started a @ [task_id_of task]\<rparr>) in
      case map_find i (n_operators n) of
        Some prev \<Rightarrow>
          if i \<in> set (a_ids a) then Inl (Thrown (''Operator '' @ operator_id_to_string i @ '' already defined in this alter''), a)
          else (case prev of None \<Rightarrow> Inl (NullDeref, a)
            | Some p \<Rightarrow> if \<not> contains (oi_mangled p) cmd
                then Inl (Thrown (''operator '' @ operator_id_to_string i @ '' clashes with '' @ oi_description p), a)
                else Inr (done a))
      | None \<Rightarrow> (case create_operator newOp configure cmd i (config_map (config task)) n of
            Inl er \<Rightarrow> Inl (er, a)
          | Inr p \<Rightarrow> Inr (done (a \<lparr>a_ids := a_ids a @ [i], a_node := n \<lparr>n_operators := map_set i (Some p) (n_operators n)\<rparr>\<rparr>))))"

definition create_one_cube :: "CubeMeta \<Rightarrow> AlterState \<Rightarrow> alter_res" where
  "create_one_cube task a = (case create_cube (cube_name task) (schema task) (overwrite_old task = Some True) (n_cubes (a_node a)) of
     (None, _) \<Rightarrow> Inl (Thrown (''Failed to create cube '' @ cube_name task), a)
   | (Some _, m) \<Rightarrow> Inr (upd_node (\<lambda>n. n \<lparr>n_cubes := m\<rparr>) a \<lparr>a_created := a_created a @ [task]\<rparr>))"

definition unregister_chain :: "node_chain \<Rightarrow> Node \<Rightarrow> Node" where
  "unregister_chain c n = (case c of MOp i # _ \<Rightarrow> n \<lparr>n_operators := map_erase i (n_operators n), chainSources := map_erase i (chainSources n)\<rparr>
     | _ \<Rightarrow> n)"

text \<open>
  A request to stop an unknown chain enters a null pointer in the table of chains.  The operators that
  only the stopped chain held are destroyed with it; who else holds them the argument says.
\<close>

definition expire :: "(operator_id_t \<Rightarrow> bool) \<Rightarrow> Node \<Rightarrow> Node" where
  "expire gone n = n \<lparr>n_operators := map (\<lambda>(i, p). (i, if gone i then None else p)) (n_operators n)\<rparr>"

definition stop_task :: "(node_chain \<Rightarrow> operator_id_t \<Rightarrow> bool) \<Rightarrow> TaskID \<Rightarrow> AlterState \<Rightarrow> alter_res" where
  "stop_task gone t a = (let i = unparse_id t; n = a_node a in
     case map_find i (chainSources n) of
       Some (Some c) \<Rightarrow> Inr (a \<lparr>a_node := expire (gone c) (unregister_chain c (effect (ChainStopped c) n)), a_stopped := a_stopped a @ [t]\<rparr>)
     | Some None \<Rightarrow> Inr (a \<lparr>a_stopped := a_stopped a @ [t]\<rparr>)
     | None \<Rightarrow> Inr (a \<lparr>a_node := n \<lparr>chainSources := map_set i None (chainSources n)\<rparr>, a_stopped := a_stopped a @ [t]\<rparr>))"

definition remove_cube :: "string \<Rightarrow> AlterState \<Rightarrow> alter_res" where
  "remove_cube i a = (case destroy_cube i (n_cubes (a_node a)) of Inl er \<Rightarrow> Inl (er, a)
     | Inr m \<Rightarrow> Inr (upd_node (\<lambda>n. n \<lparr>n_cubes := m\<rparr>) a))"

section \<open>Chains\<close>

text \<open>
  The edges.  The last edge out of an operator counts; an operator with an edge into it has a
  predecessor.  An edge without a source operator makes its destination a subscriber of a cube; its
  test for a destination is a bitwise complement and always true.
\<close>

record EdgeMaps =
  op_to_outedge :: "(operator_id_t, Edge) stdmap"
  op_to_pred :: "(operator_id_t, operator_id_t) stdmap"

definition operator_edge :: "operator_id_t \<Rightarrow> Edge \<Rightarrow> EdgeMaps \<times> Node \<Rightarrow> (cxx_error \<times> Node) + (EdgeMaps \<times> Node)" where
  "operator_edge src ed s = (case s of (em, n) \<Rightarrow> case get_operator src n of
     (None, n1) \<Rightarrow> Inl (Thrown (''unknown source operator '' @ operator_id_to_string src @ '' for edge.''), n1)
   | (Some _, n1) \<Rightarrow>
       (let em1 = em \<lparr>op_to_outedge := map_set src ed (op_to_outedge em)\<rparr> in
        case (edge_dest ed, dest_addr ed) of
          (Some d, None) \<Rightarrow>
            (let dest = OpId (edge_computation ed) d in case get_operator dest n1 of
               (None, n2) \<Rightarrow> Inl (Thrown (''Edge from '' @ operator_id_to_string src @ '' to unknown dest '' @ operator_id_to_string dest), n2)
             | (Some _, n2) \<Rightarrow> Inr (em1 \<lparr>op_to_pred := map_set dest src (op_to_pred em1)\<rparr>, n2))
        | _ \<Rightarrow> Inr (em1, n1)))"

definition cube_edge :: "string \<Rightarrow> Edge \<Rightarrow> Node \<Rightarrow> (cxx_error \<times> Node) + Node" where
  "cube_edge sc ed n =
     (let d = (case edge_dest ed of None \<Rightarrow> 0 | Some d \<Rightarrow> d); dest = OpId (edge_computation ed) d in
      case get_operator dest n of (p, n1) \<Rightarrow>
      (case get_cube sc (n_cubes n1) of
         None \<Rightarrow> Inl (Thrown (''Can't add edge from '' @ sc @ '' to '' @ show_int d @ '': no such cube''), n1)
       | Some c \<Rightarrow>
           if (case p of None \<Rightarrow> True | Some x \<Rightarrow> \<not> oi_subscriber x)
           then Inl (Thrown (''Can't add edge from '' @ sc @ '' to '' @ show_int d @ '': no such destination (or dest not a subscriber)''), n1)
           else Inr (n1 \<lparr>n_cubes := map_set (to_canonical sc) (c \<lparr>nc_subscribers := nc_subscribers c @ [dest]\<rparr>) (n_cubes n1)\<rparr>)))"

fun read_edges :: "(Edge \<Rightarrow> string) \<Rightarrow> Edge list \<Rightarrow> EdgeMaps \<times> Node \<Rightarrow> (cxx_error \<times> Node) + (EdgeMaps \<times> Node)" where
  "read_edges show_edge [] s = Inr s"
| "read_edges show_edge (ed # eds) s =
     (case (case edge_src ed of
          Some sr \<Rightarrow> operator_edge (OpId (edge_computation ed) sr) ed s
        | None \<Rightarrow> (case src_cube ed of
            None \<Rightarrow> Inl (Thrown (''edges without src op must connect cubes to operators. Instead, got '' @ show_edge ed), snd s)
          | Some sc \<Rightarrow> (case cube_edge sc ed (snd s) of Inl er \<Rightarrow> Inl er | Inr n \<Rightarrow> Inr (fst s, n)))) of
        Inl er \<Rightarrow> Inl er
      | Inr s' \<Rightarrow> read_edges show_edge eds s')"

text \<open>
  One chain: from its first operator along the edges, until there is none, or the last member is not
  an operator, or it ends chains.  The loop need not end; then it has no result.
\<close>

definition walk_next ::
  "(operator_id_t \<Rightarrow> OpInfo option) \<Rightarrow> (string \<Rightarrow> bool) \<Rightarrow> Edge \<Rightarrow> operator_id_t \<Rightarrow> (operator_id_t \<times> node_member \<times> bool) res" where
  "walk_next lookup cubes ed i =
     (if dest_addr ed \<noteq> None then Inr (i, MRemote ed, False)
      else case edge_dest ed of
        Some d \<Rightarrow> (let j = OpId (edge_computation ed) d in case lookup j of None \<Rightarrow> Inl NullDeref | Some p \<Rightarrow> Inr (j, MOp j, oi_chain_end p))
      | None \<Rightarrow> (case dest_cube ed of Some c \<Rightarrow> if cubes c then Inr (i, MCube (to_canonical c), False) else Inl NullDeref | None \<Rightarrow> Inl LogFatal))"

definition is_operator :: "node_member \<Rightarrow> bool" where
  "is_operator m = (case m of MOp _ \<Rightarrow> True | _ \<Rightarrow> False)"

partial_function (option) walk ::
  "(operator_id_t \<Rightarrow> OpInfo option) \<Rightarrow> (string \<Rightarrow> bool) \<Rightarrow> (operator_id_t \<Rightarrow> Edge option) \<Rightarrow> operator_id_t \<Rightarrow> node_member \<Rightarrow> bool \<Rightarrow>
   node_chain \<Rightarrow> operator_id_t list \<Rightarrow> (node_chain \<times> operator_id_t list) res option" where
  "walk lookup cubes out i m hit_end acc ids =
     (case out i of None \<Rightarrow> Some (Inr (acc @ [m], ids @ [i]))
      | Some ed \<Rightarrow>
          if \<not> is_operator m \<or> hit_end then Some (Inr (acc @ [m], ids @ [i]))
          else (case walk_next lookup cubes ed i of Inl er \<Rightarrow> Some (Inl er)
            | Inr (i', m', he) \<Rightarrow> walk lookup cubes out i' m' he (acc @ [m]) (ids @ [i])))"

declare walk.simps [code]

record BuildState =
  b_chains :: "node_chain list"
  b_opToChain :: "(operator_id_t, node_chain) stdmap"
  b_node :: Node

definition file_chain :: "operator_id_t \<Rightarrow> bool \<Rightarrow> node_chain \<Rightarrow> operator_id_t list \<Rightarrow> BuildState \<Rightarrow> BuildState" where
  "file_chain i startable c ids b =
     (let n1 = fold (\<lambda>m. case m of MRemote ed \<Rightarrow> effect (NewAdaptor ed) | _ \<Rightarrow> id) c (b_node b);
          n2 = (if startable then n1 \<lparr>chainSources := map_set i (Some c) (chainSources n1)\<rparr>
                else n1 \<lparr>sourcelessChain := map_set i (Some c) (sourcelessChain n1)\<rparr>)
      in b \<lparr>b_chains := b_chains b @ (if startable then [c] else []), b_opToChain := fold (\<lambda>j. map_set j c) ids (b_opToChain b),
            b_node := effect (ChainCreated c) n2\<rparr>)"

definition build_chain ::
  "EdgeMaps \<Rightarrow> operator_id_t \<Rightarrow> BuildState \<Rightarrow> ((cxx_error \<times> Node) + BuildState) option" where
  "build_chain em i b = (let n = b_node b in
     case map_find i (n_operators n) of Some (Some p) \<Rightarrow>
       (if \<not> map_has i (op_to_pred em) \<or> oi_source p then
          (case walk (\<lambda>j. case map_find j (n_operators n) of Some (Some q) \<Rightarrow> Some q | _ \<Rightarrow> None) (\<lambda>c. get_cube c (n_cubes n) \<noteq> None)
             (\<lambda>j. map_find j (op_to_outedge em)) i (MOp i) False [] [] of
             None \<Rightarrow> None
           | Some (Inl er) \<Rightarrow> Some (Inl (er, n))
           | Some (Inr (c, ids)) \<Rightarrow> Some (Inr (file_chain i (oi_source p) c ids b)))
        else Some (Inr b))
     | _ \<Rightarrow> Some (Inl (NullDeref, n)))"

fun build_chains :: "EdgeMaps \<Rightarrow> operator_id_t list \<Rightarrow> BuildState \<Rightarrow> ((cxx_error \<times> Node) + BuildState) option" where
  "build_chains em [] b = Some (Inr b)"
| "build_chains em (i # is) b = (case build_chain em i b of None \<Rightarrow> None | Some (Inl er) \<Rightarrow> Some (Inl er)
     | Some (Inr b') \<Rightarrow> build_chains em is b')"

definition create_chains :: "(Edge \<Rightarrow> string) \<Rightarrow> Edge list \<Rightarrow> operator_id_t list \<Rightarrow> Node \<Rightarrow> ((cxx_error \<times> Node) + BuildState) option" where
  "create_chains show_edge eds is n = (case read_edges show_edge eds (\<lparr>op_to_outedge = [], op_to_pred = []\<rparr>, n) of
     Inl er \<Rightarrow> Some (Inl er)
   | Inr (em, n1) \<Rightarrow> build_chains em is \<lparr>b_chains = [], b_opToChain = [], b_node = n1\<rparr>)"

section \<open>Congestion policies\<close>

text \<open>
  One policy of the request: its operators in order, those that do not exist are skipped, one that is in
  no chain of this request is an error.  The chain of the last one is the chain of the policy; when there is
  none, the code asks a null pointer for its monitor.
\<close>

fun spec_ops ::
  "nat \<Rightarrow> (operator_id_t, node_chain) stdmap \<Rightarrow> TaskID list \<Rightarrow> operator_id_t list \<times> node_chain option \<times> Node \<Rightarrow>
   (cxx_error \<times> Node) + (operator_id_t list \<times> node_chain option \<times> Node)" where
  "spec_ops k opToChain [] s = Inr s"
| "spec_ops k opToChain (t # ts) (done, chain, n) =
     (let i = unparse_id t in case get_operator i n of
        (None, n1) \<Rightarrow> spec_ops k opToChain ts (done, chain, n1)
      | (Some _, n1) \<Rightarrow> (let n2 = effect (PolicyOperator k i) n1 in
          case map_find i opToChain of
            None \<Rightarrow> Inl (Thrown (''Operator '' @ operator_id_to_string i @ '' not created in this Alter''), n2)
          | Some c \<Rightarrow> spec_ops k opToChain ts (done @ [i], Some c, effect (SetPolicy k i) n2)))"

fun given_policies ::
  "(operator_id_t, node_chain) stdmap \<Rightarrow> nat \<Rightarrow> CongestPolicySpec list \<Rightarrow> operator_id_t list \<times> Node \<Rightarrow>
   (cxx_error \<times> Node) + (operator_id_t list \<times> Node)" where
  "given_policies opToChain k [] s = Inr s"
| "given_policies opToChain k (p # ps) (done, n) = (case spec_ops k opToChain (policy_ops p) (done, None, n) of
     Inl er \<Rightarrow> Inl er
   | Inr (_, None, n1) \<Rightarrow> Inl (NullDeref, n1)
   | Inr (done1, Some c, n1) \<Rightarrow> given_policies opToChain (Suc k) ps (done1, effect (PolicyChain k c) n1))"

fun default_policies ::
  "(operator_id_t, node_chain) stdmap \<Rightarrow> operator_id_t list \<Rightarrow> nat \<Rightarrow> operator_id_t list \<Rightarrow> Node \<Rightarrow> (cxx_error \<times> Node) + Node" where
  "default_policies opToChain have k [] n = Inr n"
| "default_policies opToChain have k (i # is) n =
     (if i \<in> set have then default_policies opToChain have (Suc k) is n
      else case map_find i opToChain of
        None \<Rightarrow> Inl (Thrown (''Can't add policy to '' @ operator_id_to_string i @ ''; no chain with operator.''), n)
      | Some c \<Rightarrow>
          (let n1 = effect (PolicyChain k c) (effect (PolicyMonitor k c) (effect (PolicyOperator k i) n)) in
           case get_operator i n1 of
             (None, n2) \<Rightarrow> default_policies opToChain have (Suc k) is n2
           | (Some _, n2) \<Rightarrow> default_policies opToChain have (Suc k) is (effect (SetPolicy k i) n2)))"

definition establish_congest_policies ::
  "CongestPolicySpec list \<Rightarrow> operator_id_t list \<Rightarrow> (operator_id_t, node_chain) stdmap \<Rightarrow> Node \<Rightarrow> (cxx_error \<times> Node) + Node" where
  "establish_congest_policies specs is opToChain n = (case given_policies opToChain 0 specs ([], n) of
     Inl er \<Rightarrow> Inl er
   | Inr (have, n1) \<Rightarrow> default_policies opToChain have (length specs) is n1)"

section \<open>A request to alter the topology\<close>

datatype ControlType = CTL_ERROR | CTL_ALTER | CTL_ALTER_RESPONSE | CTL_STOP_COMPUTATION | CTL_OTHER

record AlterReply =
  r_computation :: int
  r_started :: "TaskID list"
  r_created :: "CubeMeta list"
  r_stopped :: "TaskID list"

record ControlReply =
  r_type :: "ControlType option"
  r_alters :: "AlterReply list"
  r_error :: "string option"

definition reply_of :: "int \<Rightarrow> AlterState \<Rightarrow> AlterReply" where
  "reply_of c a = \<lparr>r_computation = c, r_started = a_started a, r_created = a_created a, r_stopped = a_stopped a\<rparr>"

definition alter_tables ::
  "(string \<Rightarrow> OpInfo option) \<Rightarrow> (OpInfo \<Rightarrow> op_config \<Rightarrow> string + operator_err_t) \<Rightarrow> (node_chain \<Rightarrow> operator_id_t \<Rightarrow> bool) \<Rightarrow>
   AlterTopo \<Rightarrow> AlterState \<Rightarrow> alter_res" where
  "alter_tables newOp configure gone topo a =
     bindA (foldA (start_operator newOp configure) (toStart topo) a) (\<lambda>a1.
     bindA (foldA create_one_cube (toCreate topo) a1) (\<lambda>a2.
     bindA (foldA (stop_task gone) (taskToStop topo) a2)
       (foldA remove_cube (cubesToStop topo))))"

text \<open>
  After the new chains are started, each cube of the request gets a chain for incoming connections; that
  the cube is still there is asserted.
\<close>

fun cube_chains :: "CubeMeta list \<Rightarrow> Node \<Rightarrow> (cxx_error \<times> Node) + Node" where
  "cube_chains [] n = Inr n"
| "cube_chains (c # cs) n = (case get_cube (cube_name c) (n_cubes n) of None \<Rightarrow> Inl (AssertFail, n)
     | Some _ \<Rightarrow> cube_chains cs (effect (ChainCreated [MCube (to_canonical (cube_name c))]) n))"

definition alter_chains :: "(Edge \<Rightarrow> string) \<Rightarrow> AlterTopo \<Rightarrow> AlterState \<Rightarrow> alter_res option" where
  "alter_chains show_edge topo a = (case create_chains show_edge (edges topo) (a_ids a) (a_node a) of
     None \<Rightarrow> None
   | Some (Inl (er, n)) \<Rightarrow> Some (Inl (er, a \<lparr>a_node := n\<rparr>))
   | Some (Inr b) \<Rightarrow> (case establish_congest_policies (congest_policies topo) (a_ids a) (b_opToChain b) (b_node b) of
       Inl (er, n) \<Rightarrow> Some (Inl (er, a \<lparr>a_node := n\<rparr>))
     | Inr n \<Rightarrow> (case cube_chains (toCreate topo) (fold (\<lambda>c. effect (ChainStarted c)) (b_chains b) n) of
         Inl (er, n) \<Rightarrow> Some (Inl (er, a \<lparr>a_node := n\<rparr>))
       | Inr n \<Rightarrow> Some (Inr (a \<lparr>a_node := n\<rparr>)))))"

definition forget_operator :: "operator_id_t \<Rightarrow> Node \<Rightarrow> Node" where
  "forget_operator i n = n \<lparr>sourcelessChain := map_erase i (sourcelessChain n), chainSources := map_erase i (chainSources n),
     n_operators := map_erase i (n_operators n)\<rparr>"

definition alter_body ::
  "(string \<Rightarrow> OpInfo option) \<Rightarrow> (OpInfo \<Rightarrow> op_config \<Rightarrow> string + operator_err_t) \<Rightarrow> (node_chain \<Rightarrow> operator_id_t \<Rightarrow> bool) \<Rightarrow>
   (Edge \<Rightarrow> string) \<Rightarrow> AlterTopo \<Rightarrow> Node \<Rightarrow> alter_res option" where
  "alter_body newOp configure gone show_edge topo n =
     (case alter_tables newOp configure gone topo \<lparr>a_ids = [], a_started = [], a_created = [], a_stopped = [], a_node = n\<rparr> of
        Inl er \<Rightarrow> Some (Inl er)
      | Inr a \<Rightarrow> alter_chains show_edge topo a)"

text \<open>
  Only an operator error is caught: the operators of the request are taken out of the tables again and
  the response is an error.  Every other failure ends the process; no result is a request that is never done.
\<close>

definition handle_alter ::
  "(string \<Rightarrow> OpInfo option) \<Rightarrow> (OpInfo \<Rightarrow> op_config \<Rightarrow> string + operator_err_t) \<Rightarrow> (node_chain \<Rightarrow> operator_id_t \<Rightarrow> bool) \<Rightarrow>
   (Edge \<Rightarrow> string) \<Rightarrow> AlterTopo \<Rightarrow> ControlReply \<times> Node \<Rightarrow> (ControlReply \<times> Node) res option" where
  "handle_alter newOp configure gone show_edge topo s = (case s of (r, n) \<Rightarrow>
     (case alter_body newOp configure gone show_edge topo n of
        None \<Rightarrow> None
      | Some (Inr a) \<Rightarrow> Some (Inr (r \<lparr>r_type := Some CTL_ALTER_RESPONSE,
            r_alters := r_alters r @ [reply_of (alter_computationID topo) a]\<rparr>, a_node a))
      | Some (Inl (Thrown err, a)) \<Rightarrow> Some (Inr (r \<lparr>r_type := Some CTL_ERROR,
            r_alters := r_alters r @ [reply_of (alter_computationID topo) a], r_error := Some err\<rparr>,
            fold forget_operator (a_ids a) (a_node a)))
      | Some (Inl (er, a)) \<Rightarrow> Some (Inl er)))"

section \<open>The stop of a computation\<close>

fun purgeChains :: "int \<Rightarrow> (operator_id_t \<times> node_chain option) list \<Rightarrow> int list \<times> Node \<Rightarrow> (int list \<times> Node) res" where
  "purgeChains compID [] s = Inr s"
| "purgeChains compID ((i, c) # m) (stopped, n) =
     (if computation_id i \<noteq> compID then purgeChains compID m (stopped, n)
      else case c of None \<Rightarrow> Inl NullDeref
        | Some c \<Rightarrow> purgeChains compID m (stopped @ [task_id i], effect (ChainStopped c) n))"

definition stop_computation :: "int \<Rightarrow> Node \<Rightarrow> (int list \<times> Node) res" where
  "stop_computation compID n =
     bindE (purgeChains compID (sourcelessChain n) ([], n)) (\<lambda>s1.
     bindE (purgeChains compID (chainSources n) s1) (\<lambda>(stopped, n2).
     Inr (stopped, fold forget_operator
       (map fst (filter (\<lambda>(i, p). p = None \<or> computation_id i = compID) (n_operators n2))) n2)))"

definition make_stop_comput_response :: "int list \<Rightarrow> int \<Rightarrow> ControlReply \<Rightarrow> ControlReply" where
  "make_stop_comput_response stopped compID r = r \<lparr>r_type := Some CTL_ALTER_RESPONSE,
     r_alters := r_alters r @ [\<lparr>r_computation = compID, r_started = [], r_created = [],
       r_stopped = map (\<lambda>t. \<lparr>tid_computationID = compID, tid_task = t\<rparr>) stopped\<rparr>]\<rparr>"

section \<open>Control messages and incoming connections\<close>

record ControlMessage =
  ctl_type :: ControlType
  ctl_alter :: "AlterTopo list"
  ctl_comp_to_stop :: int

fun handle_alters ::
  "(AlterTopo \<Rightarrow> ControlReply \<times> Node \<Rightarrow> (ControlReply \<times> Node) res option) \<Rightarrow> AlterTopo list \<Rightarrow> ControlReply \<times> Node \<Rightarrow>
   (ControlReply \<times> Node) res option" where
  "handle_alters h [] s = Some (Inr s)"
| "handle_alters h (t # ts) s = (case h t s of None \<Rightarrow> None | Some (Inl er) \<Rightarrow> Some (Inl er) | Some (Inr s') \<Rightarrow> handle_alters h ts s')"

text \<open>The handler's result is the message it sends back; all requests of one message share it.\<close>

definition received_ctrl_msg ::
  "(AlterTopo \<Rightarrow> ControlReply \<times> Node \<Rightarrow> (ControlReply \<times> Node) res option) \<Rightarrow> ControlMessage \<Rightarrow> Node \<Rightarrow>
   (ControlReply \<times> Node) res option" where
  "received_ctrl_msg h msg n = (let r = \<lparr>r_type = None, r_alters = [], r_error = None\<rparr> in
     case ctl_type msg of
       CTL_ALTER \<Rightarrow> handle_alters h (ctl_alter msg) (r, n)
     | CTL_STOP_COMPUTATION \<Rightarrow> Some (bindE (stop_computation (ctl_comp_to_stop msg) n) (\<lambda>(stopped, n').
         Inr (make_stop_comput_response stopped (ctl_comp_to_stop msg) r, n')))
     | CTL_ERROR \<Rightarrow> Some (Inr (r, n))
     | _ \<Rightarrow> Some (Inr (r \<lparr>r_type := Some CTL_ERROR, r_error := Some ''Got unexpected message from controller''\<rparr>, n)))"

text \<open>
  A chain for an incoming connection starts with an empty slot, for the incoming adaptor, and goes on with
  the members of the chain that waits for it.  A null chain in the table is followed.
\<close>

definition clone_chain_from :: "(operator_id_t, node_chain option) stdmap \<Rightarrow> operator_id_t \<Rightarrow> node_member option list option res" where
  "clone_chain_from m dest = (case map_find dest m of None \<Rightarrow> Inr None
     | Some None \<Rightarrow> Inl NullDeref
     | Some (Some c) \<Rightarrow> Inr (Some (None # map Some c)))"

datatype connect_outcome = Enable "node_member option list" | Pending string | RefusedPending string

definition received_data_msg :: "Edge \<Rightarrow> Node \<Rightarrow> connect_outcome res" where
  "received_data_msg ed n =
     (case edge_dest ed of
        Some d \<Rightarrow> (let dest = OpId (edge_computation ed) d in
          bindE (clone_chain_from (sourcelessChain n) dest) (\<lambda>c1. case c1 of Some c \<Rightarrow> Inr (Enable c)
          | None \<Rightarrow> bindE (clone_chain_from (chainSources n) dest) (\<lambda>c2. case c2 of Some c \<Rightarrow> Inr (Enable c)
            | None \<Rightarrow> Inr (Pending (operator_id_to_string dest)))))
      | None \<Rightarrow> (case dest_cube ed of
          Some nm \<Rightarrow> if get_cube nm (n_cubes n) \<noteq> None then Inr (Enable [None, Some (MCube (to_canonical nm))]) else Inr (Pending nm)
        | None \<Rightarrow> Inr (RefusedPending [])))"

section \<open>Roll-back\<close>

text \<open>
  What a request does to the tables before it fails: it enters operators that were not there, chains
  only under their ids, and otherwise at most null pointers.
\<close>

definition keeps :: "Node \<Rightarrow> operator_id_t list \<Rightarrow> Node \<Rightarrow> bool" where
  "keeps n0 is n \<longleftrightarrow>
     (\<forall>i. map_has i (n_operators n0) \<longrightarrow> map_has i (n_operators n) \<and> i \<notin> set is) \<and>
     (\<forall>i p. i \<notin> set is \<longrightarrow> (map_find i (n_operators n) = Some (Some p) \<longleftrightarrow> map_find i (n_operators n0) = Some (Some p))) \<and>
     (\<forall>i. i \<notin> set is \<longrightarrow> map_find i (chainSources n) = map_find i (chainSources n0)
        \<and> map_find i (sourcelessChain n) = map_find i (sourcelessChain n0))"

named_theorems keeps_intros

lemma keeps_refl: "keeps n [] n"
  by (simp add: keeps_def)

lemma keeps_effect [keeps_intros]: "keeps n0 is n \<Longrightarrow> keeps n0 is (effect f n)"
  by (simp add: keeps_def effect_def)

lemma keeps_cubes [keeps_intros]: "keeps n0 is n \<Longrightarrow> keeps n0 is (n \<lparr>n_cubes := m\<rparr>)"
  by (simp add: keeps_def)

lemma keeps_get_operator [keeps_intros]: "get_operator i n = (p, n') \<Longrightarrow> keeps n0 is n \<Longrightarrow> keeps n0 is n'"
  by (fastforce simp: keeps_def get_operator_def map_has_def split: option.splits if_splits)

lemma keeps_fold_effect [keeps_intros]: "(\<And>x n. keeps n0 is n \<Longrightarrow> keeps n0 is (f x n)) \<Longrightarrow> keeps n0 is n \<Longrightarrow> keeps n0 is (fold f xs n)"
  by (induction xs arbitrary: n) auto

definition alter_node :: "alter_res \<Rightarrow> AlterState" where
  "alter_node r = (case r of Inl (_, a) \<Rightarrow> a | Inr a \<Rightarrow> a)"

definition keepsA :: "Node \<Rightarrow> AlterState \<Rightarrow> bool" where
  "keepsA n0 a \<longleftrightarrow> keeps n0 (a_ids a) (a_node a)"

lemma keepsA_start: "keepsA n0 a \<Longrightarrow> keepsA n0 (alter_node (start_operator newOp configure task a))"
  by (auto simp: keepsA_def keeps_def alter_node_def start_operator_def Let_def map_has_def
      split: option.splits sum.splits)

lemma keepsA_cube: "keepsA n0 a \<Longrightarrow> keepsA n0 (alter_node (create_one_cube task a))"
  by (auto simp: keepsA_def alter_node_def create_one_cube_def upd_node_def
      split: option.splits prod.splits intro: keeps_cubes)

lemma keepsA_remove: "keepsA n0 a \<Longrightarrow> keepsA n0 (alter_node (remove_cube i a))"
  by (auto simp: keepsA_def alter_node_def remove_cube_def upd_node_def
      split: sum.splits intro: keeps_cubes)

lemma keepsA_bind:
  "keepsA n0 (alter_node r) \<Longrightarrow> (\<And>a. keepsA n0 a \<Longrightarrow> keepsA n0 (alter_node (f a))) \<Longrightarrow> keepsA n0 (alter_node (bindA r f))"
  by (cases r) (auto simp: alter_node_def)

lemma keepsA_fold:
  "(\<And>x a. keepsA n0 a \<Longrightarrow> keepsA n0 (alter_node (f x a))) \<Longrightarrow> keepsA n0 a \<Longrightarrow> keepsA n0 (alter_node (foldA f xs a))"
proof (induction xs arbitrary: a)
  case (Cons x xs)
  then show ?case by (auto intro!: keepsA_bind)
qed (simp add: alter_node_def)

lemma keepsA_tables:
  "taskToStop topo = [] \<Longrightarrow> keepsA n0 a \<Longrightarrow> keepsA n0 (alter_node (alter_tables newOp configure gone topo a))"
  by (simp add: alter_tables_def) (intro keepsA_bind keepsA_fold keepsA_start keepsA_cube keepsA_remove)

text \<open>The same for the steps after the tables, of which the node is the second part or all of the result.\<close>

lemma keeps_operator_edge:
  assumes "keeps n0 is (snd s)"
  shows "operator_edge sr ed s = Inl (er, n) \<Longrightarrow> keeps n0 is n"
    and "operator_edge sr ed s = Inr s' \<Longrightarrow> keeps n0 is (snd s')"
  using assms
  by (auto simp: operator_edge_def Let_def split: prod.splits option.splits
      dest: keeps_get_operator)

lemma keeps_cube_edge:
  assumes "keeps n0 is n"
  shows "cube_edge sc ed n = Inl (er, n') \<Longrightarrow> keeps n0 is n'"
    and "cube_edge sc ed n = Inr n' \<Longrightarrow> keeps n0 is n'"
  using assms
  by (auto simp: cube_edge_def Let_def split: prod.splits option.splits if_splits
      intro: keeps_cubes dest: keeps_get_operator)

lemma keeps_read_edges:
  "keeps n0 is (snd s) \<Longrightarrow> (case read_edges show_edge eds s of Inl (_, n) \<Rightarrow> keeps n0 is n | Inr (_, n) \<Rightarrow> keeps n0 is n)"
proof (induction eds arbitrary: s)
  case (Cons ed eds)
  show ?case
  proof (cases "edge_src ed")
    case None
    show ?thesis
    proof (cases "src_cube ed")
      case c: (Some sc)
      show ?thesis
      proof (cases "cube_edge sc ed (snd s)")
        case (Inr n)
        have "keeps n0 is n" by (rule keeps_cube_edge(2) [OF Cons.prems Inr])
        with Cons.IH [of "(fst s, n)"] None c Inr show ?thesis by simp
      qed (use None c keeps_cube_edge(1) [OF Cons.prems] in \<open>auto split: prod.splits\<close>)
    qed (use None Cons.prems in simp)
  next
    case (Some sr)
    show ?thesis
    proof (cases "operator_edge (OpId (edge_computation ed) sr) ed s")
      case (Inr s')
      have "keeps n0 is (snd s')" by (rule keeps_operator_edge(2) [OF Cons.prems Inr])
      with Cons.IH [of s'] Some Inr show ?thesis by simp
    qed (use Some keeps_operator_edge(1) [OF Cons.prems] in \<open>auto split: prod.splits\<close>)
  qed
qed (auto split: prod.splits)

lemma keeps_file_chain: "i \<in> set is \<Longrightarrow> keeps n0 is (b_node b) \<Longrightarrow> keeps n0 is (b_node (file_chain i startable c ids b))"
proof -
  assume i: "i \<in> set is" and k: "keeps n0 is (b_node b)"
  have 1: "keeps n0 is (fold (\<lambda>m. case m of MRemote ed \<Rightarrow> effect (NewAdaptor ed) | _ \<Rightarrow> id) c (b_node b))"
    by (rule keeps_fold_effect) (auto split: node_member.split intro: keeps_effect k)
  have 2: "keeps n0 is (m \<lparr>chainSources := map_set i v (chainSources m)\<rparr>)"
      "keeps n0 is (m \<lparr>sourcelessChain := map_set i v (sourcelessChain m)\<rparr>)" if "keeps n0 is m" for m v
    using that i by (auto simp: keeps_def)
  show ?thesis unfolding file_chain_def Let_def using 2 [OF 1] by (auto intro: keeps_effect)
qed

lemma keeps_build_chain:
  assumes "i \<in> set is" "keeps n0 is (b_node b)"
  shows "build_chain em i b = Some (Inl (er, n)) \<Longrightarrow> keeps n0 is n"
    and "build_chain em i b = Some (Inr b') \<Longrightarrow> keeps n0 is (b_node b')"
  using assms keeps_file_chain [OF assms]
  by (auto simp: build_chain_def Let_def split: option.splits if_splits sum.splits)

lemma keeps_build_chains:
  assumes "set js \<subseteq> set is" "keeps n0 is (b_node b)"
  shows "(build_chains em js b = Some (Inl (er, n)) \<longrightarrow> keeps n0 is n)
    \<and> (build_chains em js b = Some (Inr b') \<longrightarrow> keeps n0 is (b_node b'))"
  using assms
  by (induction js arbitrary: b)
    (auto split: option.splits sum.splits intro: keeps_build_chain)

lemma keeps_create_chains:
  assumes "keeps n0 is n"
  shows "create_chains show_edge eds is n = Some (Inl (er, n')) \<Longrightarrow> keeps n0 is n'"
    and "create_chains show_edge eds is n = Some (Inr b) \<Longrightarrow> keeps n0 is (b_node b)"
  using keeps_read_edges [of n0 "is" "(\<lparr>op_to_outedge = [], op_to_pred = []\<rparr>, n)" show_edge eds] assms
  by (auto simp: create_chains_def split: sum.splits prod.splits dest: keeps_build_chains [THEN conjunct1, rule_format, rotated 2]
      keeps_build_chains [THEN conjunct2, rule_format, rotated 2])

lemma keeps_spec_ops:
  "keeps n0 is n \<Longrightarrow> (case spec_ops k opToChain ts (done, c, n) of Inl (_, n') \<Rightarrow> keeps n0 is n' | Inr (_, _, n') \<Rightarrow> keeps n0 is n')"
proof (induction ts arbitrary: "done" c n)
  case (Cons t ts)
  obtain p n1 where g: "get_operator (unparse_id t) n = (p, n1)" by (rule prod.exhaust)
  have k: "keeps n0 is n1" by (rule keeps_get_operator [OF g Cons.prems])
  show ?case
    using Cons.IH [OF k] Cons.IH [OF keeps_effect [OF keeps_effect [OF k]]] keeps_effect [OF k] g
    by (cases p; cases "map_find (unparse_id t) opToChain") (simp_all add: Let_def)
qed simp

lemma keeps_given:
  "keeps n0 is n \<Longrightarrow> (case given_policies opToChain k ps (done, n) of Inl (_, n') \<Rightarrow> keeps n0 is n' | Inr (_, n') \<Rightarrow> keeps n0 is n')"
proof (induction ps arbitrary: k "done" n)
  case (Cons p ps)
  show ?case
  proof (cases "spec_ops k opToChain (policy_ops p) (done, None, n)")
    case (Inl er)
    with keeps_spec_ops [OF Cons.prems, of k opToChain "policy_ops p" "done" None] show ?thesis
      by (auto split: prod.splits)
  next
    case (Inr t)
    obtain d c n1 where t: "t = (d, c, n1)" by (rule prod_cases3)
    have "keeps n0 is n1"
      using keeps_spec_ops [OF Cons.prems, of k opToChain "policy_ops p" "done" None] Inr t by simp
    then show ?thesis using Inr t Cons.IH [OF keeps_effect] by (cases c) simp_all
  qed
qed simp

lemma keeps_default:
  "keeps n0 is n \<Longrightarrow> (case default_policies opToChain h k js n of Inl (_, n') \<Rightarrow> keeps n0 is n' | Inr n' \<Rightarrow> keeps n0 is n')"
proof (induction js arbitrary: k n)
  case (Cons i js)
  show ?case
  proof (cases "i \<in> set h")
    case False
    show ?thesis
    proof (cases "map_find i opToChain")
      case (Some c)
      let ?n1 = "effect (PolicyChain k c) (effect (PolicyMonitor k c) (effect (PolicyOperator k i) n))"
      obtain p n2 where g: "get_operator i ?n1 = (p, n2)" by (rule prod.exhaust)
      have k: "keeps n0 is n2" by (rule keeps_get_operator [OF g]) (intro keeps_effect Cons.prems)
      show ?thesis using False Some g Cons.IH [OF k] Cons.IH [OF keeps_effect [OF k]] by (cases p) simp_all
    qed (use False Cons.prems in simp)
  qed (use Cons in simp)
qed simp

lemma keeps_policies:
  assumes "keeps n0 is n"
  shows "case establish_congest_policies specs js opToChain n of Inl (_, n') \<Rightarrow> keeps n0 is n' | Inr n' \<Rightarrow> keeps n0 is n'"
proof (cases "given_policies opToChain 0 specs ([], n)")
  case (Inr s)
  obtain h n1 where s: "s = (h, n1)" by (rule prod.exhaust)
  have "keeps n0 is n1" using keeps_given [OF assms, of opToChain 0 specs "[]"] Inr s by simp
  then show ?thesis
    using Inr s keeps_default [of n0 "is" n1 opToChain h "length specs" js] by (simp add: establish_congest_policies_def)
qed (use keeps_given [OF assms, of opToChain 0 specs "[]"] in \<open>simp add: establish_congest_policies_def\<close>)

lemma keeps_cube_chains:
  "keeps n0 is n \<Longrightarrow> (case cube_chains cs n of Inl (_, n') \<Rightarrow> keeps n0 is n' | Inr n' \<Rightarrow> keeps n0 is n')"
proof (induction cs arbitrary: n)
  case (Cons c cs)
  then show ?case using Cons.IH [OF keeps_effect [OF Cons.prems]]
    by (cases "get_cube (cube_name c) (n_cubes n)") simp_all
qed simp

lemma keepsA_chains:
  assumes k: "keepsA n0 a" and r: "alter_chains show_edge topo a = Some r"
  shows "keepsA n0 (alter_node r)"
proof (cases "create_chains show_edge (edges topo) (a_ids a) (a_node a)")
  case None
  with r show ?thesis by (simp add: alter_chains_def)
next
  case (Some cr)
  note k0 = k [unfolded keepsA_def]
  show ?thesis
  proof (cases cr)
    case (Inl er)
    then show ?thesis using r Some keeps_create_chains(1) [OF k0]
      by (auto simp: alter_chains_def keepsA_def alter_node_def split: prod.splits)
  next
    case (Inr b)
    have kb: "keeps n0 (a_ids a) (b_node b)" using Some Inr keeps_create_chains(2) [OF k0] by simp
    show ?thesis
    proof (cases "establish_congest_policies (congest_policies topo) (a_ids a) (b_opToChain b) (b_node b)")
      case (Inl er)
      then show ?thesis
        using r Some Inr keeps_policies [OF kb, of "congest_policies topo" "a_ids a" "b_opToChain b"]
        by (auto simp: alter_chains_def keepsA_def alter_node_def split: prod.splits)
    next
      case p: (Inr n)
      let ?n = "fold (\<lambda>c. effect (ChainStarted c)) (b_chains b) n"
      have "keeps n0 (a_ids a) n"
        using p keeps_policies [OF kb, of "congest_policies topo" "a_ids a" "b_opToChain b"] by simp
      then have "keeps n0 (a_ids a) ?n" by (rule keeps_fold_effect [rotated]) (rule keeps_effect)
      note kc = keeps_cube_chains [OF this, of "toCreate topo"]
      show ?thesis using r Some Inr p kc
        by (cases "cube_chains (toCreate topo) ?n")
          (auto simp: alter_chains_def keepsA_def alter_node_def)
    qed
  qed
qed

lemma keepsA_body:
  assumes "taskToStop topo = []" "alter_body newOp configure gone show_edge topo n = Some r"
  shows "keepsA n (alter_node r)"
proof -
  let ?a = "\<lparr>a_ids = [], a_started = [], a_created = [], a_stopped = [], a_node = n\<rparr>"
  have k: "keepsA n (alter_node (alter_tables newOp configure gone topo ?a))"
    by (rule keepsA_tables [OF assms(1)]) (simp add: keepsA_def keeps_refl)
  show ?thesis
  proof (cases "alter_tables newOp configure gone topo ?a")
    case (Inr a)
    then show ?thesis using keepsA_chains [of n a] k assms(2) by (simp add: alter_body_def alter_node_def)
  qed (use k assms(2) in \<open>auto simp: alter_body_def\<close>)
qed

lemma forget_operators:
  "map_find i (n_operators (fold forget_operator is n)) = (if i \<in> set is then None else map_find i (n_operators n))"
  "map_find i (chainSources (fold forget_operator is n)) = (if i \<in> set is then None else map_find i (chainSources n))"
  "map_find i (sourcelessChain (fold forget_operator is n)) = (if i \<in> set is then None else map_find i (sourcelessChain n))"
  by (induction "is" arbitrary: n) (simp_all add: forget_operator_def)

lemma handle_alter_error:
  assumes "handle_alter newOp configure gone show_edge topo (r, n) = Some (Inr (r', n'))" "r_type r' = Some CTL_ERROR"
  obtains err a where "alter_body newOp configure gone show_edge topo n = Some (Inl (Thrown err, a))"
    "n' = fold forget_operator (a_ids a) (a_node a)"
  using assms
  by (auto simp: handle_alter_def split: option.splits sum.splits prod.splits cxx_error.splits)


text \<open>A node with one source operator, and a request whose second operator the loader does not know.\<close>

definition example_op :: "bool \<Rightarrow> OpInfo" where
  "example_op src = \<lparr>oi_mangled = ''9jetstream4Echo'', oi_description = ''Echo'', oi_source = src, oi_chain_end = False, oi_subscriber = False\<rparr>"

definition example_node :: Node where
  "example_node = \<lparr>n_operators = [(OpId 1 1, Some (example_op True))], chainSources = [(OpId 1 1, Some [MOp (OpId 1 1)])],
     sourcelessChain = [], n_cubes = [], n_effects = []\<rparr>"

definition example_loader :: "string \<Rightarrow> OpInfo option" where
  "example_loader t = (if t = ''Echo'' then Some (example_op True) else None)"

definition example_task :: "int \<Rightarrow> string \<Rightarrow> TaskMeta" where
  "example_task k t = \<lparr>task_id_of = \<lparr>tid_computationID = 1, tid_task = k\<rparr>, op_typename = t, config = []\<rparr>"

definition example_alter :: "TaskMeta list \<Rightarrow> Edge list \<Rightarrow> AlterTopo" where
  "example_alter ts eds = \<lparr>alter_computationID = 1, toStart = ts, toCreate = [], taskToStop = [], cubesToStop = [], edges = eds,
     congest_policies = []\<rparr>"

definition no_reply :: ControlReply where
  "no_reply = \<lparr>r_type = None, r_alters = [], r_error = None\<rparr>"

definition example_handle :: "AlterTopo \<Rightarrow> Node \<Rightarrow> (ControlReply \<times> Node) res option" where
  "example_handle topo n = handle_alter example_loader (\<lambda>_ _. Inr []) (\<lambda>_ _. False) (\<lambda>_. []) topo (no_reply, n)"

lemma example_failed:
  "example_handle (example_alter [example_task 2 ''Echo'', example_task 3 ''Nope''] []) example_node =
     Some (Inr (\<lparr>r_type = Some CTL_ERROR,
        r_alters = [\<lparr>r_computation = 1, r_started = [\<lparr>tid_computationID = 1, tid_task = 2\<rparr>], r_created = [], r_stopped = []\<rparr>],
        r_error = Some ''Loader failed to create operator of type Nope''\<rparr>, example_node))"
  by code_simp


section \<open>Building chains ends\<close>

text \<open>The local edges out of an operator, as the walk follows them.\<close>

definition local_step :: "(operator_id_t \<Rightarrow> Edge option) \<Rightarrow> operator_id_t \<Rightarrow> operator_id_t option" where
  "local_step out i = (case out i of None \<Rightarrow> None
     | Some ed \<Rightarrow> if dest_addr ed = None then map_option (OpId (edge_computation ed)) (edge_dest ed) else None)"

lemma walk_next_cases:
  assumes "walk_next lookup cubes ed i = Inr (i', m, he)" "out i = Some ed"
  shows "\<not> is_operator m \<and> i' = i \<or> local_step out i = Some i'"
  using assms by (auto simp: walk_next_def local_step_def is_operator_def Let_def split: if_splits option.splits)

lemma walk_stops: "\<not> is_operator m \<Longrightarrow> walk lookup cubes out i m he acc ids = Some (Inr (acc @ [m], ids @ [i]))"
  by (subst walk.simps) (simp split: option.split)

lemma walk_ends:
  assumes rank: "\<And>i j. local_step out i = Some j \<Longrightarrow> rank j < (rank i :: nat)"
  shows "walk lookup cubes out i m he acc ids \<noteq> None"
proof (induction "rank i" arbitrary: i m he acc ids rule: less_induct)
  case less
  show ?case
  proof (cases "out i")
    case (Some ed)
    show ?thesis
    proof (cases "walk_next lookup cubes ed i")
      case (Inr t)
      obtain i' m' he' where t: "t = (i', m', he')" by (rule prod_cases3)
      consider "\<not> is_operator m'" | "local_step out i = Some i'"
        using walk_next_cases [of lookup cubes ed i i' m' he' out] Inr t Some by blast
      then have "walk lookup cubes out i' m' he' (acc @ [m]) (ids @ [i]) \<noteq> None"
        by cases (simp_all add: walk_stops less.hyps rank)
      then show ?thesis by (subst walk.simps) (simp add: Some Inr t)
    qed (subst walk.simps, simp add: Some)
  qed (subst walk.simps, simp)
qed

text \<open>On a cycle of operators that do not end chains the walk never ends.\<close>

lemma walk_cycle:
  assumes "\<And>i. i \<in> S \<Longrightarrow> \<exists>j p. local_step out i = Some j \<and> j \<in> S \<and> lookup j = Some p \<and> \<not> oi_chain_end p"
    and "i \<in> S" "is_operator m"
  shows "walk lookup cubes out i m False acc ids = None"
proof (cases "walk lookup cubes out i m False acc ids")
  case (Some r)
  let ?P = "\<lambda>lk cb ou i m he acc ids r. lk = lookup \<longrightarrow> ou = out \<longrightarrow> \<not> (i \<in> S \<and> is_operator m \<and> \<not> he)"
  have "?P lookup cubes out i m False acc ids r"
  proof (rule walk.raw_induct [where P = ?P])
    fix walk' lk cb ou i m he acc ids r
    assume IH: "\<And>lk cb ou i m he acc ids r. walk' lk cb ou i m he acc ids = Some r \<Longrightarrow> ?P lk cb ou i m he acc ids r"
      and eq: "(case ou i of None \<Rightarrow> Some (Inr (acc @ [m], ids @ [i]))
        | Some ed \<Rightarrow> if \<not> is_operator m \<or> he then Some (Inr (acc @ [m], ids @ [i]))
            else (case walk_next lk cb ed i of Inl er \<Rightarrow> Some (Inl er)
              | Inr (i', m', he) \<Rightarrow> walk' lk cb ou i' m' he (acc @ [m]) (ids @ [i]))) = Some r"
    show "?P lk cb ou i m he acc ids r"
    proof (intro impI notI)
      assume lk: "lk = lookup" "ou = out" and a: "i \<in> S \<and> is_operator m \<and> \<not> he"
      then obtain j p where j: "local_step out i = Some j" "j \<in> S" "lookup j = Some p" "\<not> oi_chain_end p"
        using assms(1) by blast
      from j(1) obtain ed d where ed: "out i = Some ed" "dest_addr ed = None" "edge_dest ed = Some d"
        "j = OpId (edge_computation ed) d"
        by (auto simp: local_step_def split: option.splits if_splits)
      have "walk_next lookup cb ed i = Inr (j, MOp j, False)" using ed j by (simp add: walk_next_def Let_def)
      then have "walk' lookup cb out j (MOp j) False (acc @ [m]) (ids @ [i]) = Some r" using eq lk a ed(1) by simp
      from IH [OF this] j(2) show False by (simp add: is_operator_def)
    qed
  qed (rule Some)
  then show ?thesis using assms by simp
qed

lemma read_edges_outedge:
  "read_edges show_edge eds (em, n) = Inr (em', n') \<Longrightarrow> map_find i (op_to_outedge em') = Some ed \<Longrightarrow>
     map_find i (op_to_outedge em) = Some ed \<or> ed \<in> set eds \<and> (\<exists>sr. edge_src ed = Some sr \<and> i = OpId (edge_computation ed) sr)"
proof (induction eds arbitrary: em n)
  case (Cons ed' eds)
  show ?case
  proof (cases "edge_src ed'")
    case None
    with Cons show ?thesis by (auto split: option.splits sum.splits)
  next
    case (Some sr)
    with Cons.prems(1) obtain em1 n1 where
      o: "operator_edge (OpId (edge_computation ed') sr) ed' (em, n) = Inr (em1, n1)"
      and r: "read_edges show_edge eds (em1, n1) = Inr (em', n')"
      by (auto split: sum.splits prod.splits)
    have "op_to_outedge em1 = map_set (OpId (edge_computation ed') sr) ed' (op_to_outedge em)"
      using o by (auto simp: operator_edge_def Let_def split: prod.splits option.splits)
    then show ?thesis using Cons.IH [OF r Cons.prems(2)] Some by (auto split: if_splits)
  qed
qed simp

lemma build_chains_ends:
  assumes "\<And>i j. local_step (\<lambda>j. map_find j (op_to_outedge em)) i = Some j \<Longrightarrow> rank j < (rank i :: nat)"
  shows "build_chains em is b \<noteq> None"
proof (induction "is" arbitrary: b)
  case (Cons i "is")
  have w: "walk lk cb (\<lambda>j. map_find j (op_to_outedge em)) i m he acc ids \<noteq> None" for lk cb m he acc ids
    by (rule walk_ends [where rank = rank]) (rule assms)
  have "build_chain em i b \<noteq> None"
    by (auto simp: build_chain_def Let_def w split: option.splits sum.splits simp del: not_None_eq)
  with Cons show ?case by (auto split: option.splits sum.splits)
qed simp

text \<open>
  Property C17: building the chains of a request ends when the local edges between operators of the request
  have no cycle, that is, when some rank decreases along each of them.
\<close>

theorem create_chains_terminates:
  assumes "\<forall>ed \<in> set eds. \<forall>sr d. edge_src ed = Some sr \<and> dest_addr ed = None \<and> edge_dest ed = Some d \<longrightarrow>
      rank (OpId (edge_computation ed) d) < (rank (OpId (edge_computation ed) sr) :: nat)"
  shows "\<exists>r. create_chains show_edge eds is n = Some r"
proof (cases "read_edges show_edge eds (\<lparr>op_to_outedge = [], op_to_pred = []\<rparr>, n)")
  case (Inr s)
  obtain em n1 where s: "s = (em, n1)" by (rule prod.exhaust)
  have "rank j < rank i" if "local_step (\<lambda>j. map_find j (op_to_outedge em)) i = Some j" for i j
    using that assms read_edges_outedge [OF Inr [unfolded s]]
    by (fastforce simp: local_step_def split: option.splits if_splits)
  then have "build_chains em is \<lparr>b_chains = [], b_opToChain = [], b_node = n1\<rparr> \<noteq> None" by (rule build_chains_ends)
  then show ?thesis using Inr s by (simp add: create_chains_def)
qed (simp add: create_chains_def)

definition example_edge :: "int \<Rightarrow> int \<Rightarrow> Edge" where
  "example_edge a b = (empty_edge 1) \<lparr>edge_src := Some a, edge_dest := Some b\<rparr>"

lemma example_edge_sel [simp]:
  "edge_src (example_edge a b) = Some a" "edge_dest (example_edge a b) = Some b" "dest_addr (example_edge a b) = None"
  "edge_computation (example_edge a b) = 1"
  by (simp_all add: example_edge_def empty_edge_def)

theorem create_chains_terminates_witness:
  "\<exists>r. create_chains (\<lambda>_. []) [example_edge 1 2, example_edge 2 3] [OpId 1 1] example_node = Some r"
  by (rule create_chains_terminates [where rank = "\<lambda>i. nat (3 - task_id i)"]) auto

text \<open>
  A request whose edges form a cycle through a source operator is never answered: the two edges of the
  example are accepted and the walk does not come back.
\<close>

definition cyclic_alter :: AlterTopo where
  "cyclic_alter = example_alter [example_task 2 ''Echo'', example_task 3 ''Echo''] [example_edge 2 3, example_edge 3 2]"

definition cycle_edges :: "operator_id_t \<Rightarrow> Edge option" where
  "cycle_edges j = map_find j [(OpId 1 2, example_edge 2 3), (OpId 1 3, example_edge 3 2)]"

definition cycle_table :: "(operator_id_t, OpInfo option) stdmap" where
  "cycle_table = [(OpId 1 1, Some (example_op True)), (OpId 1 2, Some (example_op True)), (OpId 1 3, Some (example_op True))]"

lemma cycle_walk:
  "walk (\<lambda>j. case map_find j cycle_table of Some (Some q) \<Rightarrow> Some q | _ \<Rightarrow> None) cubes cycle_edges (OpId 1 2) (MOp (OpId 1 2)) False [] [] = None"
  by (rule walk_cycle [where S = "{OpId 1 2, OpId 1 3}"])
    (auto simp: local_step_def cycle_edges_def cycle_table_def map_find_Cons is_operator_def example_op_def)

lemma cyclic_tables:
  "alter_tables example_loader (\<lambda>_ _. Inr []) (\<lambda>_ _. False) cyclic_alter
     \<lparr>a_ids = [], a_started = [], a_created = [], a_stopped = [], a_node = example_node\<rparr> =
   Inr \<lparr>a_ids = [OpId 1 2, OpId 1 3], a_started = [\<lparr>tid_computationID = 1, tid_task = 2\<rparr>, \<lparr>tid_computationID = 1, tid_task = 3\<rparr>],
     a_created = [], a_stopped = [], a_node = example_node \<lparr>n_operators := cycle_table\<rparr>\<rparr>"
  by code_simp

lemma cyclic_edges:
  "read_edges show_edge (edges cyclic_alter) (\<lparr>op_to_outedge = [], op_to_pred = []\<rparr>, example_node \<lparr>n_operators := cycle_table\<rparr>) =
   Inr (\<lparr>op_to_outedge = [(OpId 1 2, example_edge 2 3), (OpId 1 3, example_edge 3 2)],
         op_to_pred = [(OpId 1 2, OpId 1 3), (OpId 1 3, OpId 1 2)]\<rparr>, example_node \<lparr>n_operators := cycle_table\<rparr>)"
  by (simp add: cyclic_alter_def example_alter_def operator_edge_def get_operator_def cycle_table_def map_find_Cons
      operator_id_order Let_def)

theorem cyclic_alter_never_done: "example_handle cyclic_alter example_node = None"
proof -
  have "build_chain \<lparr>op_to_outedge = [(OpId 1 2, example_edge 2 3), (OpId 1 3, example_edge 3 2)], op_to_pred = p\<rparr> (OpId 1 2)
      \<lparr>b_chains = [], b_opToChain = [], b_node = example_node \<lparr>n_operators := cycle_table\<rparr>\<rparr> = None" for p
    using cycle_walk [of "\<lambda>c. get_cube c (n_cubes example_node) \<noteq> None", unfolded cycle_edges_def]
    by (simp add: build_chain_def cycle_table_def map_find_Cons example_op_def)
  then have "create_chains sh (edges cyclic_alter) [OpId 1 2, OpId 1 3] (example_node \<lparr>n_operators := cycle_table\<rparr>) = None" for sh
    by (simp add: create_chains_def cyclic_edges)
  then show ?thesis by (simp add: example_handle_def handle_alter_def alter_body_def cyclic_tables alter_chains_def)
qed

section \<open>Stopping a computation\<close>

definition of_comp :: "int \<Rightarrow> (operator_id_t, 'v) stdmap \<Rightarrow> (operator_id_t \<times> 'v) list" where
  "of_comp compID m = filter (\<lambda>(i, _). computation_id i = compID) m"

lemma purgeChains_ok:
  "(\<forall>(i, c) \<in> set m. computation_id i = compID \<longrightarrow> c \<noteq> None) \<Longrightarrow>
     purgeChains compID m (stopped, n) = Inr (stopped @ map (\<lambda>(i, _). task_id i) (of_comp compID m),
       n \<lparr>n_effects := n_effects n @ map (\<lambda>(_, c). ChainStopped (the c)) (of_comp compID m)\<rparr>)"
proof (induction m arbitrary: stopped n)
  case (Cons e m)
  then show ?case by (cases e) (auto simp: of_comp_def effect_def)
qed (simp add: of_comp_def)



section \<open>Null pointers left in the tables\<close>

lemma purgeChains_null:
  "(i, None) \<in> set m \<Longrightarrow> computation_id i = compID \<Longrightarrow> purgeChains compID m s = Inl NullDeref"
  by (induction compID m s rule: purgeChains.induct) (auto split: option.splits)

lemma purgeChains_error: "purgeChains compID m s = Inl er \<Longrightarrow> er = NullDeref"
  by (induction compID m s rule: purgeChains.induct) (auto split: option.splits if_splits)

lemma purgeChains_tables: "purgeChains compID m (st, n) = Inr (st', n') \<Longrightarrow> chainSources n' = chainSources n"
  by (induction compID m "(st, n)" arbitrary: st n rule: purgeChains.induct)
    (auto split: option.splits if_splits simp: effect_def)

lemma stop_computation_null:
  assumes "map_find i (chainSources n) = Some None"
  shows "stop_computation (computation_id i) n = Inl NullDeref"
proof -
  have "(i, None) \<in> set (chainSources n)" using assms by (rule map_find_SomeD)
  then have "purgeChains (computation_id i) (chainSources n) s = Inl NullDeref" for s
    by (rule purgeChains_null) simp
  then show ?thesis using purgeChains_error [of "computation_id i" "sourcelessChain n" "([], n)"]
    by (cases "purgeChains (computation_id i) (sourcelessChain n) ([], n)") (simp_all add: stop_computation_def)
qed

text \<open>
  Property C19: a request to stop a task that has no chain is answered as if it had been stopped, and leaves
  a null pointer in the table of chains; the next message that stops the task's computation follows it.
\<close>

theorem stop_unknown_task_crashes:
  assumes "map_find (unparse_id t) (chainSources n) = None"
  shows "\<exists>r n'. received_ctrl_msg (handle_alter newOp configure gone show_edge)
        \<lparr>ctl_type = CTL_ALTER, ctl_alter = [(example_alter [] []) \<lparr>taskToStop := [t]\<rparr>], ctl_comp_to_stop = 0\<rparr> n = Some (Inr (r, n'))
      \<and> r_type r = Some CTL_ALTER_RESPONSE \<and> r_stopped (last (r_alters r)) = [t]
      \<and> received_ctrl_msg (handle_alter newOp configure gone show_edge)
        \<lparr>ctl_type = CTL_STOP_COMPUTATION, ctl_alter = [], ctl_comp_to_stop = tid_computationID t\<rparr> n' = Some (Inl NullDeref)"
proof -
  let ?n = "n \<lparr>chainSources := map_set (unparse_id t) None (chainSources n)\<rparr>"
  have "stop_computation (computation_id (unparse_id t)) ?n = Inl NullDeref"
    by (rule stop_computation_null) simp
  then have "stop_computation (tid_computationID t) ?n = Inl NullDeref" by (simp add: unparse_id_def)
  then show ?thesis using assms
    by (simp add: received_ctrl_msg_def handle_alter_def alter_body_def alter_tables_def example_alter_def stop_task_def
        alter_chains_def create_chains_def establish_congest_policies_def reply_of_def Let_def)
qed

theorem stop_unknown_task_crashes_witness:
  "\<exists>r n'. received_ctrl_msg (handle_alter example_loader (\<lambda>_ _. Inr []) (\<lambda>_ _. False) (\<lambda>_. []))
        \<lparr>ctl_type = CTL_ALTER, ctl_alter = [(example_alter [] []) \<lparr>taskToStop := [\<lparr>tid_computationID = 1, tid_task = 9\<rparr>]\<rparr>],
          ctl_comp_to_stop = 0\<rparr> example_node = Some (Inr (r, n'))
      \<and> received_ctrl_msg (handle_alter example_loader (\<lambda>_ _. Inr []) (\<lambda>_ _. False) (\<lambda>_. []))
        \<lparr>ctl_type = CTL_STOP_COMPUTATION, ctl_alter = [], ctl_comp_to_stop = 1\<rparr> n' = Some (Inl NullDeref)"
  using stop_unknown_task_crashes [of "\<lparr>tid_computationID = 1, tid_task = 9\<rparr>" example_node example_loader
      "\<lambda>_ _. Inr []" "\<lambda>_ _. False" "\<lambda>_. []"]
  by (auto simp: example_node_def unparse_id_def map_find_Cons)

text \<open>
  Two further consequences on concrete requests: an edge from an unknown operator is refused, but the look-up has
  entered a null pointer, and the request that then starts this operator ends the process; and in a message with
  two requests the type of the response is that of the last one, whatever happened to the first.
\<close>

theorem refused_edge_then_crash:
  "(case example_handle (example_alter [] [example_edge 7 1]) example_node of
      Some (Inr (r, n)) \<Rightarrow> r_type r = Some CTL_ERROR \<and> example_handle (example_alter [example_task 7 ''Echo''] []) n = Some (Inl NullDeref)
    | _ \<Rightarrow> False)"
  by code_simp

theorem first_error_masked:
  "(case received_ctrl_msg (handle_alter example_loader (\<lambda>_ _. Inr []) (\<lambda>_ _. False) (\<lambda>_. []))
        \<lparr>ctl_type = CTL_ALTER, ctl_alter = [example_alter [example_task 3 ''Nope''] [], example_alter [] []], ctl_comp_to_stop = 0\<rparr> example_node of
      Some (Inr (r, n)) \<Rightarrow> r_type r = Some CTL_ALTER_RESPONSE \<and> r_error r = Some ''Loader failed to create operator of type Nope''
    | _ \<Rightarrow> False)"
  by code_simp

end
