(* ===== verification/JS_Sources.thy ===== *)
theory JS_Sources
  imports JS_Operators JS_Map
begin

text \<open>
  Sources and sinks of the experiments: the adaptive video source (\<^verbatim>\<open>dataplane/awstream_operators\<close>), the
  senders, the receiver and the queue of fixed rate (\<^verbatim>\<open>dataplane/experiment_operators\<close>), the
  reader of files and the ratio operator (\<^verbatim>\<open>dataplane/sosp_operators\<close>).  The contents of files and
  the bytes of memory that was not written are arguments, and so is \<^verbatim>\<open>atof\<close>.  A message that was
  not given a type reads as one of the first type.
\<close>

section \<open>Reading a table\<close>

text \<open>The rows of a file are its lines; text after the last line break is one when there is any.\<close>

definition file_rows :: "string \<Rightarrow> string list" where
  "file_rows s = (let ls = split_on newline s in if last ls = [] then butlast ls else ls)"

text \<open>
  The cells of a row: \<^verbatim>\<open>getline\<close> at commas, and one more empty cell when the last read failed at once.
\<close>

fun getline_cells :: "string \<Rightarrow> string \<Rightarrow> string list" where
  "getline_cells cell [] = (if cell = [] then [[]] else [cell])"
| "getline_cells cell (c # cs) = (if c = CHR '','' then cell # getline_cells [] cs else getline_cells (cell @ [c]) cs)"

definition readNextRow :: "string \<Rightarrow> string list" where
  "readNextRow line = getline_cells [] line"

text \<open>\<^verbatim>\<open>atoi\<close> reads no digits as zero; a value that does not fit has no defined result.\<close>

definition atoi :: "string \<Rightarrow> int res" where
  "atoi s = (case stream_integer s of None \<Rightarrow> Inr 0 | Some (i, _) \<Rightarrow> checkE (in_int i) IntOverflow (Inr i))"

definition cell :: "string list \<Rightarrow> nat \<Rightarrow> int res" where
  "cell row k = bindE (nthE row k) atoi"

section \<open>VideoSource\<close>

record VideoConfig =
  vc_width :: u64
  vc_skip :: u64
  vc_quant :: u64

type_synonym frame_sizes = "(VideoConfig \<times> u64) list"

record 'm VideoSource =
  v_id :: operator_id_t
  v_policy :: "'m CongestionPolicy option"
  v_level :: u64
  v_levels :: "double list"
  v_profile :: "VideoConfig list"
  v_frame :: u64
  v_total :: u64
  v_source :: "frame_sizes list"

definition skip_to_wait_time_in_ms :: "int \<Rightarrow> int" where
  "skip_to_wait_time_in_ms skip = 33"

definition video_config :: "string list \<Rightarrow> nat \<Rightarrow> VideoConfig res" where
  "video_config row k = bindE (cell row k) (\<lambda>w. bindE (cell row (k + 1)) (\<lambda>s. bindE (cell row (k + 2)) (\<lambda>q.
     Inr \<lparr>vc_width = word_of_int w, vc_skip = word_of_int s, vc_quant = word_of_int q\<rparr>)))"

definition profile_row :: "(string \<Rightarrow> double) \<Rightarrow> string \<Rightarrow> 'm VideoSource \<Rightarrow> 'm VideoSource res" where
  "profile_row atof line v = (let row = readNextRow line in
     bindE (nthE row 0) (\<lambda>bw. bindE (video_config row 1) (\<lambda>vc.
     Inr (v \<lparr>v_profile := v_profile v @ [vc], v_levels := v_levels v @ [atof bw]\<rparr>))))"

text \<open>\<^verbatim>\<open>insert\<close> on a std::map keeps an entry that is there; frames are numbered from one.\<close>

definition frame_insert :: "VideoConfig \<Rightarrow> u64 \<Rightarrow> frame_sizes \<Rightarrow> frame_sizes" where
  "frame_insert vc b m = (if map_of m vc = None then m @ [(vc, b)] else m)"

definition source_row :: "string \<Rightarrow> 'm VideoSource \<Rightarrow> 'm VideoSource res" where
  "source_row line v = (let row = readNextRow line in
     bindE (video_config row 0) (\<lambda>vc. bindE (cell row 3) (\<lambda>i. bindE (cell row 4) (\<lambda>b.
       checkE (in_int (i - 1)) IntOverflow (checkE (1 \<le> i) OutOfBounds
         (bindE (nthE (v_source v) (nat (i - 1))) (\<lambda>m.
          bindE (updE (v_source v) (nat (i - 1)) (frame_insert vc (ucast (word_of_int b :: u32)) m)) (\<lambda>src.
          Inr (v \<lparr>v_source := src\<rparr>)))))))))"

definition rows_of :: "(string \<Rightarrow> string option) \<Rightarrow> string \<Rightarrow> string list" where
  "rows_of files f = (case files f of None \<Rightarrow> [] | Some s \<Rightarrow> file_rows s)"

definition video_configure ::
  "(string \<Rightarrow> double) \<Rightarrow> (string \<Rightarrow> string option) \<Rightarrow> op_config \<Rightarrow> 'm VideoSource \<Rightarrow> 'm VideoSource res" where
  "video_configure atof files cfg v =
     bindE (foldE (profile_row atof) (rows_of files (cfg_get cfg ''profile'')) v) (\<lambda>v1.
     bindE (atoi (cfg_get cfg ''total_frame'')) (\<lambda>total.
     if total < 0 then Inl (Thrown ''std::bad_alloc'')
     else (let v2 = v1 \<lparr>v_level := of_nat (length (v_levels v1)) - 1, v_total := word_of_int total,
                 v_source := v_source v1 @ replicate (nat total) []\<rparr> in
       bindE (foldE source_row (rows_of files (cfg_get cfg ''source'')) v2) (\<lambda>v3.
       Inr (v3 \<lparr>v_frame := 0\<rparr>)))))"

definition adapt_level ::
  "msec_t \<Rightarrow> ('m \<Rightarrow> msec_t) \<Rightarrow> ('m \<Rightarrow> (double \<times> 'm) res) \<Rightarrow> 'm option option \<Rightarrow> 'm VideoSource \<Rightarrow> 'm VideoSource res" where
  "adapt_level now mtime cap chain_mon v = (case v_policy v of None \<Rightarrow> Inr v
     | Some pol \<Rightarrow> bindE (get_step now mtime cap chain_mon (v_id v) (v_levels v) (of_nat (length (v_levels v))) (ucast (v_level v)) pol)
         (\<lambda>(delta, pol'). Inr (v \<lparr>v_policy := Some pol', v_level := v_level v + word_of_int delta\<rparr>)))"

definition frame_tuple :: "u64 \<Rightarrow> u8 list \<Rightarrow> Tuple" where
  "frame_tuple k bs = (let t = extend_tuple_string empty_tuple [] in
     add_e (t \<lparr>e := [hd (e t) \<lparr>i_val := Some (to_int32 (uint k))\<rparr>]\<rparr>) (empty_element \<lparr>blob := Some bs\<rparr>))"

definition window_msg :: "int \<Rightarrow> DataplaneMessage" where
  "window_msg ms = (mk_msg END_OF_WINDOW) \<lparr>window_length_ms := Some ms\<rparr>"

text \<open>
  One frame: the delay to the next one, what goes into the chain, and the source.  The blob is fresh memory
  that nobody wrote, \<^verbatim>\<open>junk len\<close>.
\<close>

definition video_emit ::
  "msec_t \<Rightarrow> ('m \<Rightarrow> msec_t) \<Rightarrow> ('m \<Rightarrow> (double \<times> 'm) res) \<Rightarrow> 'm option option \<Rightarrow> (nat \<Rightarrow> u8 list) \<Rightarrow> 'm VideoSource \<Rightarrow>
   (int \<times> Tuple list \<times> DataplaneMessage \<times> 'm VideoSource) res" where
  "video_emit now mtime cap chain_mon junk v =
     bindE (adapt_level now mtime cap chain_mon v) (\<lambda>v1.
     bindE (nthE (v_profile v1) (unat (v_level v1))) (\<lambda>vc.
     bindE (nthE (v_source v1) (unat (v_frame v1))) (\<lambda>m.
     case map_of m vc of None \<Rightarrow> Inl LogFatal
     | Some b \<Rightarrow>
         (let len = to_int32 (uint b); wait = skip_to_wait_time_in_ms (to_int32 (uint (vc_skip vc))); k = v_frame v1 + 1 in
          if len < 0 then Inl (Thrown ''std::bad_alloc'')
          else Inr (wait, [frame_tuple (v_frame v1) (junk (nat len))], window_msg wait,
            v1 \<lparr>v_frame := (if v_total v1 \<le> k then 0 else k)\<rparr>)))))"

section \<open>Senders and receivers\<close>

record SendK =
  sk_k :: u64
  sk_n :: u64

definition send_k_configure :: "op_config \<Rightarrow> SendK \<Rightarrow> operator_err_t \<times> SendK" where
  "send_k_configure cfg s = (let k = cfg_get cfg ''k'' in
     if k = [] then ([], s \<lparr>sk_k := 1, sk_n := 0\<rparr>)
     else case stream_u64 k of None \<Rightarrow> (''Invalid number of tuples: '' @ [CHR 0x27] @ k @ [CHR 0x27] @ '' is not a number.'', s)
       | Some v \<Rightarrow> ([], s \<lparr>sk_k := v, sk_n := 0\<rparr>))"

definition foo_tuple :: "u64 \<Rightarrow> Tuple" where
  "foo_tuple n = (add_e empty_tuple (string_element ''foo'')) \<lparr>version := Some n\<rparr>"

definition send_k_emit :: "SendK \<Rightarrow> int \<times> Tuple \<times> SendK" where
  "send_k_emit s = (let n' = sk_n s + 1 in (if n' < sk_k s then 0 else - 1, foo_tuple (sk_n s), s \<lparr>sk_n := n'\<rparr>))"

record ContinuousSendK =
  cs_sent :: int
  cs_k :: u64
  cs_period :: msec_t

definition continuous_configure :: "op_config \<Rightarrow> ContinuousSendK \<Rightarrow> operator_err_t \<times> ContinuousSendK" where
  "continuous_configure cfg s =
     (let k = cfg_get cfg ''k''; p = cfg_get cfg ''period'';
          period = (\<lambda>s. if p = [] then ([], s \<lparr>cs_period := 1000\<rparr>)
            else case stream_u64 p of
              None \<Rightarrow> (''Invalid send period (msecs) '' @ [CHR 0x27] @ p @ [CHR 0x27] @ '' is not a number.'', s)
            | Some v \<Rightarrow> ([], s \<lparr>cs_period := v\<rparr>)) in
      if k = [] then period (s \<lparr>cs_k := 1\<rparr>)
      else case stream_u64 k of None \<Rightarrow> (''Invalid number of tuples: '' @ [CHR 0x27] @ k @ [CHR 0x27] @ '' is not a number.'', s)
        | Some v \<Rightarrow> period (s \<lparr>cs_k := v\<rparr>))"

definition continuous_emit :: "ContinuousSendK \<Rightarrow> (int \<times> Tuple \<times> ContinuousSendK) res" where
  "continuous_emit s = checkE (in_int (cs_sent s + 1)) IntOverflow
     (Inr (to_int32 (uint (cs_period s)), foo_tuple (word_of_int (cs_sent s)), s \<lparr>cs_sent := cs_sent s + 1\<rparr>))"

record DummyReceiver =
  dr_tuples :: "Tuple option list"
  dr_store :: bool

definition dummy_configure :: "op_config \<Rightarrow> DummyReceiver \<Rightarrow> DummyReceiver" where
  "dummy_configure cfg r = (if cfg_get cfg ''no_store'' \<noteq> [] then r \<lparr>dr_store := False\<rparr> else r)"

definition dummy_process :: "Tuple option list \<Rightarrow> DummyReceiver \<Rightarrow> DummyReceiver" where
  "dummy_process in_t r = (if dr_store r then r \<lparr>dr_tuples := dr_tuples r @ in_t\<rparr> else r)"

section \<open>FixedRateQueue\<close>

datatype mon_report = ReportInsert | ReportDelete | EndOfWindow int

datatype rate_mon = QueueMon int | WindowMon

record FixedRateQueue =
  fq_ms :: int
  fq_queue :: "DataplaneMessage list"
  fq_mon :: rate_mon
  fq_reports :: "mon_report list"

definition no_type_msg :: DataplaneMessage where
  "no_type_msg = mk_msg DP_ERROR"

definition rate_configure :: "operator_id_t \<Rightarrow> op_config \<Rightarrow> FixedRateQueue \<Rightarrow> operator_err_t \<times> FixedRateQueue" where
  "rate_configure i cfg f =
     (let w = cfg_get cfg ''ms_wait''; l = cfg_get cfg ''queue_length'' in
      if w = [] then (operator_id_to_string i @ '': Must set parameter ms_wait'', f)
      else case stream_int w of None \<Rightarrow> (''Invalid time_wait per dequeue: '' @ [CHR 0x27] @ w @ [CHR 0x27] @ '' is not a number.'', f)
      | Some ms \<Rightarrow> (let f1 = f \<lparr>fq_ms := ms\<rparr> in
          if cfg_get cfg ''mon_type'' \<noteq> ''queue'' then ([], f1 \<lparr>fq_mon := WindowMon\<rparr>)
          else if l = [] then (operator_id_to_string i @ '': Must set parameter queue_length'', f1)
          else case stream_int l of None \<Rightarrow> (''Invalid  queue length: '' @ [CHR 0x27] @ l @ [CHR 0x27] @ '' is not a number.'', f1)
            | Some n \<Rightarrow> ([], f1 \<lparr>fq_mon := QueueMon n\<rparr>)))"

fun rate_enqueue :: "Tuple option list \<Rightarrow> FixedRateQueue \<Rightarrow> FixedRateQueue" where
  "rate_enqueue [] f = f"
| "rate_enqueue (None # ts) f = rate_enqueue ts f"
| "rate_enqueue (Some t # ts) f = rate_enqueue ts (f \<lparr>fq_reports := fq_reports f @ [ReportInsert],
     fq_queue := fq_queue f @ [no_type_msg \<lparr>data := [t]\<rparr>]\<rparr>)"

definition rate_process :: "Tuple option list \<Rightarrow> DataplaneMessage \<Rightarrow> FixedRateQueue \<Rightarrow> FixedRateQueue" where
  "rate_process ts marker f = (let f1 = rate_enqueue ts f in f1 \<lparr>fq_queue := fq_queue f1 @ [marker]\<rparr>)"

definition rate_emit :: "FixedRateQueue \<Rightarrow> (int \<times> (Tuple list \<times> DataplaneMessage) option \<times> FixedRateQueue) res" where
  "rate_emit f = (case fq_queue f of [] \<Rightarrow> Inr (fq_ms f, None, f)
     | m # q \<Rightarrow> (let f1 = f \<lparr>fq_queue := q\<rparr> in
         case data m of
           [] \<Rightarrow> Inr (fq_ms f, Some ([], m), if dp_type m = END_OF_WINDOW
               then f1 \<lparr>fq_reports := fq_reports f1 @ [EndOfWindow (case window_length_ms m of None \<Rightarrow> 0 | Some w \<Rightarrow> w)]\<rparr> else f1)
         | [t] \<Rightarrow> Inr (fq_ms f, Some ([t], no_type_msg), f1 \<lparr>fq_reports := fq_reports f1 @ [ReportDelete]\<rparr>)
         | _ \<Rightarrow> Inl LogFatal))"

section \<open>BlobReader\<close>

definition MAX_READ_SIZE :: nat where "MAX_READ_SIZE = 10485760"

record BlobReader =
  br_paths :: "string list"
  br_cur :: u32
  br_per_window :: u32
  br_ms :: u32
  br_count :: u32

text \<open>\<^verbatim>\<open>fs\<close> gives the contents of a regular file.\<close>

definition blob_file :: "(string \<Rightarrow> u8 list option) \<Rightarrow> string \<Rightarrow> u32 \<Rightarrow> Tuple list \<times> u32" where
  "blob_file fs p n = (case fs p of None \<Rightarrow> ([], n)
     | Some bs \<Rightarrow> if length bs < MAX_READ_SIZE
         then (let t = extend_tuple_string empty_tuple p in
           ([add_e (t \<lparr>e := [hd (e t) \<lparr>i_val := Some (to_int32 (uint n))\<rparr>]\<rparr>) (empty_element \<lparr>blob := Some bs\<rparr>)], n + 1))
         else ([], n))"

fun blob_loop :: "nat \<Rightarrow> (string \<Rightarrow> u8 list option) \<Rightarrow> BlobReader \<Rightarrow> Tuple list \<Rightarrow> (Tuple list \<times> BlobReader) res" where
  "blob_loop 0 fs b buf = Inr (buf, b)"
| "blob_loop (Suc k) fs b buf = bindE (nthE (br_paths b) (unat (br_cur b))) (\<lambda>p.
     let (ts, n) = blob_file fs p (br_count b); c = br_cur b + 1 in
     blob_loop k fs (b \<lparr>br_count := n, br_cur := (if length (br_paths b) \<le> unat c then 0 else c)\<rparr>) (buf @ ts))"

definition blob_emit :: "(string \<Rightarrow> u8 list option) \<Rightarrow> BlobReader \<Rightarrow> (int \<times> Tuple list \<times> DataplaneMessage \<times> BlobReader) res" where
  "blob_emit fs b = bindE (blob_loop (unat (br_per_window b)) fs b []) (\<lambda>(buf, b').
     Inr (to_int32 (uint (br_ms b)), buf, window_msg (to_int32 (uint (br_ms b))), b'))"

text \<open>\<^verbatim>\<open>ls\<close> lists the entries of a directory, each with its file name and whether it is a regular file.\<close>

definition blob_configure ::
  "(string \<Rightarrow> bool) \<Rightarrow> (string \<Rightarrow> (string \<times> string \<times> bool) list option) \<Rightarrow> op_config \<Rightarrow> BlobReader \<Rightarrow> operator_err_t \<times> BlobReader" where
  "blob_configure exists ls cfg b = (case cfg ''dirname'' of
     None \<Rightarrow> (''must specify a string as dirname; got  instead'', b)
   | Some d \<Rightarrow>
       if \<not> exists d then (''No such directory '' @ d, b)
       else (case ls d of None \<Rightarrow> (d @ '' is not a directory'', b)
       | Some fs \<Rightarrow>
         (let found = map fst (filter (\<lambda>(_, nm, reg). reg \<and> take (length (cfg_get cfg ''prefix'')) nm = cfg_get cfg ''prefix'') fs);
              b1 = b \<lparr>br_paths := sort (br_paths b @ found)\<rparr>; per = cfg_get cfg ''files_per_window'' in
          if br_paths b1 = [] then ([CHR ''C'', CHR ''a'', CHR ''n'', CHR 0x27, CHR ''t''] @ '' scan an empty directory'', b1)
          else case stream_u32 per of None \<Rightarrow> (''must specify an int as files_per_window; got '' @ per @ '' instead'', b1)
          | Some n \<Rightarrow> (let b2 = b1 \<lparr>br_per_window := n, br_ms := 1000\<rparr> in
              case cfg ''ms_per_window'' of None \<Rightarrow> ([], b2)
              | Some w \<Rightarrow> (case stream_u32 w of None \<Rightarrow> (''must specify an int as ms_per_window; got '' @ w @ '' instead'', b2)
                  | Some ms \<Rightarrow> ([], b2 \<lparr>br_ms := ms\<rparr>))))))"

section \<open>SeqToRatio\<close>

record SeqToRatio =
  sr_total_field :: u32
  sr_total :: double
  sr_respcode_field :: u32
  sr_url_field :: u32
  sr_url :: string
  sr_target :: "Tuple option"

definition ratio_configure :: "op_config \<Rightarrow> SeqToRatio \<Rightarrow> operator_err_t \<times> SeqToRatio" where
  "ratio_configure cfg s =
     (let bad = (\<lambda>k. ''must specify an int as '' @ k @ ''; got '' @ cfg_get cfg k @ '' instead'') in
      case stream_u32 (cfg_get cfg ''total_field'') of None \<Rightarrow> (bad ''total_field'', s)
      | Some t \<Rightarrow> (let s1 = s \<lparr>sr_total_field := t\<rparr> in
          case stream_u32 (cfg_get cfg ''respcode_field'') of None \<Rightarrow> (bad ''respcode_field'', s1)
          | Some r \<Rightarrow> (let s2 = s1 \<lparr>sr_respcode_field := r\<rparr> in
              case stream_u32 (cfg_get cfg ''url_field'') of None \<Rightarrow> (bad ''url_field'', s2)
              | Some u \<Rightarrow> ([], s2 \<lparr>sr_url_field := u\<rparr>))))"

text \<open>The tuple and the remembered one may be the same object: after a change of URL they are.\<close>

definition ratio_tail :: "bool \<Rightarrow> Tuple \<Rightarrow> SeqToRatio \<Rightarrow> (SeqToRatio \<times> Tuple option) res" where
  "ratio_tail emitted t s = bindE (numeric t (unat (sr_total_field s))) (\<lambda>x.
     bindE (nthE (e t) (unat (sr_respcode_field s))) (\<lambda>rc.
     let s1 = s \<lparr>sr_total := dadd (sr_total s) x\<rparr>;
         s2 = (if get_i_val rc = 200 \<or> sr_target s1 = None then s1 \<lparr>sr_target := Some t\<rparr> else s1)
     in Inr (s2, if emitted then Some t else None)))"

definition ratio_process_one :: "SeqToRatio \<Rightarrow> Tuple \<Rightarrow> (SeqToRatio \<times> Tuple option) res" where
  "ratio_process_one s t = bindE (nthE (e t) (unat (sr_url_field s))) (\<lambda>u.
     if sr_url s = [] then ratio_tail False t (s \<lparr>sr_url := get_s_val u\<rparr>)
     else if sr_url s \<noteq> get_s_val u then
       (case sr_target s of
          Some g \<Rightarrow> bindE (numeric g (unat (sr_total_field s))) (\<lambda>x.
            let g' = add_e g (double_element (ddiv x (sr_total s))) in
            ratio_tail True g' (s \<lparr>sr_target := Some g', sr_url := [], sr_total := Fin 0\<rparr>))
        | None \<Rightarrow> ratio_tail False t (s \<lparr>sr_url := [], sr_total := Fin 0\<rparr>))
     else ratio_tail False t s)"

section \<open>The video source stays inside its tables\<close>

text \<open>
  Every video configuration of the profile has a size in every frame, and the size fits in an \<^verbatim>\<open>int\<close>.
\<close>

definition covered :: "'m VideoSource \<Rightarrow> bool" where
  "covered v \<longleftrightarrow> list_all (\<lambda>m. list_all (\<lambda>vc. case map_of m vc of None \<Rightarrow> False | Some b \<Rightarrow> b < 2147483648) (v_profile v)) (v_source v)"

definition video_ok :: "'m VideoSource \<Rightarrow> bool" where
  "video_ok v \<longleftrightarrow> covered v \<and> length (v_profile v) = length (v_levels v) \<and> length (v_levels v) \<le> 1073741824
     \<and> unat (v_level v) < length (v_levels v) \<and> length (v_source v) = unat (v_total v) \<and> v_frame v < v_total v"

lemma covered_size:
  assumes "covered v" "k < length (v_source v)" "i < length (v_profile v)"
  obtains b where "map_of (v_source v ! k) (v_profile v ! i) = Some b" "b < 2147483648"
  using assms that by (auto simp: covered_def list_all_length split: option.splits)

lemma small_size: "b < (2147483648 :: u64) \<Longrightarrow> to_int32 (uint b) = uint b \<and> 0 \<le> uint b \<and> nat (uint b) = unat b"
proof -
  assume "b < 2147483648"
  then have "uint b < 2147483648" by (simp add: word_less_def)
  moreover have "0 \<le> uint b" by simp
  ultimately have "in_int (uint b)" unfolding in_int_def INT_MIN_def INT_MAX_def by linarith
  then show ?thesis by (simp add: to_int32_id)
qed

lemma adapt_level_ok:
  assumes "video_ok v"
    and "\<And>pol. v_policy v = Some pol \<Longrightarrow>
       is_ok (get_step now mtime cap chain_mon (v_id v) (v_levels v) (of_nat (length (v_levels v))) (ucast (v_level v)) pol)"
  shows "\<exists>v1. adapt_level now mtime cap chain_mon v = Inr v1 \<and> video_ok v1 \<and> v_frame v1 = v_frame v \<and> v_total v1 = v_total v
     \<and> v_source v1 = v_source v \<and> v_profile v1 = v_profile v \<and> v_levels v1 = v_levels v"
proof (cases "v_policy v")
  case (Some pol)
  let ?n = "length (v_levels v)" and ?c = "ucast (v_level v) :: u32"
  obtain delta pol' where g: "get_step now mtime cap chain_mon (v_id v) (v_levels v) (of_nat ?n) ?c pol = Inr (delta, pol')"
    using assms(2) [OF Some] by (auto simp: is_ok_iff)
  have n: "unat (of_nat ?n :: u32) = ?n" using assms(1) by (intro unat_of_nat32) (simp add: video_ok_def)
  have l: "unat (v_level v) < ?n" "?n \<le> 1073741824" using assms(1) by (simp_all add: video_ok_def)
  then have "unat (v_level v) < 4294967296" by simp
  then have c: "unat ?c = unat (v_level v)" by (simp add: unsigned_ucast_eq take_bit_nat_eq_self)
  have cu: "uint ?c = uint (v_level v)" using c by (metis uint_nat)
  have r: "0 \<le> uint (v_level v) + delta" "uint (v_level v) + delta < int ?n"
    using get_step_range [OF g] l n c cu by (auto simp: word_less_nat_alt)
  have "uint (v_level v + word_of_int delta) = (uint (v_level v) + delta) mod 2 ^ 64"
    by (simp add: uint_word_ariths uint_word_of_int mod_simps)
  also have "\<dots> = uint (v_level v) + delta" using r l by (intro mod_pos_pos_trivial) auto
  finally have "unat (v_level v + word_of_int delta) < ?n"
    using r by (metis nat_less_iff uint_0_iff unat_eq_nat_uint uint_ge_0)
  then show ?thesis using assms(1) Some g by (auto simp: adapt_level_def video_ok_def covered_def)
qed (use assms in \<open>simp add: adapt_level_def\<close>)


text \<open>What \<^verbatim>\<open>configure\<close> leaves behind is such a source, when the trace covers the profile.\<close>

lemma profile_rows_shape:
  "foldE (profile_row atof) ls v = Inr v' \<Longrightarrow>
     length (v_profile v') + length (v_levels v) = length (v_levels v') + length (v_profile v) \<and> v_source v' = v_source v"
proof (induction ls arbitrary: v)
  case (Cons l ls)
  then obtain v1 where v1: "profile_row atof l v = Inr v1" "foldE (profile_row atof) ls v1 = Inr v'"
    by (auto simp: res_simps)
  then show ?case using Cons.IH [OF v1(2)] by (auto simp: profile_row_def Let_def res_simps)
qed simp

lemma source_rows_shape:
  "foldE source_row ls v = Inr v' \<Longrightarrow> length (v_source v') = length (v_source v) \<and> v_profile v' = v_profile v
     \<and> v_levels v' = v_levels v \<and> v_level v' = v_level v \<and> v_total v' = v_total v"
proof (induction ls arbitrary: v)
  case (Cons l ls)
  then obtain v1 where v1: "source_row l v = Inr v1" "foldE source_row ls v1 = Inr v'" by (auto simp: res_simps)
  then show ?case using Cons.IH [OF v1(2)] by (auto simp: source_row_def Let_def res_simps)
qed simp

definition new_VideoSource :: "operator_id_t \<Rightarrow> 'm VideoSource" where
  "new_VideoSource i = \<lparr>v_id = i, v_policy = None, v_level = 0, v_levels = [], v_profile = [], v_frame = 0, v_total = 0, v_source = []\<rparr>"

lemma atoi_range: "atoi s = Inr i \<Longrightarrow> in_int i"
  by (auto simp: atoi_def res_simps in_int_def INT_MIN_def INT_MAX_def split: option.splits prod.splits)

lemma video_configure_ok:
  assumes "video_configure atof files cfg (new_VideoSource i) = Inr v" and "covered v" and "v_levels v \<noteq> []"
    and "length (v_levels v) \<le> 1073741824" and "v_total v \<noteq> 0"
  shows "video_ok v"
proof -
  obtain v1 total v3 where r: "foldE (profile_row atof) (rows_of files (cfg_get cfg ''profile'')) (new_VideoSource i) = Inr v1"
    and t: "atoi (cfg_get cfg ''total_frame'') = Inr total" "0 \<le> total"
    and s: "foldE source_row (rows_of files (cfg_get cfg ''source'')) (v1 \<lparr>v_level := of_nat (length (v_levels v1)) - 1,
        v_total := word_of_int total, v_source := v_source v1 @ replicate (nat total) []\<rparr>) = Inr v3"
    and v: "v = v3 \<lparr>v_frame := 0\<rparr>"
    using assms(1) by (auto simp: video_configure_def Let_def res_simps split: if_splits)
  note p = profile_rows_shape [OF r, unfolded new_VideoSource_def, simplified] and q = source_rows_shape [OF s, simplified]
  have "total < 18446744073709551616" using atoi_range [OF t(1)] by (simp add: in_int_def INT_MAX_def)
  then have ut: "unat (word_of_int total :: u64) = nat total"
    using t(2) unat_of_nat64 [of "nat total"] by (simp add: nat_less_iff)
  let ?n = "length (v_levels v)"
  have "?n \<noteq> 0" using assms(3) by simp
  then have "(of_nat ?n - 1 :: u64) = of_nat (?n - 1)" by (simp add: of_nat_diff Suc_le_eq)
  then have lv: "unat (of_nat ?n - 1 :: u64) = ?n - 1" using assms(4) unat_of_nat64 [of "?n - 1"] by simp
  show ?thesis
    using assms p q ut lv \<open>?n \<noteq> 0\<close> by (simp add: v video_ok_def word_gt_0)
qed

definition example_files :: "string \<Rightarrow> string option" where
  "example_files f = (if f = ''p'' then Some (''10,640,0,20,1'' @ [newline] @ ''20,1280,0,20,1'' @ [newline])
     else if f = ''s'' then Some (''640,0,20,1,3'' @ [newline] @ ''1280,0,20,1,5'') else None)"

definition example_video :: "unit VideoSource" where
  "example_video = \<lparr>v_id = OpId 1 1, v_policy = None, v_level = 1, v_levels = [Fin 0, Fin 0],
     v_profile = [\<lparr>vc_width = 640, vc_skip = 0, vc_quant = 20\<rparr>, \<lparr>vc_width = 1280, vc_skip = 0, vc_quant = 20\<rparr>],
     v_frame = 0, v_total = 1, v_source = [[(\<lparr>vc_width = 640, vc_skip = 0, vc_quant = 20\<rparr>, 3), (\<lparr>vc_width = 1280, vc_skip = 0, vc_quant = 20\<rparr>, 5)]]\<rparr>"

lemma example_video_configured:
  "video_configure (\<lambda>_. Fin 0) example_files [''profile'' \<mapsto> ''p'', ''source'' \<mapsto> ''s'', ''total_frame'' \<mapsto> ''1''] (new_VideoSource (OpId 1 1))
     = Inr example_video"
  by code_simp

lemma example_video_ok: "video_ok example_video"
  by (rule video_configure_ok [OF example_video_configured]) (simp_all add: example_video_def covered_def)

lemma example_video_policy: "v_policy example_video = None"
  by (simp add: example_video_def)


section \<open>The other sources\<close>

text \<open>Calls of \<^verbatim>\<open>emit_data\<close> until one asks to stop; no result when the bound on the calls is reached.\<close>

fun send_run :: "nat \<Rightarrow> SendK \<Rightarrow> Tuple list option" where
  "send_run 0 s = None"
| "send_run (Suc f) s = (case send_k_emit s of (d, t, s') \<Rightarrow> if d < 0 then Some [t] else map_option (Cons t) (send_run f s'))"

lemma send_run_from:
  "unat (sk_n s) + Suc m = unat (sk_k s) \<Longrightarrow> send_run (Suc m) s = Some (map (\<lambda>j. foo_tuple (of_nat j)) [unat (sk_n s)..<unat (sk_k s)])"
proof (induction m arbitrary: s)
  case 0
  have "unat (sk_n s + 1) = Suc (unat (sk_n s))"
    using 0 word_bounds(2) [of "sk_k s"] by (subst unat_add_noov64) simp_all
  then show ?case using 0 by (simp add: send_k_emit_def Let_def word_less_nat_alt upt_rec [of "unat (sk_n s)"])
next
  case (Suc m)
  have n: "unat (sk_n s + 1) = Suc (unat (sk_n s))"
    using Suc.prems word_bounds(2) [of "sk_k s"] by (subst unat_add_noov64) simp_all
  let ?s = "s \<lparr>sk_n := sk_n s + 1\<rparr>"
  have e: "send_k_emit s = (0, foo_tuple (sk_n s), ?s)"
    using Suc.prems n by (simp add: send_k_emit_def Let_def word_less_nat_alt)
  have "send_run (Suc m) ?s = Some (map (\<lambda>j. foo_tuple (of_nat j)) [Suc (unat (sk_n s))..<unat (sk_k s)])"
    using Suc.IH [of ?s] Suc.prems n by simp
  moreover have "send_run (Suc (Suc m)) s = map_option (Cons (foo_tuple (sk_n s))) (send_run (Suc m) ?s)"
    by (subst send_run.simps) (simp only: e prod.case, simp)
  moreover have "[unat (sk_n s)..<unat (sk_k s)] = unat (sk_n s) # [Suc (unat (sk_n s))..<unat (sk_k s)]"
    using Suc.prems by (simp add: upt_rec)
  ultimately show ?case by simp
qed

text \<open>A sender configured for a positive number of tuples sends exactly so many, with versions from zero, and then stops.\<close>

theorem send_k_sends_k:
  assumes "send_k_configure cfg s = ([], s')" and "sk_k s' \<noteq> 0"
  shows "send_run (unat (sk_k s')) s' = Some (map (\<lambda>j. foo_tuple (of_nat j)) [0..<unat (sk_k s')])"
proof -
  have "sk_n s' = 0" using assms(1) by (auto simp: send_k_configure_def Let_def split: if_splits option.splits)
  moreover have "unat (sk_k s') \<noteq> 0" using assms(2) by (simp add: unat_eq_0)
  ultimately show ?thesis using send_run_from [of s' "unat (sk_k s') - 1"] by simp
qed

text \<open>What waits in a queue of fixed rate: tuples and markers in the order they came in.\<close>

definition queue_items :: "FixedRateQueue \<Rightarrow> (Tuple + DataplaneMessage) list" where
  "queue_items f = map (\<lambda>m. case data m of t # _ \<Rightarrow> Inl t | [] \<Rightarrow> Inr m) (fq_queue f)"

lemma rate_enqueue_items: "queue_items (rate_enqueue ts f) = queue_items f @ map Inl (map the (filter (\<lambda>t. t \<noteq> None) ts))"
  by (induction ts f rule: rate_enqueue.induct) (simp_all add: queue_items_def)

theorem rate_process_appends:
  assumes "data marker = []"
  shows "queue_items (rate_process ts marker f) = queue_items f @ map Inl (map the (filter (\<lambda>t. t \<noteq> None) ts)) @ [Inr marker]"
  using assms rate_enqueue_items [of ts f] by (simp add: rate_process_def Let_def) (simp add: queue_items_def)

theorem rate_emit_in_order:
  assumes "queue_items f = x # xs" and "\<forall>m \<in> set (fq_queue f). length (data m) \<le> 1"
  shows "\<exists>d f'. rate_emit f = Inr (fq_ms f, Some d, f') \<and> queue_items f' = xs
     \<and> (case x of Inl t \<Rightarrow> fst d = [t] | Inr m \<Rightarrow> d = ([], m))"
proof -
  obtain m q where q: "fq_queue f = m # q" using assms(1) by (cases "fq_queue f") (auto simp: queue_items_def)
  show ?thesis using assms q by (cases "data m" rule: list.exhaust; cases "tl (data m)")
      (auto simp: rate_emit_def queue_items_def Let_def)
qed

text \<open>
  The reader of files: what one window sends are the tuples of the next files, going round, and the position moves by
  as many files.
\<close>

definition blob_ok :: "BlobReader \<Rightarrow> bool" where
  "blob_ok b \<longleftrightarrow> unat (br_cur b) < length (br_paths b) \<and> length (br_paths b) < 4294967296"

definition window_paths :: "string list \<Rightarrow> nat \<Rightarrow> nat \<Rightarrow> string list" where
  "window_paths ps c k = map (\<lambda>j. ps ! ((c + j) mod length ps)) [0..<k]"

lemma window_paths_Suc:
  "c < length ps \<Longrightarrow> window_paths ps c (Suc k) = ps ! c # window_paths ps (Suc c mod length ps) k"
  by (simp add: window_paths_def upt_conv_Cons map_Suc_upt [symmetric] comp_def mod_add_left_eq del: upt_Suc)

lemma blob_loop_ok:
  assumes "blob_ok b"
  shows "\<exists>ts b'. blob_loop k fs b buf = Inr (buf @ ts, b') \<and> blob_ok b' \<and> br_paths b' = br_paths b
     \<and> unat (br_cur b') = (unat (br_cur b) + k) mod length (br_paths b)
     \<and> map (\<lambda>t. blob (e t ! 1)) ts = map Some (filter (\<lambda>bs. length bs < MAX_READ_SIZE)
         (map the (filter (\<lambda>x. x \<noteq> None) (map fs (window_paths (br_paths b) (unat (br_cur b)) k)))))"
  using assms
proof (induction k arbitrary: b buf)
  case 0
  then show ?case by (auto simp: blob_ok_def window_paths_def)
next
  case (Suc k)
  let ?c = "unat (br_cur b)" and ?ps = "br_paths b"
  obtain ts n where ts: "blob_file fs (?ps ! ?c) (br_count b) = (ts, n)" by (rule prod.exhaust)
  let ?f = "if length ?ps \<le> unat (br_cur b + 1) then 0 else br_cur b + 1"
  let ?b = "b \<lparr>br_count := n, br_cur := ?f\<rparr>"
  have c: "?c < length ?ps" "length ?ps < 4294967296" using Suc.prems by (simp_all add: blob_ok_def)
  then have "unat (br_cur b + 1) = Suc ?c" by (subst unat_add_noov32) simp_all
  then have f: "unat ?f = Suc ?c mod length ?ps" using c by (auto simp: mod_Suc)
  have "0 < length ?ps" using c(1) by linarith
  then have ok: "blob_ok ?b" using c(2) f by (simp add: blob_ok_def)
  have m: "map (\<lambda>t. blob (e t ! 1)) ts = map Some (filter (\<lambda>bs. length bs < MAX_READ_SIZE)
      (map the (filter (\<lambda>x. x \<noteq> None) [fs (?ps ! ?c)])))"
    using ts by (auto simp: blob_file_def Let_def add_e_def extend_tuple_string_def empty_tuple_def split: option.splits if_splits)
  obtain ts' b' where r: "blob_loop k fs ?b (buf @ ts) = Inr ((buf @ ts) @ ts', b')" "blob_ok b'" "br_paths b' = ?ps"
    "unat (br_cur b') = (Suc ?c mod length ?ps + k) mod length ?ps"
    "map (\<lambda>t. blob (e t ! 1)) ts' = map Some (filter (\<lambda>bs. length bs < MAX_READ_SIZE)
       (map the (filter (\<lambda>x. x \<noteq> None) (map fs (window_paths ?ps (Suc ?c mod length ?ps) k)))))"
    using Suc.IH [OF ok, of "buf @ ts"] f by auto
  have "blob_loop (Suc k) fs b buf = Inr (buf @ (ts @ ts'), b')" using r(1) c ts by (simp add: nthE_def Let_def)
  then show ?case using r(2-5) m c
    by (intro exI [of _ "ts @ ts'"] exI [of _ b']) (simp add: window_paths_Suc mod_add_left_eq)
qed

theorem blob_window:
  assumes "blob_ok b"
  shows "\<exists>ts b'. blob_emit fs b = Inr (to_int32 (uint (br_ms b)), ts, window_msg (to_int32 (uint (br_ms b))), b') \<and> blob_ok b'
     \<and> map (\<lambda>t. blob (e t ! 1)) ts = map Some (filter (\<lambda>bs. length bs < MAX_READ_SIZE)
         (map the (filter (\<lambda>x. x \<noteq> None) (map fs (window_paths (br_paths b) (unat (br_cur b)) (unat (br_per_window b)))))))"
  using blob_loop_ok [OF assms, of "unat (br_per_window b)" fs "[]"] by (auto simp: blob_emit_def)

text \<open>
  The tuple at which the URL changes is lost: what the operator emits and what it remembers do not depend on it.
\<close>

theorem ratio_change_lost:
  assumes "sr_url s \<noteq> []" and "sr_target s \<noteq> None"
    and "unat (sr_url_field s) < length (e t1)" "get_s_val (e t1 ! unat (sr_url_field s)) \<noteq> sr_url s"
    and "unat (sr_url_field s) < length (e t2)" "get_s_val (e t2 ! unat (sr_url_field s)) \<noteq> sr_url s"
  shows "ratio_process_one s t1 = ratio_process_one s t2"
  using assms by (auto simp: ratio_process_one_def nthE_def)

end
