(* ===== verification/JS_Measure.thy ===== *)
theory JS_Measure
  imports JS_Operators JS_Map
begin

text \<open>
  Heartbeats to the controller (\<^verbatim>\<open>dataplane/liveness_manager.h\<close>, \<^verbatim>\<open>dataplane/liveness_manager.cc\<close>) and the
  subscriber that measures latencies (\<^verbatim>\<open>dataplane/latency_measure_subscriber\<close>).  A heartbeat timer is armed,
  or its handler is queued with or without the code for a cancelled wait.  The objects of the manager are kept
  in a list; one that is no longer in its table is destroyed.
\<close>

section \<open>Heartbeats\<close>

record ConnectionNotification =
  nt_connected :: bool
  shouldExit :: bool
  nt_armed :: bool
  nt_queued :: "bool option"
  nt_sent :: nat
  nt_late :: nat

definition new_notification :: "bool \<Rightarrow> ConnectionNotification" where
  "new_notification up = \<lparr>nt_connected = up, shouldExit = False, nt_armed = False, nt_queued = None, nt_sent = 0, nt_late = 0\<rparr>"

definition wait_to_notify :: "ConnectionNotification \<Rightarrow> ConnectionNotification" where
  "wait_to_notify n = (if \<not> nt_connected n \<or> shouldExit n then n else n \<lparr>nt_armed := True\<rparr>)"

text \<open>
  \<^verbatim>\<open>nt_late\<close> counts the heartbeats sent after the stop.  That the data port is configured is asserted;
  an error of the send is logged only.
\<close>

definition send_notification :: "nat \<Rightarrow> bool \<Rightarrow> ConnectionNotification \<Rightarrow> ConnectionNotification res" where
  "send_notification port failed n =
     (if failed \<or> \<not> nt_connected n then Inr n
      else assertE (port \<noteq> 0) (Inr (wait_to_notify (n \<lparr>nt_sent := Suc (nt_sent n),
        nt_late := (if shouldExit n then Suc (nt_late n) else nt_late n)\<rparr>))))"

definition stop_notify :: "ConnectionNotification \<Rightarrow> ConnectionNotification" where
  "stop_notify n = (if nt_armed n then n \<lparr>nt_armed := False, nt_queued := Some True\<rparr> else n) \<lparr>shouldExit := True\<rparr>"

record LivenessManager =
  lm_connections :: "(string, nat) stdmap"
  lm_notifs :: "ConnectionNotification list"

definition new_LivenessManager :: LivenessManager where
  "new_LivenessManager = \<lparr>lm_connections = [], lm_notifs = []\<rparr>"

definition start_notifications :: "nat \<Rightarrow> string \<Rightarrow> bool \<Rightarrow> LivenessManager \<Rightarrow> LivenessManager res" where
  "start_notifications port fourtuple up m =
     (let m1 = (case map_find fourtuple (lm_connections m) of None \<Rightarrow> m
            | Some i \<Rightarrow> \<lparr>lm_connections = map_erase fourtuple (lm_connections m),
                lm_notifs = (lm_notifs m)[i := stop_notify (lm_notifs m ! i)]\<rparr>) in
      bindE (send_notification port False (new_notification up)) (\<lambda>n.
      Inr \<lparr>lm_connections = map_set fourtuple (length (lm_notifs m1)) (lm_connections m1), lm_notifs = lm_notifs m1 @ [n]\<rparr>))"

definition stop_all_notifications :: "LivenessManager \<Rightarrow> LivenessManager" where
  "stop_all_notifications m = m \<lparr>lm_notifs := fold (\<lambda>(_, i) ns. ns[i := stop_notify (ns ! i)]) (lm_connections m) (lm_notifs m)\<rparr>"

definition destroyed :: "nat \<Rightarrow> LivenessManager \<Rightarrow> bool" where
  "destroyed i m \<longleftrightarrow> i \<notin> snd ` set (lm_connections m)"

text \<open>
  A queued handler runs: with the code for a cancelled wait it returns before it looks at its object; otherwise it
  works on an object that may have been destroyed.
\<close>

definition deliver :: "nat \<Rightarrow> nat \<Rightarrow> LivenessManager \<Rightarrow> LivenessManager res" where
  "deliver port i m = (let n = lm_notifs m ! i in case nt_queued n of
     None \<Rightarrow> Inr m
   | Some cancelled \<Rightarrow> (let n1 = n \<lparr>nt_queued := None\<rparr> in
       if \<not> cancelled \<and> destroyed i m then Inl NullDeref
       else bindE (send_notification port cancelled n1) (\<lambda>n2. Inr (m \<lparr>lm_notifs := (lm_notifs m)[i := n2]\<rparr>))))"

definition fire :: "ConnectionNotification \<Rightarrow> ConnectionNotification" where
  "fire n = n \<lparr>nt_armed := False, nt_queued := Some False\<rparr>"

text \<open>The steps of the manager and of its environment, in any order.\<close>

inductive live_step :: "nat \<Rightarrow> LivenessManager \<Rightarrow> LivenessManager \<Rightarrow> bool" for port where
  Start: "start_notifications port k up m = Inr m' \<Longrightarrow> live_step port m m'"
| StopAll: "live_step port m (stop_all_notifications m)"
| Fire: "i < length (lm_notifs m) \<Longrightarrow> nt_armed (lm_notifs m ! i) \<Longrightarrow>
    live_step port m (m \<lparr>lm_notifs := (lm_notifs m)[i := fire (lm_notifs m ! i)]\<rparr>)"
| Deliver: "i < length (lm_notifs m) \<Longrightarrow> deliver port i m = Inr m' \<Longrightarrow> live_step port m m'"
| Connect: "i < length (lm_notifs m) \<Longrightarrow>
    live_step port m (m \<lparr>lm_notifs := (lm_notifs m)[i := (lm_notifs m ! i) \<lparr>nt_connected := up\<rparr>]\<rparr>)"

inductive live_reach :: "nat \<Rightarrow> LivenessManager \<Rightarrow> bool" for port where
  Init: "live_reach port new_LivenessManager"
| Step: "live_reach port m \<Longrightarrow> live_step port m m' \<Longrightarrow> live_reach port m'"

text \<open>
  A timer is armed or its handler is queued, never both; a stopped notification is not armed, and it sends at most
  one more heartbeat, and none while its last handler is still queued.
\<close>

definition notif_ok :: "ConnectionNotification \<Rightarrow> bool" where
  "notif_ok n \<longleftrightarrow> (nt_armed n \<longrightarrow> nt_queued n = None) \<and> (shouldExit n \<longrightarrow> \<not> nt_armed n) \<and> nt_late n \<le> 1
     \<and> (nt_queued n \<noteq> None \<or> \<not> shouldExit n \<longrightarrow> nt_late n = 0)"

lemma notif_ok_new: "notif_ok (new_notification up)"
  by (simp add: notif_ok_def new_notification_def)

lemma notif_ok_send:
  assumes "notif_ok n" "nt_queued n = Some c" "send_notification port c (n \<lparr>nt_queued := None\<rparr>) = Inr n'"
  shows "notif_ok n'"
  using assms by (auto simp: send_notification_def wait_to_notify_def notif_ok_def res_simps split: if_splits)

lemma notif_ok_first: "send_notification port False (new_notification up) = Inr n \<Longrightarrow> notif_ok n"
  by (auto simp: send_notification_def wait_to_notify_def notif_ok_def new_notification_def res_simps split: if_splits)

lemma notif_ok_stop: "notif_ok n \<Longrightarrow> notif_ok (stop_notify n)"
  by (auto simp: notif_ok_def stop_notify_def)

lemma notif_ok_fire: "notif_ok n \<Longrightarrow> nt_armed n \<Longrightarrow> notif_ok (fire n)"
  by (auto simp: notif_ok_def fire_def)

definition live_ok :: "LivenessManager \<Rightarrow> bool" where
  "live_ok m \<longleftrightarrow> list_all notif_ok (lm_notifs m) \<and> (\<forall>(k, i) \<in> set (lm_connections m). i < length (lm_notifs m))"

lemma list_all_update: "list_all P xs \<Longrightarrow> (i < length xs \<Longrightarrow> P x) \<Longrightarrow> list_all P (xs[i := x])"
  by (cases "i < length xs") (auto simp: list_all_iff list_update_beyond dest: in_set_update)

lemma list_all_nth: "list_all P xs \<Longrightarrow> i < length xs \<Longrightarrow> P (xs ! i)"
  by (simp add: list_all_length)

lemma stop_all_ok:
  "list_all notif_ok ns \<Longrightarrow> list_all notif_ok (fold (\<lambda>(_, i) ns. ns[i := stop_notify (ns ! i)]) cs ns)"
  by (induction cs arbitrary: ns) (auto intro!: list_all_update notif_ok_stop intro: list_all_nth)

lemma stop_all_length: "length (fold (\<lambda>(_, i) ns. ns[i := stop_notify (ns ! i)]) cs ns) = length ns"
  by (induction cs arbitrary: ns) auto

lemma start_ok:
  assumes "live_ok m" "start_notifications port k up m = Inr m'"
  shows "live_ok m'"
proof -
  let ?m1 = "case map_find k (lm_connections m) of None \<Rightarrow> m
    | Some i \<Rightarrow> \<lparr>lm_connections = map_erase k (lm_connections m), lm_notifs = (lm_notifs m)[i := stop_notify (lm_notifs m ! i)]\<rparr>"
  have 1: "live_ok ?m1"
    using assms(1) by (auto simp: live_ok_def map_erase_def intro!: list_all_update notif_ok_stop intro: list_all_nth split: option.split)
  obtain n where n: "send_notification port False (new_notification up) = Inr n"
    and m': "m' = \<lparr>lm_connections = map_set k (length (lm_notifs ?m1)) (lm_connections ?m1), lm_notifs = lm_notifs ?m1 @ [n]\<rparr>"
    using assms(2) by (auto simp: start_notifications_def Let_def res_simps)
  have s: "set (map_set k v c) \<subseteq> insert (k, v) (set c)" for v :: nat and c
    by (induction k v c rule: map_set.induct) auto
  show ?thesis using 1 notif_ok_first [OF n] s [of "length (lm_notifs ?m1)" "lm_connections ?m1"]
    unfolding m' live_ok_def by (auto simp: less_Suc_eq)
qed

lemma live_step_ok:
  assumes "live_step port m m'" "live_ok m"
  shows "live_ok m'"
  using assms
proof cases
  case (Start k up)
  then show ?thesis using start_ok assms(2) by blast
next
  case StopAll
  then show ?thesis using assms(2) by (auto simp: live_ok_def stop_all_notifications_def stop_all_ok stop_all_length)
next
  case (Fire i)
  then show ?thesis using assms(2) by (auto simp: live_ok_def intro!: list_all_update notif_ok_fire intro: list_all_nth)
next
  case (Deliver i)
  have "notif_ok (lm_notifs m ! i)" using assms(2) Deliver(1) by (auto simp: live_ok_def intro: list_all_nth)
  then show ?thesis using assms(2) Deliver(2) notif_ok_send [of "lm_notifs m ! i"]
    by (auto simp: live_ok_def deliver_def Let_def res_simps split: option.splits if_splits intro!: list_all_update)
next
  case (Connect i up)
  have "notif_ok (lm_notifs m ! i)" using assms(2) Connect(2) by (auto simp: live_ok_def intro: list_all_nth)
  then have "notif_ok ((lm_notifs m ! i) \<lparr>nt_connected := up\<rparr>)" by (simp add: notif_ok_def)
  then show ?thesis using assms(2) Connect(1) by (auto simp: live_ok_def intro!: list_all_update)
qed

lemma live_ok_init: "live_ok new_LivenessManager"
  by (simp add: live_ok_def new_LivenessManager_def)

text \<open>
  In every reachable state a notification that was stopped sends at most one more heartbeat, and a timer is
  never armed twice.
\<close>

theorem heartbeats_stop:
  assumes "live_reach port m" and "n \<in> set (lm_notifs m)"
  shows "nt_late n \<le> 1 \<and> \<not> (nt_armed n \<and> nt_queued n \<noteq> None) \<and> (shouldExit n \<longrightarrow> \<not> nt_armed n)"
proof -
  have "live_ok m" using assms(1)
    by (induction rule: live_reach.induct) (auto intro: live_step_ok live_ok_init)
  then show ?thesis using assms(2) by (auto simp: live_ok_def list_all_iff notif_ok_def)
qed

text \<open>
  When a connection with the same four-tuple is announced again just after its timer has fired, the old
  object is destroyed with its handler still queued, and the handler works on it.
\<close>

definition fired_then_restarted :: "LivenessManager res" where
  "fired_then_restarted = bindE (start_notifications 1 ''k'' True new_LivenessManager) (\<lambda>m.
     let m1 = m \<lparr>lm_notifs := (lm_notifs m)[0 := fire (lm_notifs m ! 0)]\<rparr> in
     bindE (start_notifications 1 ''k'' True m1) (deliver 1 0))"

theorem restart_uses_destroyed: "fired_then_restarted = Inl NullDeref"
  by code_simp

section \<open>LatencyMeasureSubscriber\<close>

type_synonym latency_counts = "(int, u32) stdmap"

record LatencyMeasureSubscriber =
  time_tuple_index :: u32
  hostname_tuple_index :: u32
  interval_ms :: u32
  cumulative :: bool
  max_before_ms :: msec_t
  max_after_ms :: msec_t
  stats_before_rt :: "(string, latency_counts) stdmap"
  stats_before_skew :: "(string, latency_counts) stdmap"
  stats_after_rt :: "(string, latency_counts) stdmap"
  stats_after_skew :: "(string, latency_counts) stdmap"

text \<open>A cast of a text to bool takes only \<^verbatim>\<open>0\<close> and \<^verbatim>\<open>1\<close>, and throws otherwise.\<close>

definition lexical_bool :: "string \<Rightarrow> bool res" where
  "lexical_bool s = (case lexical_integer s of Some i \<Rightarrow> if i = 0 then Inr False else if i = 1 then Inr True else Inl BadConvert
     | None \<Rightarrow> Inl BadConvert)"

definition latency_configure :: "op_config \<Rightarrow> LatencyMeasureSubscriber \<Rightarrow> (operator_err_t \<times> LatencyMeasureSubscriber) res" where
  "latency_configure cfg s = (case stream_u32 (cfg_get cfg ''time_tuple_index'') of
     None \<Rightarrow> Inr (''must have a numeric index for time field in tuples'', s)
   | Some t \<Rightarrow> (let s1 = s \<lparr>time_tuple_index := t\<rparr> in case stream_u32 (cfg_get cfg ''hostname_tuple_index'') of
       None \<Rightarrow> Inr (''must have a numeric index for source-hostname in tuples'', s1)
     | Some h \<Rightarrow> bindE (case cfg ''interval_ms'' of None \<Rightarrow> Inr 1000 | Some v \<Rightarrow> lexical_u32 v) (\<lambda>ms.
         bindE (case cfg ''cumulative'' of None \<Rightarrow> Inr False | Some v \<Rightarrow> lexical_bool v) (\<lambda>c.
         Inr ([], s1 \<lparr>hostname_tuple_index := h, interval_ms := ms, cumulative := c\<rparr>)))))"

text \<open>Division of ints truncates towards zero.\<close>

definition cdiv :: "int \<Rightarrow> int \<Rightarrow> int" where
  "cdiv a b = sgn a * (\<bar>a\<bar> div b)"

definition get_bucket :: "int \<Rightarrow> int res" where
  "get_bucket latency = checkE (latency \<noteq> INT_MIN) IntOverflow (Inr (
     if \<bar>latency\<bar> < 10 then cdiv latency 2 * 2
     else if \<bar>latency\<bar> < 100 then cdiv latency 10 * 10
     else if \<bar>latency\<bar> < 1000 then cdiv latency 20 * 20
     else cdiv latency 100 * 100))"

definition count_bucket :: "int \<Rightarrow> latency_counts \<Rightarrow> latency_counts" where
  "count_bucket b m = map_set b ((case map_find b m of None \<Rightarrow> 0 | Some c \<Rightarrow> c) + 1) m"

definition make_stats ::
  "msec_t \<Rightarrow> msec_t \<Rightarrow> latency_counts \<Rightarrow> latency_counts \<Rightarrow> msec_t \<Rightarrow> (latency_counts \<times> latency_counts \<times> msec_t) res" where
  "make_stats now tuple_time rt skew max_seen =
     bindE (get_bucket (to_int32 (uint (now - tuple_time)))) (\<lambda>b.
     if max_seen < tuple_time then Inr (count_bucket b rt, skew, tuple_time)
     else bindE (get_bucket (to_int32 (uint (max_seen - tuple_time)))) (\<lambda>c. Inr (count_bucket b rt, count_bucket c skew, max_seen)))"

definition host_counts :: "string \<Rightarrow> (string, latency_counts) stdmap \<Rightarrow> latency_counts" where
  "host_counts h m = (case map_find h m of None \<Rightarrow> [] | Some c \<Rightarrow> c)"

definition process_c :: "msec_t \<Rightarrow> Tuple \<Rightarrow> LatencyMeasureSubscriber \<Rightarrow> LatencyMeasureSubscriber res" where
  "process_c now t s =
     bindE (nthE (e t) (unat (hostname_tuple_index s))) (\<lambda>h.
     bindE (nthE (e t) (unat (time_tuple_index s))) (\<lambda>x.
     bindE (d_to_u64 (get_d_val x)) (\<lambda>tt.
     bindE (make_stats now (word_of_int tt) (host_counts (get_s_val h) (stats_before_rt s)) (host_counts (get_s_val h) (stats_before_skew s))
        (max_before_ms s)) (\<lambda>(rt, skew, mx).
     Inr (s \<lparr>stats_before_rt := map_set (get_s_val h) rt (stats_before_rt s),
             stats_before_skew := map_set (get_s_val h) skew (stats_before_skew s), max_before_ms := mx\<rparr>)))))"

definition latency_post_insert :: "msec_t \<Rightarrow> Tuple \<Rightarrow> LatencyMeasureSubscriber \<Rightarrow> LatencyMeasureSubscriber res" where
  "latency_post_insert now t s =
     bindE (nthE (e t) (unat (hostname_tuple_index s))) (\<lambda>h.
     bindE (nthE (e t) (unat (time_tuple_index s))) (\<lambda>x.
     bindE (d_to_u64 (get_d_val x)) (\<lambda>tt.
     bindE (make_stats now (word_of_int tt) (host_counts (get_s_val h) (stats_after_rt s)) (host_counts (get_s_val h) (stats_after_skew s))
        (max_after_ms s)) (\<lambda>(rt, skew, mx).
     Inr (s \<lparr>stats_after_rt := map_set (get_s_val h) rt (stats_after_rt s),
             stats_after_skew := map_set (get_s_val h) skew (stats_after_skew s), max_after_ms := mx\<rparr>)))))"

definition stat_tuple :: "string \<Rightarrow> string \<Rightarrow> int \<times> u32 \<Rightarrow> Tuple" where
  "stat_tuple host label c = extend_tuple_int (extend_tuple_int (extend_tuple_string (extend_tuple_string empty_tuple host) label) (fst c))
     (to_int32 (uint (snd c)))"

definition latency_print_stats :: "(string, latency_counts) stdmap \<Rightarrow> string \<Rightarrow> Tuple list list" where
  "latency_print_stats stats label = map (\<lambda>(h, cs). map (stat_tuple h label) cs) stats"

definition latency_emit_batch :: "msec_t \<Rightarrow> LatencyMeasureSubscriber \<Rightarrow> int \<times> Tuple list list \<times> LatencyMeasureSubscriber" where
  "latency_emit_batch now s =
     (let stamp = show_int (uint now) in
      (to_int32 (uint (interval_ms s)),
       latency_print_stats (stats_before_rt s) (''before cube insert '' @ stamp) @ latency_print_stats (stats_after_rt s) (''after cube insert '' @ stamp),
       if cumulative s then s
       else s \<lparr>stats_before_rt := [], stats_after_rt := [], stats_before_skew := [], stats_after_skew := []\<rparr>))"

text \<open>A bucket has the sign of the latency, is not farther from zero, and its error is bounded by the range it lies in.\<close>

lemma cdiv_close:
  assumes "0 < k"
  shows "\<bar>cdiv l k * k\<bar> \<le> \<bar>l\<bar>" "\<bar>l - cdiv l k * k\<bar> < k" "0 \<le> l \<Longrightarrow> 0 \<le> cdiv l k * k" "l \<le> 0 \<Longrightarrow> cdiv l k * k \<le> 0"
proof -
  define q r where "q = \<bar>l\<bar> div k * k" and "r = \<bar>l\<bar> mod k"
  have "\<bar>l\<bar> = q + r" by (simp add: q_def r_def)
  moreover have "0 \<le> r" "r < k" using assms by (simp_all add: r_def)
  moreover have "0 \<le> q" using assms by (simp add: q_def pos_imp_zdiv_nonneg_iff)
  moreover have "cdiv l k * k = (if 0 < l then q else if l = 0 then 0 else - q)" by (simp add: cdiv_def q_def)
  ultimately show "\<bar>cdiv l k * k\<bar> \<le> \<bar>l\<bar>" "\<bar>l - cdiv l k * k\<bar> < k" "0 \<le> l \<Longrightarrow> 0 \<le> cdiv l k * k" "l \<le> 0 \<Longrightarrow> cdiv l k * k \<le> 0"
    using assms by auto
qed

theorem bucket_close:
  assumes "get_bucket l = Inr b"
  shows "\<bar>b\<bar> \<le> \<bar>l\<bar> \<and> (0 \<le> l \<longrightarrow> 0 \<le> b) \<and> (l \<le> 0 \<longrightarrow> b \<le> 0) \<and> \<bar>l - b\<bar> < 100
    \<and> (\<bar>l\<bar> < 10 \<longrightarrow> \<bar>l - b\<bar> < 2) \<and> (\<bar>l\<bar> < 100 \<longrightarrow> \<bar>l - b\<bar> < 10) \<and> (\<bar>l\<bar> < 1000 \<longrightarrow> \<bar>l - b\<bar> < 20)"
proof -
  define k :: int where "k = (if \<bar>l\<bar> < 10 then 2 else if \<bar>l\<bar> < 100 then 10 else if \<bar>l\<bar> < 1000 then 20 else 100)"
  have k: "b = cdiv l k * k" "0 < k" "k \<le> 100" "\<bar>l\<bar> < 10 \<longrightarrow> k = 2" "\<bar>l\<bar> < 100 \<longrightarrow> k \<le> 10" "\<bar>l\<bar> < 1000 \<longrightarrow> k \<le> 20"
    using assms by (auto simp: get_bucket_def k_def res_simps split: if_splits)
  note c = cdiv_close [OF k(2), of l, folded k(1)]
  show ?thesis using c k(3-6) by auto
qed

text \<open>Each tuple is counted once, in the bucket of its latency.\<close>

theorem make_stats_counts:
  assumes "make_stats now tt rt skew mx = Inr (rt', skew', mx')"
  shows "\<exists>b. get_bucket (to_int32 (uint (now - tt))) = Inr b
     \<and> (\<forall>k. map_find k rt' = (if k = b then Some ((case map_find b rt of None \<Rightarrow> 0 | Some c \<Rightarrow> c) + 1) else map_find k rt))
     \<and> mx' = max mx tt"
  using assms by (auto simp: make_stats_def count_bucket_def res_simps max_def split: if_splits)

end
