(* ===== verification/Spec2Isabelle.thy ===== *)
theory Spec2Isabelle
  imports JS_Operators JS_CubeThreads JS_MTCube JS_Topk JS_Dataplane JS_Node JS_Sources JS_Measure
begin

text \<open>
  \<^bold>\<open>JetStream: a verification development of the data plane.\<close>

  JetStream is a streaming system for wide-area networks.  A \<^emph>\<open>node\<close> runs \<^emph>\<open>chains\<close> of
  operators; a chain starts at a source, a subscriber of a cube or a network connection and ends in a
  \<^emph>\<open>cube\<close>, an operator that consumes, or an adaptor to another node.  A cube stores aggregates of
  tuples by their dimensions and feeds subscribers.  Queues along the way report how congested they
  are, and a policy per group of operators tells them to degrade or restore the quality of the data.
  A controller sends requests to alter the topology of a node or to stop a computation.

  \<^bold>\<open>Conventions.\<close>  A C++ function is a HOL function on explicit state.  What may abort, throw or run into
  undefined behaviour has a result \<^verbatim>\<open>'a res\<close>, with the kind of failure on the left (JS_Prelude);
  \<^verbatim>\<open>int\<close> is \<^verbatim>\<open>int\<close> with checked overflow, unsigned types are words, \<^verbatim>\<open>double\<close> is IEEE binary64 over
  rationals with rounding to even (JS_Double), std::map is a sorted association list (JS_Map), a shared pointer
  that may be null is an option.  A handler that holds its lock, or runs on its strand, is one step.  Where threads
  interleave inside an operation, the steps are those between their accesses to shared memory.
  Timers and posted handlers are armed callbacks in the state.

  \<^bold>\<open>Theories\<close> (all paths under \<^verbatim>\<open>src/src\<close>).

  \<^item> JS_Prelude, JS_Double, JS_Map, JS_Text: errors and results, checked arithmetic and vector access; doubles; maps;
    reading numbers from configuration text.
  \<^item> JS_Types: \<^verbatim>\<open>utils/js_utils\<close> and the records of \<^verbatim>\<open>proto/jetstream_types.proto\<close>: operator ids and their order
    (an instance of \<^verbatim>\<open>linorder\<close>), tuples, edges, schemas, requests and their builders.
  \<^item> JS_Monitors: \<^verbatim>\<open>utils/*_mon.h\<close>, \<^verbatim>\<open>utils/congestion_monitors.cc\<close>, \<^verbatim>\<open>utils/counter.h\<close>: queue, window, smoothing, chained
    and shared monitors.  The lock-free counters take what other threads do between two accesses as an argument.
    The locale \<^verbatim>\<open>capacity_monitor\<close> is the contract of a monitor (the invariant is kept and a ratio is not negative),
    interpreted for each class; \<^verbatim>\<open>chained_monitor\<close> extends it and is a sublocale of it again.
  \<^item> JS_Policy: \<^verbatim>\<open>dataplane/congest_policy.cc\<close>: \<^verbatim>\<open>get_step\<close> with its scans and target search.  The locale \<^verbatim>\<open>policy_client\<close>
    draws on \<^verbatim>\<open>capacity_monitor\<close> and is interpreted for each monitor.
  \<^item> JS_Histogram, JS_Sample, JS_Sketch, JS_Summary: \<^verbatim>\<open>aggregates/\<close> and \<^verbatim>\<open>dataplane/summary_operators\<close>: the log-scale histogram,
    samples and reservoirs, count-min sketches, merging of summaries and their operators.  The locales
    \<^verbatim>\<open>aggregate_class\<close> and \<^verbatim>\<open>serialised_aggregate\<close> are what the templates ask of a summary class.
  \<^item> JS_Chain, JS_Operators: \<^verbatim>\<open>dataplane/operator_chain\<close>, \<^verbatim>\<open>dataplane/chain_ops\<close>, \<^verbatim>\<open>dataplane/base_operators\<close>,
    \<^verbatim>\<open>dataplane/variable_sampling\<close>.  The locale \<^verbatim>\<open>stream_operator\<close> says that an operator works tuple by tuple; it is
    interpreted for the operators of the program and gives the batching theorem of chains.
  \<^item> JS_Batch, JS_CubeImpl, JS_Cube, JS_CubeThreads, JS_MTCube: \<^verbatim>\<open>cube/\<close>: the batch of pending cells, dimensions, keys and
    aggregates, dispatch to processors, flush barriers, the threads as a labelled transition system with an
    abstract machine it refines, and the in-memory cube over a store with the contract \<^verbatim>\<open>kv_store\<close>.
  \<^item> JS_Subscribers, JS_Topk: \<^verbatim>\<open>dataplane/base_subscribers\<close>, \<^verbatim>\<open>dataplane/filter_subscriber\<close>, \<^verbatim>\<open>dataplane/querier.h\<close>,
    \<^verbatim>\<open>dataplane/topk_tput\<close>: windows over a cube, coarsening, delayed queries and the three-round top-k protocol.
  \<^item> JS_Socket, JS_Connection, JS_Dataplane: \<^verbatim>\<open>comm/\<close> and \<^verbatim>\<open>dataplane/dataplane_comm\<close>: framing and the send queue, setting up of
    connections, the adaptors at both ends of a link and their manager.  The locale \<^verbatim>\<open>channel\<close> is what the adaptor relies
    on; the connection of the program interprets it.
  \<^item> JS_Node: \<^verbatim>\<open>dataplane/node\<close>, \<^verbatim>\<open>dataplane/cube_manager\<close>: the tables of operators, chains and cubes, altering the
    topology with its roll-back, building chains, congestion policies and stopping a computation.
  \<^item> JS_Sources: \<^verbatim>\<open>dataplane/awstream_operators\<close>, \<^verbatim>\<open>dataplane/experiment_operators\<close>, \<^verbatim>\<open>dataplane/sosp_operators\<close>: the adaptive
    video source, senders, the queue of fixed rate and the reader of files.
  \<^item> JS_Measure: \<^verbatim>\<open>dataplane/liveness_manager\<close>, \<^verbatim>\<open>dataplane/latency_measure_subscriber\<close>: heartbeats as a step relation with
    its invariant, and the buckets of latencies.

  \<^bold>\<open>What the theorems show.\<close>

  \<^item> Cubes: in every interleaving of a cube's threads a flush callback runs once, and only after everything merged ahead
    of it was written; a batched cell is the merge of its tuples in order; a flush writes each cell once; tuples of a
    cell keep their order; keys are injective up to the separator; the in-memory cube sums its cells.
  \<^item> Congestion: steps stay in range and go to the right operator; monitors account for what went through and keep
    their bounds; sampling, histograms and windows follow the steps and keep their data or stay aligned with it.
  \<^item> Summaries: the bucket search, merging, round trips and the error bounds of the estimates.
  \<^item> Chains: cutting a stream into batches differently changes nothing; filtering in place equals filtering; a
    source stays armed while it runs.
  \<^item> Network: a receiver gets a start of what was accepted for sending, in order, and everything when nothing is left
    unsent; a hop between nodes is transparent for the chain behind it; closing and stopping flush first.
  \<^item> Top-k: the candidates of the last round contain the true answer.  Subscribers: windows partition time.
  \<^item> Node: a request that fails is undone in the tables; building chains ends when edges have no cycle; stopping a
    computation stops and removes exactly what belongs to it.
  \<^item> Sources: the video source emits a frame of the traced size at every call and stays inside its profile; a sender sends
    its number of tuples and stops; the reader of files goes round its directory.
  \<^item> Error theorems show where the code leaves these guarantees: null pointers entered into tables, reads past an array,
    a connection closed by an empty message and others.

  \<^bold>\<open>Arguments of the model\<close> stand for what is outside of the sources or chance: random draws, the clock, the answers
  of the operating system, protobuf's serialisation and sizes, the Masstree operations, the answers of cube
  queries, regular expressions and tokenizers, the operator loader, virtual functions of an unknown subclass,
  the last owner of a weak pointer.  What a theorem needs of them is a hypothesis with a witness.

  \<^bold>\<open>Bounds and fuel.\<close>  Loops are structural recursion or carry a termination proof.  The compare-and-swap loop of the
  counters takes the finite list of interferences it meets; the upgrade search runs over the readable part of
  the level array and a read past it is an error; the walk along edges is a partial function whose missing result means
  that the loop does not end, and both its termination and its divergence on a cycle are proved.

  \<^bold>\<open>Not modelled.\<close>  The MySQL cube and user-defined functions (SQL text and a database server), the web pages, the
  process and its thread pool, the loading of shared libraries, operators that only log or
  print statistics, prototypes, and vendored code (Masstree, strtk, mongoose).  Log lines are left out everywhere.
  Handlers are atomic where the code holds a lock; data races on unlocked fields are modelled only for the counters
  of the monitors.
\<close>

end
